(* ===== verification/Prelude.thy ===== *)
theory Prelude
  imports Main "HOL-Library.Word" "HOL-Library.Sublist"
begin

unbundle bit_operations_syntax

text \<open>
  What the components share: Go's machine integers and byte slices, error values
  and their texts, panics, channels, and the contract of a transition system with
  an invariant.
\<close>

named_theorems go_simps \<open>equations of the small Go operations (maps, channels, errors)\<close>

section \<open>Machine integers and bytes\<close>

type_synonym u64 = "64 word"
type_synonym u32 = "32 word"
type_synonym int32 = "32 word"
type_synonym byte = "8 word"
type_synonym bytes = "byte list"

lemma unat_lt64: "unat (y :: u64) < 18446744073709551616"
  using unsigned_less [of y] by simp

lemma int_unat: "int (unat w) = uint w"
  by simp

lemma sint_small64: "uint (w :: u64) < 2 ^ 63 \<Longrightarrow> sint w = uint w"
  by (simp add: sint_uint signed_take_bit_int_eq_self_iff)
    (use unsigned_greater_eq [of w, where ?'a = int] in linarith)

lemma sint_cases64: "sint (w :: u64) = uint w \<or> sint w < 0"
proof (cases "bit (uint w) 63")
  case True
  then show ?thesis by (simp add: sint_uint signed_take_bit_negative_iff)
next
  case False
  have "uint w < 2 ^ 64" using unsigned_less [of w, where ?'a = int] by simp
  have "uint w < 2 ^ 63"
  proof (rule ccontr)
    assume "\<not> uint w < 2 ^ 63"
    with \<open>uint w < 2 ^ 64\<close> have "uint w div 2 ^ 63 = 1"
      by (intro int_div_pos_eq [of _ _ _ "uint w - 2 ^ 63"]) auto
    with False show False by (simp add: bit_iff_odd)
  qed
  then show ?thesis using sint_small64 by blast
qed

section \<open>Error values\<close>

text \<open>
  A Go \<open>error\<close> is compared by identity (\<open>err == io.EOF\<close>) and read by its
  text (\<open>err.Error()\<close>). Sentinels of the standard library and of the repository
  are constructors; \<open>Wrap p e\<close> is \<open>fmt.Errorf(p + ": %w", e)\<close>, \<open>Errorf t\<close>
  an error with the text \<open>t\<close>, \<open>OpError p e\<close> a \<open>*net.OpError\<close> whose
  operation, network and addresses print as \<open>p\<close>, and \<open>ExtErr t\<close> an error made
  by code outside the repository.
\<close>

datatype error =
    EOF
  | ErrUnexpectedEOF
  | ErrVarintOverflow
  | ErrCanceled
  | ErrNotProtobufMessage
  | ErrMsgSendFuncNotSet
  | OpError string error
  | Errorf string
  | Wrap string error
  | ExtErr string

fun err_string :: "error \<Rightarrow> string" where
  "err_string EOF = ''EOF''"
| "err_string ErrUnexpectedEOF = ''unexpected EOF''"
| "err_string ErrVarintOverflow = ''binary: varint overflows a 64-bit integer''"
| "err_string ErrCanceled = ''context canceled''"
| "err_string ErrNotProtobufMessage = ''invalid not protobuf message''"
| "err_string ErrMsgSendFuncNotSet = ''message send func not set''"
| "err_string (OpError p e) = p @ '': '' @ err_string e"
| "err_string (Errorf t) = t"
| "err_string (Wrap p e) = p @ '': '' @ err_string e"
| "err_string (ExtErr t) = t"

text \<open>A call either returns or panics; the panic value is its text.\<close>

datatype 'a outcome = Ret 'a | Panic string

fun bind_outcome :: "'a outcome \<Rightarrow> ('a \<Rightarrow> 'b outcome) \<Rightarrow> 'b outcome" where
  "bind_outcome (Ret x) f = f x"
| "bind_outcome (Panic p) f = Panic p"

lemma bind_outcome_Ret_iff:
  "bind_outcome m f = Ret y \<longleftrightarrow> (\<exists>x. m = Ret x \<and> f x = Ret y)"
  by (cases m) auto

lemma bind_outcome_assoc:
  "bind_outcome (bind_outcome m f) g = bind_outcome m (\<lambda>x. bind_outcome (f x) g)"
  by (cases m) auto

section \<open>Strings\<close>

text \<open>\<open>strings.Contains\<close>, and \<open>strings.ToLower\<close> on the ASCII letters.\<close>

definition str_contains :: "string \<Rightarrow> string \<Rightarrow> bool" where
  "str_contains s t \<longleftrightarrow> sublist t s"

definition char_lower :: "char \<Rightarrow> char" where
  "char_lower c = (if 65 \<le> (of_char c :: nat) \<and> (of_char c :: nat) \<le> 90
                   then char_of ((of_char c :: nat) + 32) else c)"

definition str_lower :: "string \<Rightarrow> string" where
  "str_lower = map char_lower"

text \<open>The verb \<open>%d\<close>.\<close>

fun show_nat :: "nat \<Rightarrow> string" where
  "show_nat n = (if n < 10 then [char_of (48 + n)] else show_nat (n div 10) @ [char_of (48 + n mod 10)])"

declare show_nat.simps [simp del]

definition show_int :: "int \<Rightarrow> string" where
  "show_int i = (if i < 0 then ''-'' @ show_nat (nat (- i)) else show_nat (nat i))"

section \<open>Interleavings\<close>

lemma snoc_in_shuffles_single: "ys @ [z] \<in> shuffles [z] ys"
  by (induction ys) (auto intro: Cons_in_shuffles_rightI)

lemma snoc_in_shuffles_left: "zs \<in> shuffles xs ys \<Longrightarrow> zs @ [z] \<in> shuffles (xs @ [z]) ys"
  by (induction xs ys arbitrary: zs rule: shuffles.induct) (auto simp: snoc_in_shuffles_single)

lemma snoc_in_shuffles_right: "zs \<in> shuffles xs ys \<Longrightarrow> zs @ [z] \<in> shuffles xs (ys @ [z])"
  using snoc_in_shuffles_left [of zs ys xs z] by (simp add: shuffles_commutes)

section \<open>Channels\<close>

text \<open>
  A buffered channel. A send on a closed channel and a second close panic; a receive
  from a closed and drained channel yields no value (\<open>more = false\<close>).
\<close>

record 'a chan =
  ch_cap :: nat
  ch_buf :: "'a list"
  ch_closed :: bool

definition make_chan :: "nat \<Rightarrow> 'a chan" where
  "make_chan n = \<lparr>ch_cap = n, ch_buf = [], ch_closed = False\<rparr>"

definition send_ready :: "'a chan \<Rightarrow> bool" where
  "send_ready c \<longleftrightarrow> ch_closed c \<or> length (ch_buf c) < ch_cap c"

definition chan_send :: "'a \<Rightarrow> 'a chan \<Rightarrow> 'a chan outcome" where
  "chan_send x c = (if ch_closed c then Panic ''send on closed channel''
                    else Ret (c\<lparr>ch_buf := ch_buf c @ [x]\<rparr>))"

definition recv_ready :: "'a chan \<Rightarrow> bool" where
  "recv_ready c \<longleftrightarrow> ch_buf c \<noteq> [] \<or> ch_closed c"

definition chan_recv :: "'a chan \<Rightarrow> 'a option \<times> 'a chan" where
  "chan_recv c = (case ch_buf c of [] \<Rightarrow> (None, c) | x # xs \<Rightarrow> (Some x, c\<lparr>ch_buf := xs\<rparr>))"

definition chan_close :: "'a chan \<Rightarrow> 'a chan outcome" where
  "chan_close c = (if ch_closed c then Panic ''close of closed channel''
                   else Ret (c\<lparr>ch_closed := True\<rparr>))"

lemma chan_send_open [go_simps]:
  "\<not> ch_closed c \<Longrightarrow> chan_send x c = Ret (c\<lparr>ch_buf := ch_buf c @ [x]\<rparr>)"
  by (simp add: chan_send_def)

lemma chan_close_open [go_simps]:
  "\<not> ch_closed c \<Longrightarrow> chan_close c = Ret (c\<lparr>ch_closed := True\<rparr>)"
  by (simp add: chan_close_def)

section \<open>Transition systems\<close>

text \<open>Reachability from a set of initial states, shared by the concurrent components.\<close>

inductive reach :: "('s \<Rightarrow> bool) \<Rightarrow> ('s \<Rightarrow> 's \<Rightarrow> bool) \<Rightarrow> 's \<Rightarrow> bool"
  for init step where
  reach_init: "init s \<Longrightarrow> reach init step s"
| reach_step: "reach init step s \<Longrightarrow> step s t \<Longrightarrow> reach init step t"

text \<open>A run of some of the steps, from a reachable state.\<close>

lemma reach_run:
  assumes "reach init step s" and "R\<^sup>*\<^sup>* s t" and "\<And>u v. R u v \<Longrightarrow> step u v"
  shows "reach init step t"
  using assms(2,1) by (induction rule: rtranclp_induct) (auto intro: reach_step assms(3))

text \<open>
  The contract of a component with an inductive invariant: what its clients rely on in
  every reachable state.
\<close>

locale invariant_system =
  fixes init :: "'s \<Rightarrow> bool"
    and step :: "'s \<Rightarrow> 's \<Rightarrow> bool"
    and inv :: "'s \<Rightarrow> bool"
  assumes inv_init: "init s \<Longrightarrow> inv s"
    and inv_step: "step s t \<Longrightarrow> inv s \<Longrightarrow> inv t"
begin

lemma inv_reach: "reach init step s \<Longrightarrow> inv s"
  by (induction rule: reach.induct) (auto intro: inv_init inv_step)

lemma inv_rtranclp: "step\<^sup>*\<^sup>* s t \<Longrightarrow> inv s \<Longrightarrow> inv t"
  by (induction rule: rtranclp_induct) (auto intro: inv_step)

lemma reach_rtranclp: "step\<^sup>*\<^sup>* s t \<Longrightarrow> reach init step s \<Longrightarrow> reach init step t"
  by (induction rule: rtranclp_induct) (auto intro: reach_step)

end

text \<open>
  A component that implements an abstract one: through a function of its state, each of
  its steps is a step of the abstract system or leaves the abstract state as it is.
\<close>

locale refinement_system = invariant_system +
  fixes ainit :: "'a \<Rightarrow> bool"
    and astep :: "'a \<Rightarrow> 'a \<Rightarrow> bool"
    and abs :: "'s \<Rightarrow> 'a"
  assumes abs_init: "init s \<Longrightarrow> ainit (abs s)"
    and abs_step: "step s t \<Longrightarrow> inv s \<Longrightarrow> abs t = abs s \<or> astep (abs s) (abs t)"
begin

lemma reach_abs: "reach init step s \<Longrightarrow> reach ainit astep (abs s)"
proof (induction rule: reach.induct)
  case (reach_step s t)
  then have "abs t = abs s \<or> astep (abs s) (abs t)" using abs_step inv_reach by blast
  with reach_step.IH show ?case by (auto intro: reach.reach_step)
qed (auto intro: reach.reach_init abs_init)

lemma abs_run: "step\<^sup>*\<^sup>* s t \<Longrightarrow> inv s \<Longrightarrow> astep\<^sup>*\<^sup>* (abs s) (abs t)"
proof (induction rule: rtranclp_induct)
  case (step t u)
  then have "abs u = abs t \<or> astep (abs t) (abs u)" using abs_step inv_rtranclp by blast
  with step show ?case by (auto intro: rtranclp.rtrancl_into_rtrancl)
qed simp

end

section \<open>Keyed registries\<close>

text \<open>
  Three components keep a table of live things by key and refuse a second registration
  of a key: stream sessions, peripherals and extension names. The abstract registry is a
  set of keys; a run of operations yields the result of each.
\<close>

datatype 'k reg_op = RegAdd 'k | RegDel 'k | RegHas 'k

fun set_run :: "'k set \<Rightarrow> 'k reg_op list \<Rightarrow> bool list \<times> 'k set" where
  "set_run K [] = ([], K)"
| "set_run K (RegAdd k # ops) = (case set_run (insert k K) ops of (rs, K') \<Rightarrow> ((k \<notin> K) # rs, K'))"
| "set_run K (RegDel k # ops) = (case set_run (K - {k}) ops of (rs, K') \<Rightarrow> (True # rs, K'))"
| "set_run K (RegHas k # ops) = (case set_run K ops of (rs, K') \<Rightarrow> ((k \<in> K) # rs, K'))"

fun reg_run ::
  "('s \<Rightarrow> 'k \<Rightarrow> bool) \<Rightarrow> ('k \<Rightarrow> 's \<Rightarrow> 's option) \<Rightarrow> ('k \<Rightarrow> 's \<Rightarrow> 's) \<Rightarrow> 's \<Rightarrow> 'k reg_op list
     \<Rightarrow> bool list \<times> 's" where
  "reg_run has add del s [] = ([], s)"
| "reg_run has add del s (RegAdd k # ops) =
     (case add k s of
        None \<Rightarrow> (case reg_run has add del s ops of (rs, s') \<Rightarrow> (False # rs, s'))
      | Some s1 \<Rightarrow> (case reg_run has add del s1 ops of (rs, s') \<Rightarrow> (True # rs, s')))"
| "reg_run has add del s (RegDel k # ops) =
     (case reg_run has add del (del k s) ops of (rs, s') \<Rightarrow> (True # rs, s'))"
| "reg_run has add del s (RegHas k # ops) =
     (case reg_run has add del s ops of (rs, s') \<Rightarrow> (has s k # rs, s'))"

text \<open>The contract of a registry, and that every run of it is a run of the set.\<close>

locale keyed_registry =
  fixes has :: "'s \<Rightarrow> 'k \<Rightarrow> bool"
    and add :: "'k \<Rightarrow> 's \<Rightarrow> 's option"
    and del :: "'k \<Rightarrow> 's \<Rightarrow> 's"
  assumes add_dup: "has s k \<Longrightarrow> add k s = None"
    and add_new: "\<not> has s k \<Longrightarrow> \<exists>s'. add k s = Some s' \<and> has s' = (has s)(k := True)"
    and del_has: "has (del k s) = (has s)(k := False)"
begin

lemma add_has: "add k s = Some s' \<Longrightarrow> \<not> has s k \<and> has s' = (has s)(k := True)"
  using add_dup add_new by (metis option.distinct(1) option.inject)

lemma reg_run_refines:
  "reg_run has add del s ops = (rs, s') \<Longrightarrow> set_run (Collect (has s)) ops = (rs, Collect (has s'))"
proof (induction ops arbitrary: s rs s')
  case (Cons op ops)
  show ?case
  proof (cases op)
    case (RegAdd k)
    show ?thesis
    proof (cases "add k s")
      case None
      then have "has s k" using add_new by fastforce
      then have "insert k (Collect (has s)) = Collect (has s)" by auto
      with None RegAdd Cons \<open>has s k\<close> show ?thesis by (auto split: prod.splits)
    next
      case (Some s1)
      then have new: "\<not> has s k" and s1: "has s1 = (has s)(k := True)" using add_has by blast+
      from s1 have "insert k (Collect (has s)) = Collect (has s1)" by auto
      with Some RegAdd Cons new show ?thesis by (auto split: prod.splits)
    qed
  next
    case (RegDel k)
    have "Collect (has s) - {k} = Collect (has (del k s))"
      by (auto simp: del_has split: if_splits)
    with RegDel Cons show ?thesis by (auto split: prod.splits)
  next
    case (RegHas k)
    with Cons show ?thesis by (auto split: prod.splits)
  qed
qed simp

end

text \<open>Errors of \<open>arhat.dev/pkg/wellknownerrors\<close>, a package outside the repository.\<close>

record wellknownerrors =
  ErrAlreadyExists :: error
  ErrNotFound :: error

end
