(* ===== verification/Proto.thy ===== *)
theory Proto
  imports Prelude
begin

text \<open>
  The wire structures of \<open>arhat-proto\<close> as the repository uses them, and
  \<open>src/protoutil\<close>. The package \<open>arhatgopb\<close> is generated elsewhere: its enum
  constants are the fields of the record \<open>arhatgopb\<close>, an argument of every
  definition that mentions one, and \<open>arhatgopb_distinct\<close> is what protobuf
  guarantees of them (no two names of an enum share a number).
\<close>

record arhatgopb =
  CODEC_JSON :: int32
  CODEC_PROTOBUF :: int32
  CMD_PING :: int32
  CMD_DATA_INPUT :: int32
  CMD_DATA_CLOSE :: int32
  CMD_RUNTIME_ARANYA_PROTO :: int32
  CMD_PERIPHERAL_CLOSE :: int32
  CMD_PERIPHERAL_CONNECT :: int32
  CMD_PERIPHERAL_OPERATE :: int32
  CMD_PERIPHERAL_COLLECT_METRICS :: int32
  MSG_PONG :: int32
  MSG_REGISTER :: int32
  MSG_DONE :: int32
  MSG_ERROR :: int32
  MSG_DATA_OUTPUT :: int32
  MSG_RUNTIME_DATA_STDERR :: int32
  MSG_RUNTIME_ARANYA_PROTO :: int32
  MSG_PERIPHERAL_OPERATION_RESULT :: int32
  MSG_PERIPHERAL_METRICS :: int32

definition codec_kinds :: "arhatgopb \<Rightarrow> int32 list" where
  "codec_kinds pb = [CODEC_JSON pb, CODEC_PROTOBUF pb]"

definition cmd_kinds :: "arhatgopb \<Rightarrow> int32 list" where
  "cmd_kinds pb =
     [CMD_PING pb, CMD_DATA_INPUT pb, CMD_DATA_CLOSE pb, CMD_RUNTIME_ARANYA_PROTO pb,
      CMD_PERIPHERAL_CLOSE pb, CMD_PERIPHERAL_CONNECT pb, CMD_PERIPHERAL_OPERATE pb,
      CMD_PERIPHERAL_COLLECT_METRICS pb]"

definition msg_kinds :: "arhatgopb \<Rightarrow> int32 list" where
  "msg_kinds pb =
     [MSG_PONG pb, MSG_REGISTER pb, MSG_DONE pb, MSG_ERROR pb, MSG_DATA_OUTPUT pb,
      MSG_RUNTIME_DATA_STDERR pb, MSG_RUNTIME_ARANYA_PROTO pb,
      MSG_PERIPHERAL_OPERATION_RESULT pb, MSG_PERIPHERAL_METRICS pb]"

definition arhatgopb_distinct :: "arhatgopb \<Rightarrow> bool" where
  "arhatgopb_distinct pb \<longleftrightarrow>
     distinct (codec_kinds pb) \<and> distinct (cmd_kinds pb) \<and> distinct (msg_kinds pb)"

text \<open>A numbering that satisfies it, for witnesses.\<close>

definition pb_example :: arhatgopb where
  "pb_example =
     \<lparr>CODEC_JSON = 1, CODEC_PROTOBUF = 2,
      CMD_PING = 1, CMD_DATA_INPUT = 2, CMD_DATA_CLOSE = 3, CMD_RUNTIME_ARANYA_PROTO = 4,
      CMD_PERIPHERAL_CLOSE = 5, CMD_PERIPHERAL_CONNECT = 6, CMD_PERIPHERAL_OPERATE = 7,
      CMD_PERIPHERAL_COLLECT_METRICS = 8,
      MSG_PONG = 1, MSG_REGISTER = 2, MSG_DONE = 3, MSG_ERROR = 4, MSG_DATA_OUTPUT = 5,
      MSG_RUNTIME_DATA_STDERR = 6, MSG_RUNTIME_ARANYA_PROTO = 7,
      MSG_PERIPHERAL_OPERATION_RESULT = 8, MSG_PERIPHERAL_METRICS = 9\<rparr>"

text \<open>
  A byte slice that the code may compare with \<open>nil\<close>: \<open>None\<close> is \<open>nil\<close>,
  whose length is 0 as that of the empty slice.
\<close>

type_synonym slice = "bytes option"

definition slice_bytes :: "slice \<Rightarrow> bytes" where
  "slice_bytes s = (case s of None \<Rightarrow> [] | Some b \<Rightarrow> b)"

lemma slice_bytes_simps [simp]:
  "slice_bytes None = []" "slice_bytes (Some b) = b"
  by (simp_all add: slice_bytes_def)

record Cmd =
  cmd_Kind :: int32
  cmd_Id :: u64
  cmd_Seq :: u64
  cmd_Payload :: slice

record Msg =
  msg_Kind :: int32
  msg_Id :: u64
  msg_Ack :: u64
  msg_Payload :: slice

text \<open>
  The bodies the repository marshals. A peripheral metric value is built by the
  peripheral implementation, so its type is a parameter.
\<close>

datatype 'v body =
    RegisterMsg (reg_Name: string) (reg_ExtensionType: int32) (reg_Codec: int32)
  | ErrorMsg string
  | DoneMsg
  | PeripheralOperationResultMsg "bytes list"
  | PeripheralMetricsMsg "'v list"

text \<open>\<open>NewCmd\<close> and \<open>NewMsg\<close>: marshal the body, or return its error.\<close>

definition NewCmd :: "('b \<Rightarrow> error + bytes) \<Rightarrow> int32 \<Rightarrow> u64 \<Rightarrow> u64 \<Rightarrow> 'b \<Rightarrow> error + Cmd" where
  "NewCmd marshal kind ident sq body =
     (case marshal body of
        Inl e \<Rightarrow> Inl e
      | Inr payload \<Rightarrow>
          Inr \<lparr>cmd_Kind = kind, cmd_Id = ident, cmd_Seq = sq, cmd_Payload = Some payload\<rparr>)"

definition NewMsg :: "('b \<Rightarrow> error + bytes) \<Rightarrow> int32 \<Rightarrow> u64 \<Rightarrow> u64 \<Rightarrow> 'b \<Rightarrow> error + Msg" where
  "NewMsg marshal kind ident ack body =
     (case marshal body of
        Inl e \<Rightarrow> Inl e
      | Inr payload \<Rightarrow>
          Inr \<lparr>msg_Kind = kind, msg_Id = ident, msg_Ack = ack, msg_Payload = Some payload\<rparr>)"

lemma NewMsg_Inr_iff:
  "NewMsg marshal kind ident ack body = Inr m \<longleftrightarrow>
     (\<exists>p. marshal body = Inr p \<and>
          m = \<lparr>msg_Kind = kind, msg_Id = ident, msg_Ack = ack, msg_Payload = Some p\<rparr>)"
  by (auto simp: NewMsg_def split: sum.splits)

lemma NewMsg_Inl_iff:
  "NewMsg marshal kind ident ack body = Inl e \<longleftrightarrow> marshal body = Inl e"
  by (auto simp: NewMsg_def split: sum.splits)

lemma pb_example_distinct: "arhatgopb_distinct pb_example"
  by (simp add: arhatgopb_distinct_def codec_kinds_def cmd_kinds_def msg_kinds_def pb_example_def)

end
