(* ===== verification/Codec.thy ===== *)
theory Codec
  imports Proto
begin

text \<open>
  \<open>src/codec\<close>: the registry of codecs (\<open>reg.go\<close>), the pool of byte buffers
  (\<open>bytes_buf.go\<close>), the length-prefixed protobuf stream codec
  (\<open>gogoprotobuf/codec.go\<close>) with the varints of \<open>encoding/binary\<close> it uses.
  The generated protobuf code is the record \<open>gogo\<close>, an argument of the codec's
  operations.
\<close>

section \<open>Registry\<close>

definition Register :: "int32 \<Rightarrow> 'c \<Rightarrow> (int32 \<rightharpoonup> 'c) \<Rightarrow> (int32 \<rightharpoonup> 'c)" where
  "Register kind c supportedCodec = supportedCodec(kind \<mapsto> c)"

definition Get :: "int32 \<Rightarrow> (int32 \<rightharpoonup> 'c) \<Rightarrow> 'c option" where
  "Get kind supportedCodec =
     (case supportedCodec kind of None \<Rightarrow> None | Some codec \<Rightarrow> Some codec)"

section \<open>Byte buffers\<close>

text \<open>
  \<open>sync.Pool\<close>: \<open>Get\<close> removes some pooled buffer or makes a new one, and which is
  up to the runtime. The choice is the argument \<open>pick\<close>: the index of a pooled
  buffer, or anything else for \<open>New\<close>. \<open>maxAlloc\<close> is the length of the largest
  slice that \<open>make\<close> and \<open>append\<close> accept on a 64-bit platform with 48-bit addresses
  (the capacity that \<open>append\<close> reserves beyond the length is not counted).
\<close>

type_synonym pool = "bytes list"

definition maxAlloc :: int where
  "maxAlloc = 2 ^ 48"

definition new_buf :: bytes where
  "new_buf = replicate 32 0"

definition pool_get :: "nat option \<Rightarrow> pool \<Rightarrow> bytes \<times> pool" where
  "pool_get pick p =
     (case pick of
        None \<Rightarrow> (new_buf, p)
      | Some i \<Rightarrow> if i < length p then (p ! i, take i p @ drop (Suc i) p) else (new_buf, p))"

definition grow_buf :: "bytes \<Rightarrow> int \<Rightarrow> bytes outcome" where
  "grow_buf buf sz =
     (if sz \<le> int (length buf) then Ret buf
      else let extend = sz - int (length buf) in
        if extend < sz then
          if maxAlloc < sz then Panic ''growslice: cap out of range''
          else Ret (buf @ replicate (nat extend) 0)
        else
          if maxAlloc < extend then Panic ''makeslice: len out of range''
          else Ret (replicate (nat extend) 0 @ buf))"

definition GetBytesBuf :: "nat option \<Rightarrow> pool \<Rightarrow> int \<Rightarrow> (bytes \<times> pool) outcome" where
  "GetBytesBuf pick p sz =
     (case pool_get pick p of (buf, p') \<Rightarrow>
        bind_outcome (grow_buf buf sz) (\<lambda>b. Ret (b, p')))"

definition PutBytesBuf :: "bytes \<Rightarrow> pool \<Rightarrow> pool" where
  "PutBytesBuf b p = b # p"

lemma grow_buf_length:
  "grow_buf buf sz = Ret b \<Longrightarrow> int (length b) = max (int (length buf)) sz"
  by (auto simp: grow_buf_def Let_def split: if_splits)

lemma grow_buf_small:
  "sz \<le> maxAlloc \<Longrightarrow> \<exists>b. grow_buf buf sz = Ret b"
  by (auto simp: grow_buf_def Let_def)

lemma grow_buf_huge:
  "maxAlloc < sz \<Longrightarrow> int (length buf) \<le> maxAlloc \<Longrightarrow> \<exists>why. grow_buf buf sz = Panic why"
  by (auto simp: grow_buf_def Let_def)

lemma GetBytesBuf_length:
  "GetBytesBuf pick p sz = Ret (b, p') \<Longrightarrow> sz \<le> int (length b)"
  by (auto simp: GetBytesBuf_def bind_outcome_Ret_iff dest: grow_buf_length split: prod.splits)

lemma GetBytesBuf_small:
  assumes "sz \<le> maxAlloc"
  obtains b p' where "GetBytesBuf pick p sz = Ret (b, p')"
proof -
  obtain buf p' where g: "pool_get pick p = (buf, p')" by fastforce
  obtain b where "grow_buf buf sz = Ret b" using grow_buf_small [OF assms] by blast
  with g have "GetBytesBuf pick p sz = Ret (b, p')" by (simp add: GetBytesBuf_def)
  then show ?thesis by (rule that)
qed

section \<open>Varints\<close>

text \<open>The bytes \<open>binary.PutUvarint\<close> writes: seven bits a byte, low bits first.\<close>

function uvarint :: "u64 \<Rightarrow> bytes" where
  "uvarint x = (if 0x80 \<le> x then (ucast x OR 0x80) # uvarint (drop_bit 7 x) else [ucast x])"
  by pat_completeness auto
termination
proof (relation "measure unat")
  fix x :: u64
  assume "0x80 \<le> x"
  then have "128 \<le> unat x" by (simp add: word_le_nat_alt)
  then have "unat x div 128 < unat x" by simp
  then show "(drop_bit 7 x, x) \<in> measure unat"
    by (simp add: drop_bit_eq_div unat_div)
qed simp

declare uvarint.simps [simp del]

text \<open>
  \<open>PutUvarint\<close> writes them over the front of a buffer and panics when the buffer
  is too short; it returns the buffer and the number of bytes written.
\<close>

definition PutUvarint :: "bytes \<Rightarrow> u64 \<Rightarrow> (bytes \<times> nat) outcome" where
  "PutUvarint buf x =
     (let enc = uvarint x in
      if length buf < length enc then Panic ''index out of range''
      else Ret (enc @ drop (length enc) buf, length enc))"

text \<open>
  An \<open>io.Reader\<close> behind a \<open>bufio.Reader\<close>: the bytes it will deliver and the
  error it returns once they are used up.
\<close>

record reader =
  rd_data :: bytes
  rd_err :: error

definition ReadByte :: "reader \<Rightarrow> (error + byte) \<times> reader" where
  "ReadByte r = (case rd_data r of [] \<Rightarrow> (Inl (rd_err r), r)
                 | b # bs \<Rightarrow> (Inr b, r\<lparr>rd_data := bs\<rparr>))"

text \<open>
  \<open>binary.ReadUvarint\<close> (Go 1.15): at most ten bytes, the tenth at most 1; the first
  argument counts the iterations left. A read error is returned as it is.
\<close>

fun ReadUvarint_loop :: "nat \<Rightarrow> u64 \<Rightarrow> nat \<Rightarrow> reader \<Rightarrow> (error + u64) \<times> reader" where
  "ReadUvarint_loop 0 x s r = (Inl ErrVarintOverflow, r)"
| "ReadUvarint_loop (Suc k) x s r =
     (case ReadByte r of
        (Inl e, r') \<Rightarrow> (Inl e, r')
      | (Inr b, r') \<Rightarrow>
          if b < 0x80 then
            if k = 0 \<and> 1 < b then (Inl ErrVarintOverflow, r')
            else (Inr (x OR push_bit s (ucast b)), r')
          else ReadUvarint_loop k (x OR push_bit s (ucast (b AND 0x7f))) (s + 7) r')"

definition ReadUvarint :: "reader \<Rightarrow> (error + u64) \<times> reader" where
  "ReadUvarint r = ReadUvarint_loop 10 0 0 r"

text \<open>\<open>io.ReadFull\<close> into a slice of length \<open>n\<close>: the bytes read, and the error.\<close>

definition ReadFull :: "nat \<Rightarrow> reader \<Rightarrow> bytes \<times> error option \<times> reader" where
  "ReadFull n r =
     (let got = take n (rd_data r); r' = r\<lparr>rd_data := drop n (rd_data r)\<rparr> in
      (got,
       if length got = n then None
       else if got \<noteq> [] \<and> rd_err r = EOF then Some ErrUnexpectedEOF else Some (rd_err r),
       r'))"

subsection \<open>Reading back a written varint\<close>

lemma mask7: "(0x7f :: 'a::len word) = mask 7"
  by (simp add: mask_eq_decr_exp)

lemma ucast_low: "y < 0x80 \<Longrightarrow> ucast (ucast (y::u64) :: byte) = y"
proof -
  assume "y < 0x80"
  then have "unat y < 128" by (simp add: word_less_nat_alt)
  then show ?thesis by (simp add: word_unat_eq_iff unsigned_ucast_eq take_bit_eq_mod unat_mod)
qed

lemma ucast_low_less: "y < 0x80 \<Longrightarrow> (ucast (y::u64) :: byte) < 0x80"
proof -
  assume "y < 0x80"
  then have "unat y < 128" by (simp add: word_less_nat_alt)
  then show ?thesis by (simp add: word_less_nat_alt unsigned_ucast_eq take_bit_eq_mod)
qed

lemma cont_byte_ge: "\<not> (b OR 0x80 < (0x80 :: byte))"
  using le_word_or1 [of "0x80::byte" b] by (simp add: not_less)

lemma cont_byte_low: "ucast ((ucast (y::u64) OR 0x80 :: byte) AND 0x7f) = (y AND 0x7f)"
proof -
  have "(0x80::byte) AND 0x7f = 0" by simp
  then have "(ucast y OR 0x80 :: byte) AND 0x7f = ucast y AND 0x7f"
    by (simp add: bit.conj_disj_distrib2)
  then show ?thesis by (simp only: mask7) (rule bit_eqI, auto simp: bit_simps)
qed

lemma join_low_high: "push_bit s (y AND 0x7f) OR push_bit (s + 7) (drop_bit 7 y) = push_bit s (y::u64)"
proof (unfold mask7, rule bit_eqI)
  fix n
  show "bit (push_bit s (y AND mask 7) OR push_bit (s + 7) (drop_bit 7 y)) n = bit (push_bit s y) n"
    by (cases "n - s < 7") (auto simp: bit_simps dest: add_diff_inverse_nat)
qed

lemma uvarint_small: "y < 0x80 \<Longrightarrow> uvarint y = [ucast y]"
  by (subst uvarint.simps) (simp only: not_le [symmetric] if_False)

lemma uvarint_big: "\<not> y < 0x80 \<Longrightarrow> uvarint y = (ucast y OR 0x80) # uvarint (drop_bit 7 y)"
  by (subst uvarint.simps) (simp add: not_less)

lemma ReadUvarint_loop_uvarint:
  assumes "unat y < 2 ^ (64 - s)" "s + 7 * k = 70" "0 < k"
  shows "ReadUvarint_loop k x s (r\<lparr>rd_data := uvarint y @ rest\<rparr>)
           = (Inr (x OR push_bit s y), r\<lparr>rd_data := rest\<rparr>)"
  using assms
proof (induction k arbitrary: x y s)
  case (Suc k)
  show ?case
  proof (cases "y < 0x80")
    case True
    have "\<not> 1 < (ucast y :: byte)" if "k = 0"
    proof -
      from that Suc.prems(2) have "s = 63" by simp
      with Suc.prems(1) have "unat y < 2" by simp
      then show ?thesis by (simp add: word_less_nat_alt unsigned_ucast_eq take_bit_eq_mod)
    qed
    with True show ?thesis
      by (auto simp: uvarint_small ReadByte_def ucast_low ucast_low_less)
  next
    case False
    then have "128 \<le> unat y" by (simp add: word_less_nat_alt)
    have "k \<noteq> 0"
    proof
      assume "k = 0"
      with Suc.prems(1,2) have "unat y < 2" by simp
      with \<open>128 \<le> unat y\<close> show False by simp
    qed
    then have s: "64 - s = 7 + (64 - (s + 7))" using Suc.prems(2) by simp
    have "unat (drop_bit 7 y) < 2 ^ (64 - (s + 7))"
      using Suc.prems(1) unfolding s power_add
      by (simp add: drop_bit_eq_div unat_div less_mult_imp_div_less mult.commute)
    moreover have "s + 7 + 7 * k = 70" using Suc.prems(2) by simp
    ultimately have "ReadUvarint_loop k x' (s + 7) (r\<lparr>rd_data := uvarint (drop_bit 7 y) @ rest\<rparr>)
           = (Inr (x' OR push_bit (s + 7) (drop_bit 7 y)), r\<lparr>rd_data := rest\<rparr>)" for x'
      using \<open>k \<noteq> 0\<close> Suc.IH by simp
    with False show ?thesis
      by (simp add: uvarint_big ReadByte_def cont_byte_ge cont_byte_low or.assoc join_low_high
          del: push_bit_and)
  qed
qed simp

lemma ReadUvarint_uvarint:
  "ReadUvarint (r\<lparr>rd_data := uvarint y @ rest\<rparr>) = (Inr y, r\<lparr>rd_data := rest\<rparr>)"
  using ReadUvarint_loop_uvarint [where y = y and s = 0 and k = 10 and x = 0] unat_lt64
  by (simp add: ReadUvarint_def)

lemma uvarint_length: "length (uvarint y) \<le> 10"
proof -
  have "unat y < 2 ^ (7 * k) \<Longrightarrow> 0 < k \<Longrightarrow> length (uvarint y) \<le> k" for k
  proof (induction k arbitrary: y)
    case (Suc k)
    show ?case
    proof (cases "y < 0x80")
      case True then show ?thesis by (simp add: uvarint_small)
    next
      case False
      then have "128 \<le> unat y" by (simp add: word_less_nat_alt)
      then have "0 < k" using Suc.prems(1) by (cases k) auto
      have "unat y < 128 * 2 ^ (7 * k)" using Suc.prems(1) by (simp add: power_add)
      then have "unat (drop_bit 7 y) < 2 ^ (7 * k)"
        by (simp add: drop_bit_eq_div unat_div less_mult_imp_div_less mult.commute)
      with False \<open>0 < k\<close> Suc.IH show ?thesis by (simp add: uvarint_big)
    qed
  qed simp
  from this [of 10] unat_lt64 [of y] show ?thesis by simp
qed

text \<open>A varint cut short: every byte so far says that more follow, so the reader's error is returned.\<close>

lemma ReadUvarint_loop_cut:
  "strict_prefix bs (uvarint y) \<Longrightarrow> length bs < k \<Longrightarrow>
     ReadUvarint_loop k x s (r\<lparr>rd_data := bs\<rparr>) = (Inl (rd_err r), r\<lparr>rd_data := []\<rparr>)"
proof (induction bs arbitrary: k x y s)
  case Nil
  then show ?case by (cases k) (simp_all add: ReadByte_def)
next
  case (Cons b bs)
  then obtain k' where k: "k = Suc k'" "length bs < k'" by (cases k) auto
  have "\<not> y < 0x80" using Cons.prems(1) by (auto simp: uvarint_small strict_prefix_def prefix_Cons)
  with Cons.prems(1) have "b = ucast y OR 0x80" "strict_prefix bs (uvarint (drop_bit 7 y))" by (auto simp: uvarint_big)
  with Cons.IH k show ?case by (simp add: ReadByte_def cont_byte_ge)
qed

lemma ReadUvarint_cut:
  assumes "strict_prefix bs (uvarint y)"
  shows "ReadUvarint (r\<lparr>rd_data := bs\<rparr>) = (Inl (rd_err r), r\<lparr>rd_data := []\<rparr>)"
proof -
  have "length bs < 10" using prefix_length_less [OF assms] uvarint_length [of y] by simp
  with assms show ?thesis unfolding ReadUvarint_def by (rule ReadUvarint_loop_cut)
qed

section \<open>The protobuf stream codec\<close>

text \<open>
  The generated messages and the gogo runtime: whether a Go value implements
  \<open>proto.Message\<close> and \<open>proto.Marshaler\<close>, its own \<open>Marshal\<close> method,
  \<open>proto.Marshal\<close>, and \<open>Buffer.Unmarshal\<close>, which fills an existing value.
\<close>

record 'v gogo =
  is_Message :: "'v \<Rightarrow> bool"
  is_Marshaler :: "'v \<Rightarrow> bool"
  Marshaler_Marshal :: "'v \<Rightarrow> error + bytes"
  proto_Marshal :: "'v \<Rightarrow> error + bytes"
  Buffer_Unmarshal :: "bytes \<Rightarrow> 'v \<Rightarrow> 'v \<times> error option"

definition Codec_Unmarshal :: "'v gogo \<Rightarrow> bytes \<Rightarrow> 'v \<Rightarrow> 'v \<times> error option" where
  "Codec_Unmarshal g data out =
     (if \<not> is_Message g out then (out, Some ErrNotProtobufMessage)
      else Buffer_Unmarshal g data out)"

definition Codec_Marshal :: "'v gogo \<Rightarrow> 'v \<Rightarrow> error + bytes" where
  "Codec_Marshal g v =
     (if \<not> is_Message g v then Inl ErrNotProtobufMessage else proto_Marshal g v)"

text \<open>The type switch of \<open>Encode\<close>.\<close>

definition encode_data :: "'v gogo \<Rightarrow> 'v \<Rightarrow> error + bytes" where
  "encode_data g any =
     (if is_Marshaler g any then
        (case Marshaler_Marshal g any of
           Inl e \<Rightarrow> Inl (Wrap ''failed to marshal message'' e) | Inr d \<Rightarrow> Inr d)
      else if is_Message g any then
        (case proto_Marshal g any of
           Inl e \<Rightarrow> Inl (Wrap ''failed to marshal message'' e) | Inr d \<Rightarrow> Inr d)
      else Inl ErrNotProtobufMessage)"

text \<open>
  \<open>Encoder.Encode\<close> over a writer: \<open>wr\<close> is its \<open>Write\<close> method. The size and
  the body are two writes, each of which may fail.
\<close>

definition Encode ::
  "'v gogo \<Rightarrow> ('w \<Rightarrow> bytes \<Rightarrow> 'w \<times> error option) \<Rightarrow> nat option \<Rightarrow> pool \<Rightarrow> 'w \<Rightarrow> 'v
     \<Rightarrow> (error option \<times> pool \<times> 'w) outcome" where
  "Encode g wr pick p w any =
     (case encode_data g any of
        Inl e \<Rightarrow> Ret (Some e, p, w)
      | Inr data \<Rightarrow>
          bind_outcome (GetBytesBuf pick p 10) (\<lambda>(sizeBuf, p').
          bind_outcome (PutUvarint sizeBuf (of_nat (length data))) (\<lambda>(sizeBuf', i).
            let p'' = PutBytesBuf sizeBuf' p' in
            case wr w (take i sizeBuf') of
              (w', Some e) \<Rightarrow> Ret (Some (Wrap ''failed to write message size'' e), p'', w')
            | (w', None) \<Rightarrow>
                (case wr w' data of
                   (w'', Some e) \<Rightarrow> Ret (Some (Wrap ''failed to write message body'' e), p'', w'')
                 | (w'', None) \<Rightarrow> Ret (None, p'', w'')))))"

text \<open>
  \<open>Decoder.Decode\<close>: returns the error, the pool, the reader and the value of
  \<open>out\<close>. \<open>int(size)\<close> is the two's complement reading; \<open>data[:size]\<close> panics
  when the size exceeds the buffer.
\<close>

definition Decode ::
  "'v gogo \<Rightarrow> nat option \<Rightarrow> pool \<Rightarrow> reader \<Rightarrow> 'v
     \<Rightarrow> (error option \<times> pool \<times> reader \<times> 'v) outcome" where
  "Decode g pick p r out =
     (if \<not> is_Message g out then Ret (Some ErrNotProtobufMessage, p, r, out)
      else case ReadUvarint r of
        (Inl e, r') \<Rightarrow>
          Ret (Some (if e = EOF then e else Wrap ''failed to read size of the message'' e),
               p, r', out)
      | (Inr sz, r') \<Rightarrow>
          bind_outcome (GetBytesBuf pick p (sint sz)) (\<lambda>(data, p').
            if length data < unat sz then Panic ''slice bounds out of range''
            else case ReadFull (unat sz) r' of (got, e, r'') \<Rightarrow>
              let data' = got @ drop (length got) data in
              case e of
                Some e \<Rightarrow> Ret (Some (Wrap ''failed to read message body'' e),
                               PutBytesBuf data' p', r'', out)
              | None \<Rightarrow>
                  (case Buffer_Unmarshal g (take (unat sz) data') out of (out', e') \<Rightarrow>
                     Ret (e', PutBytesBuf data' p', r'', out'))))"


section \<open>Framing lemmas\<close>

text \<open>What one message looks like on the wire.\<close>

definition frame :: "bytes \<Rightarrow> bytes" where
  "frame data = uvarint (of_nat (length data)) @ data"

lemma PutUvarint_Ret:
  "10 \<le> length buf \<Longrightarrow>
     \<exists>buf'. PutUvarint buf x = Ret (buf', length (uvarint x)) \<and>
            take (length (uvarint x)) buf' = uvarint x"
  using uvarint_length [of x] by (auto simp: PutUvarint_def Let_def)

lemma GetBytesBuf_10:
  obtains sizeBuf p' where "GetBytesBuf pick p 10 = Ret (sizeBuf, p')" and "10 \<le> length sizeBuf"
proof -
  obtain b p' where g: "GetBytesBuf pick p 10 = Ret (b, p')"
    by (rule GetBytesBuf_small [of 10 pick p]) (simp_all add: maxAlloc_def)
  from GetBytesBuf_length [OF g] have "10 \<le> length b" by simp
  with g show ?thesis by (rule that)
qed

text \<open>
  \<open>Encode\<close> never panics, and on every branch it does exactly this: a value that
  is no message, or fails to marshal, writes nothing; otherwise the varint of the
  length is written and then the body, and the first failing write is reported with its
  own prefix.
\<close>

lemma Encode_eq:
  "\<exists>p''. Encode g wr pick p w any =
     (case encode_data g any of
        Inl e \<Rightarrow> Ret (Some e, p, w)
      | Inr data \<Rightarrow>
          (case wr w (uvarint (of_nat (length data))) of
             (w', Some e) \<Rightarrow> Ret (Some (Wrap ''failed to write message size'' e), p'', w')
           | (w', None) \<Rightarrow>
               (case wr w' data of
                  (w'', Some e) \<Rightarrow> Ret (Some (Wrap ''failed to write message body'' e), p'', w'')
                | (w'', None) \<Rightarrow> Ret (None, p'', w''))))"
proof (cases "encode_data g any")
  case (Inr data)
  obtain sizeBuf p' where g: "GetBytesBuf pick p 10 = Ret (sizeBuf, p')" and "10 \<le> length sizeBuf"
    by (rule GetBytesBuf_10)
  then obtain buf' where "PutUvarint sizeBuf (of_nat (length data)) =
      Ret (buf', length (uvarint (of_nat (length data))))"
    and "take (length (uvarint (of_nat (length data)))) buf' = uvarint (of_nat (length data))"
    using PutUvarint_Ret by blast
  with g Inr show ?thesis
    by (intro exI [of _ "PutBytesBuf buf' p'"]) (simp add: Encode_def Let_def)
qed (simp add: Encode_def)

text \<open>Writing to a \<open>bytes.Buffer\<close>, which never fails.\<close>

definition buf_write :: "bytes \<Rightarrow> bytes \<Rightarrow> bytes \<times> error option" where
  "buf_write w b = (w @ b, None)"

lemma Encode_buf_write:
  "encode_data g m = Inr data \<Longrightarrow>
     \<exists>p'. Encode g buf_write pick p w m = Ret (None, p', w @ frame data)"
  using Encode_eq [of g buf_write pick p w m] by (auto simp: buf_write_def frame_def)

lemma unat_of_nat_small: "int n \<le> maxAlloc \<Longrightarrow> unat (of_nat n :: u64) = n"
  by (simp add: maxAlloc_def unat_of_nat)

lemma sint_of_nat_small: "int n \<le> maxAlloc \<Longrightarrow> sint (of_nat n :: u64) = int n"
  using sint_small64 [of "of_nat n"] unat_of_nat_small [of n] int_unat [of "of_nat n :: u64"]
  by (simp add: maxAlloc_def)

lemma Decode_frame:
  assumes msg: "is_Message g out" and fits: "int (length data) \<le> maxAlloc"
  shows "\<exists>p'. Decode g pick p (r\<lparr>rd_data := frame data @ rest\<rparr>) out =
    (case Buffer_Unmarshal g data out of (out', e) \<Rightarrow> Ret (e, p', r\<lparr>rd_data := rest\<rparr>, out'))"
proof -
  let ?n = "of_nat (length data) :: u64"
  obtain buf p' where g: "GetBytesBuf pick p (int (length data)) = Ret (buf, p')"
    using GetBytesBuf_small [OF fits] by blast
  then have "length data \<le> length buf" using GetBytesBuf_length by fastforce
  with g msg show ?thesis
    by (intro exI [of _ "PutBytesBuf (data @ drop (length data) buf) p'"])
      (simp add: Decode_def frame_def ReadUvarint_uvarint sint_of_nat_small [OF fits]
        unat_of_nat_small [OF fits] ReadFull_def Let_def split: prod.splits)
qed

text \<open>
  Sizes the platform can allocate never panic: \<open>Decode\<close> returns, and when the
  connection ends inside the body it reports the truncation, leaves \<open>out\<close>
  unmodified and has used up the input.
\<close>

lemma Decode_truncated_body:
  assumes "is_Message g out"
    and "uint n \<le> maxAlloc"
    and "length body < unat n"
  shows "\<exists>p'. Decode g pick p (r\<lparr>rd_data := uvarint n @ body\<rparr>) out =
     Ret (Some (Wrap ''failed to read message body'' (if body \<noteq> [] \<and> rd_err r = EOF then ErrUnexpectedEOF else rd_err r)),
          p', r\<lparr>rd_data := []\<rparr>, out)"
proof -
  have "sint n = uint n"
    using assms(2) sint_small64 by (simp add: maxAlloc_def)
  moreover obtain buf p' where g: "GetBytesBuf pick p (uint n) = Ret (buf, p')"
    using GetBytesBuf_small [OF assms(2)] by blast
  moreover have "unat n \<le> length buf" using GetBytesBuf_length [OF g]
    by (simp only: int_unat [symmetric] of_nat_le_iff)
  ultimately show ?thesis using assms(1,3)
    by (intro exI [of _ "PutBytesBuf (body @ drop (length body) buf) p'"])
      (simp add: Decode_def ReadUvarint_uvarint ReadFull_def Let_def)
qed

text \<open>
  A frame of which the connection delivered only a part before its own error \<open>err\<close>:
  inside the size \<open>io.EOF\<close> is passed on as it is, after it the error is that of
  \<open>io.ReadFull\<close>, wrapped.
\<close>

definition frame_cut_err :: "bytes \<Rightarrow> bytes \<Rightarrow> error \<Rightarrow> error" where
  "frame_cut_err data part err =
     (let size = length (uvarint (of_nat (length data))) in
      if length part < size then if err = EOF then EOF else Wrap ''failed to read size of the message'' err
      else Wrap ''failed to read message body'' (if length part \<noteq> size \<and> err = EOF then ErrUnexpectedEOF else err))"

lemma Decode_cut:
  assumes msg: "is_Message g out" and fits: "int (length data) \<le> maxAlloc"
    and cut: "strict_prefix part (frame data)"
  shows "\<exists>p'. Decode g pick p (r\<lparr>rd_data := part\<rparr>) out =
     Ret (Some (frame_cut_err data part (rd_err r)), p', r\<lparr>rd_data := []\<rparr>, out)"
proof -
  let ?n = "of_nat (length data) :: u64"
  consider (size) "strict_prefix part (uvarint ?n)"
    | (body) body where "part = uvarint ?n @ body" "strict_prefix body data"
    using cut unfolding frame_def strict_prefix_def prefix_append by (metis append_Nil2 Nil_prefix)
  then show ?thesis
  proof cases
    case size
    with ReadUvarint_cut [OF size, of r] prefix_length_less [OF size] msg show ?thesis
      by (simp add: Decode_def frame_cut_err_def)
  next
    case body
    have "uint ?n \<le> maxAlloc" using fits unat_of_nat_small [OF fits] int_unat [of ?n] by simp
    moreover have "length body < unat ?n" using prefix_length_less [OF body(2)] unat_of_nat_small [OF fits] by simp
    ultimately show ?thesis
      using Decode_truncated_body [OF msg, of ?n body pick p r] body(1) by (auto simp: frame_cut_err_def)
  qed
qed

section \<open>Streams of messages\<close>

text \<open>
  Sending messages through one encoder (each with the runtime's choice of a pooled
  buffer), and the receive loop of the stream's other end: decode into a fresh value
  until an error. The list of pool choices bounds the number of iterations of the
  receive loop; no error means that it is still running.
\<close>

fun encode_all ::
  "(nat option \<Rightarrow> pool \<Rightarrow> 'w \<Rightarrow> 'v \<Rightarrow> (error option \<times> pool \<times> 'w) outcome)
     \<Rightarrow> pool \<Rightarrow> 'w \<Rightarrow> (nat option \<times> 'v) list \<Rightarrow> (error option \<times> pool \<times> 'w) outcome" where
  "encode_all enc p w [] = Ret (None, p, w)"
| "encode_all enc p w ((pick, m) # ms) =
     bind_outcome (enc pick p w m) (\<lambda>(e, p', w').
       case e of Some _ \<Rightarrow> Ret (e, p', w') | None \<Rightarrow> encode_all enc p' w' ms)"

fun decode_loop ::
  "(nat option \<Rightarrow> pool \<Rightarrow> reader \<Rightarrow> (error option \<times> pool \<times> reader \<times> 'v) outcome)
     \<Rightarrow> nat option list \<Rightarrow> pool \<Rightarrow> reader \<Rightarrow> ('v list \<times> error option) outcome" where
  "decode_loop dec [] p r = Ret ([], None)"
| "decode_loop dec (pick # picks) p r =
     bind_outcome (dec pick p r) (\<lambda>(e, p', r', v).
       case e of
         Some e \<Rightarrow> Ret ([], Some e)
       | None \<Rightarrow> bind_outcome (decode_loop dec picks p' r') (\<lambda>(vs, e). Ret (v # vs, e)))"

text \<open>
  The contract of a stream codec (\<open>codec.Encoder\<close> and \<open>codec.Decoder\<close>): a valid
  message is written as its frame, a frame is read back and leaves the rest of the
  input, and a drained reader is \<open>io.EOF\<close>. Its client is the stream of messages.
\<close>

locale stream_codec =
  fixes enc :: "nat option \<Rightarrow> pool \<Rightarrow> bytes \<Rightarrow> 'v \<Rightarrow> (error option \<times> pool \<times> bytes) outcome"
    and dec :: "nat option \<Rightarrow> pool \<Rightarrow> reader \<Rightarrow> (error option \<times> pool \<times> reader \<times> 'v) outcome"
    and frame_of :: "'v \<Rightarrow> bytes"
    and ready :: bool
    and valid :: "'v \<Rightarrow> bool"
  assumes enc_valid: "valid m \<Longrightarrow> \<exists>p'. enc pick p w m = Ret (None, p', w @ frame_of m)"
    and dec_valid: "ready \<Longrightarrow> valid m \<Longrightarrow>
      \<exists>p'. dec pick p (r\<lparr>rd_data := frame_of m @ rest\<rparr>) = Ret (None, p', r\<lparr>rd_data := rest\<rparr>, m)"
    and dec_eof: "ready \<Longrightarrow> rd_data r = [] \<Longrightarrow> rd_err r = EOF \<Longrightarrow>
      \<exists>p' r' v. dec pick p r = Ret (Some EOF, p', r', v)"
begin

lemma encode_all_valid:
  "list_all valid (map snd pms) \<Longrightarrow>
     \<exists>p'. encode_all enc p w pms = Ret (None, p', w @ concat (map frame_of (map snd pms)))"
proof (induction pms arbitrary: p w)
  case (Cons pm pms)
  obtain pick m where pm: "pm = (pick, m)" by fastforce
  with Cons.prems obtain p1 where "enc pick p w m = Ret (None, p1, w @ frame_of m)"
    using enc_valid by fastforce
  with Cons.IH [of p1 "w @ frame_of m"] Cons.prems pm show ?case by simp
qed simp

lemma decode_loop_valid:
  assumes ready and "rd_err r = EOF"
  shows "list_all valid ms \<Longrightarrow> length ms < length picks \<Longrightarrow>
     decode_loop dec picks p (r\<lparr>rd_data := concat (map frame_of ms)\<rparr>) = Ret (ms, Some EOF)"
proof (induction ms arbitrary: picks p)
  case Nil
  then obtain pick picks' where "picks = pick # picks'" by (cases picks) auto
  moreover obtain p' r' v where "dec pick p (r\<lparr>rd_data := []\<rparr>) = Ret (Some EOF, p', r', v)"
    using dec_eof [OF assms(1), of "r\<lparr>rd_data := []\<rparr>" pick p] assms(2) by auto
  ultimately show ?case by simp
next
  case (Cons m ms)
  then obtain pick picks' where ps: "picks = pick # picks'" "length ms < length picks'"
    by (cases picks) auto
  moreover obtain p1 where
    "dec pick p (r\<lparr>rd_data := frame_of m @ concat (map frame_of ms)\<rparr>)
       = Ret (None, p1, r\<lparr>rd_data := concat (map frame_of ms)\<rparr>, m)"
    using dec_valid [OF assms(1)] Cons.prems(1) by fastforce
  ultimately show ?case using Cons by simp
qed

end

text \<open>
  A framed codec also says what a frame cut short by the end of the connection is: an
  error that depends on the message and on the part of its frame that arrived.
\<close>

locale framed_codec = stream_codec +
  fixes cut_err :: "'a \<Rightarrow> bytes \<Rightarrow> error"
  assumes dec_cut: "ready \<Longrightarrow> valid m \<Longrightarrow> strict_prefix part (frame_of m) \<Longrightarrow> rd_err r = EOF \<Longrightarrow>
      \<exists>p' r' v. dec pick p (r\<lparr>rd_data := part\<rparr>) = Ret (Some (cut_err m part), p', r', v)"
begin

definition cut_end :: "'a list \<Rightarrow> nat \<Rightarrow> bytes \<Rightarrow> error \<Rightarrow> bool" where
  "cut_end ms k part e \<longleftrightarrow>
     (if k = length ms then part = [] \<and> e = EOF
      else k < length ms \<and> strict_prefix part (frame_of (ms ! k)) \<and> e = cut_err (ms ! k) part)"

lemma decode_loop_cut:
  assumes ready and "rd_err r = EOF"
  shows "list_all valid ms \<Longrightarrow> length ms < length picks \<Longrightarrow> prefix w (concat (map frame_of ms)) \<Longrightarrow>
     \<exists>k part e. w = concat (map frame_of (take k ms)) @ part \<and> cut_end ms k part e \<and>
       decode_loop dec picks p (r\<lparr>rd_data := w\<rparr>) = Ret (take k ms, Some e)"
proof (induction ms arbitrary: picks p w)
  case Nil
  with decode_loop_valid [OF assms, of "[]" picks p] show ?case by (simp add: cut_end_def)
next
  case (Cons m ms)
  then obtain pick picks' where ps: "picks = pick # picks'" "length ms < length picks'"
    by (cases picks) auto
  have valid: "valid m" "list_all valid ms" using Cons.prems(1) by auto
  show ?case
  proof (cases "strict_prefix w (frame_of m)")
    case True
    then obtain p' r' v where "dec pick p (r\<lparr>rd_data := w\<rparr>) = Ret (Some (cut_err m w), p', r', v)"
      using dec_cut [OF assms(1) valid(1)] assms(2) by blast
    with True ps(1) show ?thesis by (intro exI [of _ 0] exI [of _ w]) (simp add: cut_end_def)
  next
    case False
    with Cons.prems(3) obtain w' where w: "w = frame_of m @ w'" "prefix w' (concat (map frame_of ms))"
      by (auto simp: prefix_append strict_prefix_def)
    obtain p1 where "dec pick p (r\<lparr>rd_data := w\<rparr>) = Ret (None, p1, r\<lparr>rd_data := w'\<rparr>, m)"
      using dec_valid [OF assms(1) valid(1)] w(1) by metis
    moreover from Cons.IH [OF valid(2) ps(2) w(2), of p1] obtain k part e where
      "w' = concat (map frame_of (take k ms)) @ part" "cut_end ms k part e"
      "decode_loop dec picks' p1 (r\<lparr>rd_data := w'\<rparr>) = Ret (take k ms, Some e)" by blast
    ultimately show ?thesis using w(1) ps(1)
      by (intro exI [of _ "Suc k"] exI [of _ part] exI [of _ e]) (simp add: cut_end_def)
  qed
qed

end

text \<open>
  The protobuf codec meets the contract for the messages whose own marshalling round
  trips into a fresh value and whose size the platform can allocate.
\<close>

definition wire_ok :: "'v gogo \<Rightarrow> 'v \<Rightarrow> 'v \<Rightarrow> bool" where
  "wire_ok g fresh m \<longleftrightarrow>
     (case encode_data g m of
        Inl _ \<Rightarrow> False
      | Inr data \<Rightarrow> Buffer_Unmarshal g data fresh = (m, None) \<and> int (length data) \<le> maxAlloc)"

definition pb_frame :: "'v gogo \<Rightarrow> 'v \<Rightarrow> bytes" where
  "pb_frame g m = (case encode_data g m of Inl _ \<Rightarrow> [] | Inr data \<Rightarrow> frame data)"

interpretation pbc: stream_codec "Encode g buf_write" "\<lambda>pick p r. Decode g pick p r fresh"
  "pb_frame g" "is_Message g fresh" "wire_ok g fresh" for g fresh
proof
  fix m pick p w
  assume "wire_ok g fresh m"
  then show "\<exists>p'. Encode g buf_write pick p w m = Ret (None, p', w @ pb_frame g m)"
    by (auto simp: wire_ok_def pb_frame_def intro!: Encode_buf_write split: sum.splits)
next
  fix m pick p r rest
  assume "is_Message g fresh" "wire_ok g fresh m"
  then show "\<exists>p'. Decode g pick p (r\<lparr>rd_data := pb_frame g m @ rest\<rparr>) fresh
      = Ret (None, p', r\<lparr>rd_data := rest\<rparr>, m)"
    using Decode_frame [of g fresh] by (fastforce simp: wire_ok_def pb_frame_def split: sum.splits)
next
  fix r :: reader and pick p
  assume "is_Message g fresh" "rd_data r = []" "rd_err r = EOF"
  then show "\<exists>p' r' v. Decode g pick p r fresh = Ret (Some EOF, p', r', v)"
    by (simp add: Decode_def ReadUvarint_def ReadByte_def numeral_eq_Suc)
qed

definition pb_cut_err :: "'v gogo \<Rightarrow> 'v \<Rightarrow> bytes \<Rightarrow> error" where
  "pb_cut_err g m part = (case encode_data g m of Inl e \<Rightarrow> e | Inr data \<Rightarrow> frame_cut_err data part EOF)"

interpretation pbf: framed_codec "Encode g buf_write" "\<lambda>pick p r. Decode g pick p r fresh"
  "pb_frame g" "is_Message g fresh" "wire_ok g fresh" "pb_cut_err g" for g fresh
proof
  fix m part pick p and r :: reader
  assume "is_Message g fresh" "wire_ok g fresh m" "strict_prefix part (pb_frame g m)" "rd_err r = EOF"
  then show "\<exists>p' r' v. Decode g pick p (r\<lparr>rd_data := part\<rparr>) fresh = Ret (Some (pb_cut_err g m part), p', r', v)"
    using Decode_cut [of g fresh _ part pick p r] by (fastforce simp: wire_ok_def pb_frame_def pb_cut_err_def split: sum.splits)
qed

section \<open>Properties\<close>

text \<open>
  C1. Stream round trip of the protobuf codec: whatever buffers the pool hands out on
  either side, the bytes that \<open>Encode\<close> wrote for a list of messages are decoded by
  the receive loop into the same messages in the same order, and the loop then ends with
  \<open>io.EOF\<close>. The only assumption on the generated code is that each message's own
  marshalled form unmarshals into it.
\<close>

theorem pb_stream_roundtrip:
  assumes "is_Message g fresh"
    and "list_all (wire_ok g fresh) (map snd pms)"
    and "length pms < length picks"
  shows "\<exists>p' w. encode_all (Encode g buf_write) p [] pms = Ret (None, p', w) \<and>
           decode_loop (\<lambda>pick p r. Decode g pick p r fresh) picks q \<lparr>rd_data = w, rd_err = EOF\<rparr>
             = Ret (map snd pms, Some EOF)"
proof -
  obtain p' where "encode_all (Encode g buf_write) p [] pms
      = Ret (None, p', concat (map (pb_frame g) (map snd pms)))"
    using pbc.encode_all_valid [OF assms(2), of p "[]"] by auto
  moreover have "decode_loop (\<lambda>pick p r. Decode g pick p r fresh) picks q
      \<lparr>rd_data = concat (map (pb_frame g) (map snd pms)), rd_err = EOF\<rparr> = Ret (map snd pms, Some EOF)"
    using pbc.decode_loop_valid [OF assms(1) _ assms(2), of "\<lparr>rd_data = [], rd_err = EOF\<rparr>" picks q]
      assms(3) by simp
  ultimately show ?thesis by blast
qed

text \<open>A byte string that is its own message, as the parameters' instance in witnesses.\<close>

definition gogo_bytes :: "bytes gogo" where
  "gogo_bytes = \<lparr>is_Message = (\<lambda>_. True), is_Marshaler = (\<lambda>v. length v < 3),
     Marshaler_Marshal = Inr, proto_Marshal = Inr, Buffer_Unmarshal = (\<lambda>d _. (d, None))\<rparr>"

lemma gogo_bytes_wire_ok: "length m \<le> 1000 \<Longrightarrow> wire_ok gogo_bytes [] m"
  by (auto simp: wire_ok_def encode_data_def gogo_bytes_def maxAlloc_def)

theorem pb_stream_roundtrip_witness:
  "\<exists>p' w. encode_all (Encode gogo_bytes buf_write) [] [] [(None, [1, 2]), (Some 0, []), (None, [7, 8, 9])]
       = Ret (None, p', w) \<and>
     decode_loop (\<lambda>pick p r. Decode gogo_bytes pick p r []) [None, None, Some 1, None] []
       \<lparr>rd_data = w, rd_err = EOF\<rparr> = Ret ([[1, 2], [], [7, 8, 9]], Some EOF)"
  using pb_stream_roundtrip [of gogo_bytes "[]" "[(None, [1, 2]), (Some 0, []), (None, [7, 8, 9])]"
      "[None, None, Some 1, None]" "[]" "[]"]
  by (simp add: gogo_bytes_wire_ok) (simp add: gogo_bytes_def)

text \<open>
  C5. A connection that ends anywhere: when only the first \<open>n\<close> bytes of what
  \<open>Encode\<close> wrote for a list of messages arrive, the receive loop delivers exactly the
  messages that arrived whole, in order and unchanged, and ends with \<open>io.EOF\<close> when the
  cut is between two messages or inside the size prefix of the next one, and with the
  wrapped error of the body otherwise: \<open>io.EOF\<close> right after the size and
  \<open>io.ErrUnexpectedEOF\<close> further on. It never delivers part of a message and never panics.
\<close>

theorem pb_stream_cut:
  assumes "is_Message g fresh"
    and "list_all (wire_ok g fresh) (map snd pms)"
    and "length pms < length picks"
  shows "\<exists>p' w k part. encode_all (Encode g buf_write) p [] pms = Ret (None, p', w) \<and>
     take n w = concat (map (pb_frame g) (take k (map snd pms))) @ part \<and>
     (if k = length pms then part = []
      else k < length pms \<and> strict_prefix part (pb_frame g (snd (pms ! k)))) \<and>
     decode_loop (\<lambda>pick p r. Decode g pick p r fresh) picks q \<lparr>rd_data = take n w, rd_err = EOF\<rparr> =
       Ret (take k (map snd pms), Some (if k = length pms then EOF else pb_cut_err g (snd (pms ! k)) part))"
proof -
  let ?w = "concat (map (pb_frame g) (map snd pms))"
  obtain p' where enc: "encode_all (Encode g buf_write) p [] pms = Ret (None, p', ?w)"
    using pbc.encode_all_valid [OF assms(2), of p "[]"] by auto
  have "length (map snd pms) < length picks" using assms(3) by simp
  from pbf.decode_loop_cut [OF assms(1) _ assms(2) this take_is_prefix [of n], of "\<lparr>rd_data = [], rd_err = EOF\<rparr>" q]
  obtain k part e where "take n ?w = concat (map (pb_frame g) (take k (map snd pms))) @ part"
    "pbf.cut_end g (map snd pms) k part e"
    "decode_loop (\<lambda>pick p r. Decode g pick p r fresh) picks q \<lparr>rd_data = take n ?w, rd_err = EOF\<rparr> =
       Ret (take k (map snd pms), Some e)" by auto
  with enc show ?thesis
    by (intro exI [of _ p'] exI [of _ ?w] exI [of _ k] exI [of _ part]) (auto simp: pbf.cut_end_def split: if_splits)
qed

theorem pb_stream_cut_witness:
  "\<exists>p' w k part. encode_all (Encode gogo_bytes buf_write) [] [] [(None, [1, 2]), (Some 0, [7, 8, 9])] = Ret (None, p', w) \<and>
     take 5 w = concat (map (pb_frame gogo_bytes) (take k [[1, 2], [7, 8, 9]])) @ part \<and>
     decode_loop (\<lambda>pick p r. Decode gogo_bytes pick p r []) [None, None, Some 1] [] \<lparr>rd_data = take 5 w, rd_err = EOF\<rparr> =
       Ret (take k [[1, 2], [7, 8, 9]],
            Some (if k = 2 then EOF else pb_cut_err gogo_bytes ([[1, 2], [7, 8, 9]] ! k) part)) \<and>
     decode_loop (\<lambda>pick p r. Decode gogo_bytes pick p r []) [None, None, Some 1] [] \<lparr>rd_data = take 5 w, rd_err = EOF\<rparr> =
       Ret ([[1, 2]], Some (Wrap ''failed to read message body'' ErrUnexpectedEOF))"
proof -
  let ?pms = "[(None, [1, 2]), (Some 0, [7, 8, 9])] :: (nat option \<times> bytes) list"
  have "is_Message gogo_bytes []" by (simp add: gogo_bytes_def)
  moreover have "list_all (wire_ok gogo_bytes []) (map snd ?pms)" by (simp add: gogo_bytes_wire_ok)
  ultimately obtain p' w k part where w: "encode_all (Encode gogo_bytes buf_write) [] [] ?pms = Ret (None, p', w)"
    "take 5 w = concat (map (pb_frame gogo_bytes) (take k (map snd ?pms))) @ part"
    "if k = length ?pms then part = [] else k < length ?pms \<and> strict_prefix part (pb_frame gogo_bytes (snd (?pms ! k)))"
    "decode_loop (\<lambda>pick p r. Decode gogo_bytes pick p r []) [None, None, Some 1] [] \<lparr>rd_data = take 5 w, rd_err = EOF\<rparr> =
       Ret (take k (map snd ?pms), Some (if k = length ?pms then EOF else pb_cut_err gogo_bytes (snd (?pms ! k)) part))"
    using pb_stream_cut [of gogo_bytes "[]" ?pms "[None, None, Some 1]" "[]" 5 "[]"] by auto
  have enc: "encode_all (Encode gogo_bytes buf_write) [] [] ?pms =
     Ret (None, [3 # replicate 31 0], [2, 1, 2, 3, 7, 8, 9])" by code_simp
  have "decode_loop (\<lambda>pick p r. Decode gogo_bytes pick p r []) [None, None, Some 1] [] \<lparr>rd_data = [2, 1, 2, 3, 7], rd_err = EOF\<rparr> =
       Ret ([[1, 2]], Some (Wrap ''failed to read message body'' ErrUnexpectedEOF))" by code_simp
  moreover have "take 5 w = [2, 1, 2, 3, 7]" using w(1) enc by auto
  ultimately show ?thesis using w
    by (intro exI [of _ p'] exI [of _ w] exI [of _ k] exI [of _ part])
      (cases k; cases "k - 1"; cases "k - 2"; simp)
qed

text \<open>
  Pooled buffers never leak: two decodes of the same input into the same value that
  both return agree on the error, on the rest of the input and on the decoded value,
  whatever buffers (with whatever stale bytes and lengths) they got from the pool.
\<close>

theorem Decode_pool_independent:
  assumes "Decode g pick p r out = Ret (e, p1, r1, v)"
    and "Decode g pick' p' r out = Ret (e', p1', r1', v')"
  shows "e = e' \<and> r1 = r1' \<and> v = v'"
  using assms
  by (auto simp: Decode_def ReadFull_def Let_def bind_outcome_Ret_iff
      split: if_splits sum.splits prod.splits option.splits)

theorem Decode_pool_independent_witness:
  "Decode gogo_bytes None [] \<lparr>rd_data = [2, 5, 6, 1], rd_err = EOF\<rparr> []
     = Ret (None, [[5, 6] @ replicate 30 0], \<lparr>rd_data = [1], rd_err = EOF\<rparr>, [5, 6]) \<and>
   Decode gogo_bytes (Some 0) [[255]] \<lparr>rd_data = [2, 5, 6, 1], rd_err = EOF\<rparr> []
     = Ret (None, [[5, 6]], \<lparr>rd_data = [1], rd_err = EOF\<rparr>, [5, 6]) \<and>
   (None :: error option) = None \<and> [5, 6] = [5, 6 :: byte]"
proof -
  have a: "Decode gogo_bytes None [] \<lparr>rd_data = [2, 5, 6, 1], rd_err = EOF\<rparr> []
     = Ret (None, [[5, 6] @ replicate 30 0], \<lparr>rd_data = [1], rd_err = EOF\<rparr>, [5, 6])"
    by code_simp
  have b: "Decode gogo_bytes (Some 0) [[255]] \<lparr>rd_data = [2, 5, 6, 1], rd_err = EOF\<rparr> []
     = Ret (None, [[5, 6]], \<lparr>rd_data = [1], rd_err = EOF\<rparr>, [5, 6])"
    by code_simp
  from a b Decode_pool_independent [OF a b] show ?thesis by blast
qed

lemma pool_get_bound:
  "\<forall>b\<in>set p. int (length b) \<le> maxAlloc \<Longrightarrow> pool_get pick p = (buf, p') \<Longrightarrow> int (length buf) \<le> maxAlloc"
  by (auto simp: pool_get_def new_buf_def maxAlloc_def split: option.splits if_splits)

text \<open>
  C28. A hostile length prefix crashes the receiver: whenever the announced size
  exceeds the largest possible slice, \<open>Decode\<close> panics (a size of 2^63 and more turns
  negative in \<open>int(size)\<close>, passes \<open>GetBytesBuf\<close> and fails in \<open>data[:size]\<close>; a
  smaller one fails in \<open>append\<close> or \<open>make\<close>), for every reader and whatever the pool holds.
\<close>

theorem Decode_huge_size_panics:
  assumes msg: "is_Message g out"
    and pool: "\<forall>b\<in>set p. int (length b) \<le> maxAlloc"
    and huge: "maxAlloc < uint n"
  shows "\<exists>why. Decode g pick p (r\<lparr>rd_data := uvarint n @ rest\<rparr>) out = Panic why"
proof -
  obtain buf p' where g: "pool_get pick p = (buf, p')" by fastforce
  have len: "int (length buf) \<le> maxAlloc" using pool_get_bound [OF pool g] .
  show ?thesis
  proof (cases "sint n < 0")
    case True
    have "int (length buf) < uint n" using len huge by (simp add: maxAlloc_def)
    then have "int (length buf) < int (unat n)" by (simp only: int_unat)
    then have "length buf < unat n" by linarith
    with True g msg show ?thesis
      by (simp add: Decode_def ReadUvarint_uvarint GetBytesBuf_def grow_buf_def)
  next
    case False
    then have "sint n = uint n" using sint_cases64 by blast
    with grow_buf_huge [OF _ len] huge obtain why where "grow_buf buf (sint n) = Panic why" by metis
    with g msg show ?thesis by (simp add: Decode_def ReadUvarint_uvarint GetBytesBuf_def)
  qed
qed

theorem Decode_huge_size_panics_witness:
  "\<exists>why. Decode gogo_bytes None [[1, 2, 3]]
           \<lparr>rd_data = uvarint (2 ^ 63) @ [0], rd_err = EOF\<rparr> [] = Panic why"
  using Decode_huge_size_panics [of gogo_bytes "[]" "[[1, 2, 3]]" "2 ^ 63" None
      "[0]" "\<lparr>rd_data = [], rd_err = EOF\<rparr>"]
  by (simp add: maxAlloc_def) (simp add: gogo_bytes_def)

end
