(* ===== verification/Seq_Counter.thy ===== *)
theory Seq_Counter
  imports Prelude
begin

text \<open>
  \<open>nextSeq\<close> of \<open>src/extruntime/handler_stream.go\<close>: the lock-free counter that
  numbers the output messages of a stream session, shared by the goroutines that upload
  standard output and standard error. One call is a load and a loop of
  compare-and-swaps; the goroutines interleave at these atomic operations.
\<close>

section \<open>One caller\<close>

text \<open>
  The loop of a caller that runs alone, from its local value \<open>sq\<close> while the counter
  holds \<open>p\<close>: it returns the value and the new counter.
\<close>

function nextSeq_loop :: "u64 \<Rightarrow> u64 \<Rightarrow> u64 \<times> u64" where
  "nextSeq_loop p sq = (if p = sq then (sq, sq + 1) else nextSeq_loop p (sq + 1))"
  by pat_completeness auto
termination
proof (relation "measure (\<lambda>(p, sq). unat (p - sq))")
  fix p sq :: u64
  assume "p \<noteq> sq"
  then have "unat (p - sq - 1) < unat (p - sq)"
    by (simp add: unat_minus_one unat_gt_0)
  then show "((p, sq + 1), p, sq) \<in> measure (\<lambda>(p, sq). unat (p - sq))"
    by (simp add: diff_diff_eq)
qed simp

declare nextSeq_loop.simps [simp del]

definition nextSeq :: "u64 \<Rightarrow> u64 \<times> u64" where
  "nextSeq p = nextSeq_loop p p"

section \<open>Interleaved callers\<close>

datatype seq_pc = SIdle | SHave u64

record seq_state =
  counter :: u64
  callers :: "nat \<Rightarrow> seq_pc"
  issued :: "u64 list"

definition seq_init :: "seq_state \<Rightarrow> bool" where
  "seq_init s \<longleftrightarrow> counter s = 0 \<and> callers s = (\<lambda>_. SIdle) \<and> issued s = []"

text \<open>
  \<open>LoadUint64\<close>; a compare-and-swap that succeeds, whose caller returns; one that
  fails, after which the loop body increments the local value (it does not reload).
  \<open>issued\<close> records the values returned, in order.
\<close>

inductive seq_step :: "seq_state \<Rightarrow> seq_state \<Rightarrow> bool" where
  seq_load: "callers s t = SIdle \<Longrightarrow>
     seq_step s (s\<lparr>callers := (callers s)(t := SHave (counter s))\<rparr>)"
| seq_cas_ok: "callers s t = SHave v \<Longrightarrow> counter s = v \<Longrightarrow>
     seq_step s (s\<lparr>counter := v + 1, callers := (callers s)(t := SIdle), issued := issued s @ [v]\<rparr>)"
| seq_cas_fail: "callers s t = SHave v \<Longrightarrow> counter s \<noteq> v \<Longrightarrow>
     seq_step s (s\<lparr>callers := (callers s)(t := SHave (v + 1))\<rparr>)"

inductive_cases seq_stepE: "seq_step s s'"

definition seq_inv :: "seq_state \<Rightarrow> bool" where
  "seq_inv s \<longleftrightarrow> counter s = of_nat (length (issued s)) \<and>
                issued s = map of_nat [0..<length (issued s)]"

interpretation seqs: invariant_system seq_init seq_step seq_inv
proof
  fix s t
  assume "seq_step s t" "seq_inv s"
  then show "seq_inv t"
    by (cases rule: seq_step.cases) (auto simp: seq_inv_def add.commute)
qed (simp add: seq_init_def seq_inv_def)

lemma of_nat_inj_u64: "inj_on (of_nat :: nat \<Rightarrow> u64) {0..<2 ^ 64}"
proof (rule inj_onI)
  fix m n :: nat
  assume "m \<in> {0..<2 ^ 64}" and "n \<in> {0..<2 ^ 64}" and eq: "(of_nat m :: u64) = of_nat n"
  from this(1,2) have "unat (of_nat m :: u64) = m" "unat (of_nat n :: u64) = n"
    by (simp_all add: unat_of_nat)
  with eq show "m = n" by metis
qed

lemma issued_distinct: "seq_inv s \<Longrightarrow> length (issued s) \<le> 2 ^ 64 \<Longrightarrow> distinct (issued s)"
  by (metis (no_types, lifting) seq_inv_def atLeastLessThan_upt distinct_map distinct_upt
      inj_on_subset ivl_subset le0 of_nat_inj_u64)

section \<open>Properties\<close>

text \<open>
  C26. In every interleaving of any number of goroutines the sequence numbers handed out
  are 0, 1, 2 and so on without gap or repetition (modulo 2^64), the counter is their
  number, and they are distinct up to 2^64 calls: a failed compare-and-swap that
  increments its stale value instead of reloading still never issues a number twice.
\<close>

theorem nextSeq_consecutive:
  assumes "reach seq_init seq_step s"
  shows "issued s = map of_nat [0..<length (issued s)] \<and>
         counter s = of_nat (length (issued s)) \<and>
         (length (issued s) \<le> 2 ^ 64 \<longrightarrow> distinct (issued s))"
proof -
  have "seq_inv s" using assms by (rule seqs.inv_reach)
  then show ?thesis using issued_distinct by (auto simp: seq_inv_def)
qed

text \<open>Two goroutines: both load 0, the first wins, the second fails once and takes 1.\<close>

definition seq_start :: seq_state where
  "seq_start = \<lparr>counter = 0, callers = (\<lambda>_. SIdle), issued = []\<rparr>"

lemma seq_race_reach:
  "\<exists>s. reach seq_init seq_step s \<and> issued s = [0, 1]"
proof -
  let ?s1 = "seq_start\<lparr>callers := (\<lambda>_. SIdle)(1 := SHave 0)\<rparr>"
  let ?s2 = "seq_start\<lparr>callers := (\<lambda>_. SIdle)(1 := SHave 0, 2 := SHave 0)\<rparr>"
  let ?s3 = "\<lparr>counter = 1, callers = (\<lambda>_. SIdle)(2 := SHave 0), issued = [0]\<rparr>"
  let ?s4 = "\<lparr>counter = 1, callers = (\<lambda>_. SIdle)(2 := SHave 1), issued = [0]\<rparr>"
  let ?s5 = "\<lparr>counter = 2, callers = (\<lambda>_. SIdle), issued = [0, 1]\<rparr>"
  have "reach seq_init seq_step seq_start"
    by (rule reach_init) (simp add: seq_init_def seq_start_def)
  moreover have "seq_step seq_start ?s1"
    using seq_load [of seq_start 1] by (simp add: seq_start_def)
  moreover have "seq_step ?s1 ?s2"
    using seq_load [of ?s1 2] by (simp add: seq_start_def)
  moreover have "seq_step ?s2 ?s3"
    using seq_cas_ok [of ?s2 1 0] by (simp add: seq_start_def fun_upd_twist fun_upd_idem)
  moreover have "seq_step ?s3 ?s4"
    using seq_cas_fail [of ?s3 2 0] by simp
  moreover have "seq_step ?s4 ?s5"
    using seq_cas_ok [of ?s4 2 1] by (simp add: fun_upd_idem)
  ultimately have "reach seq_init seq_step ?s5"
    by (meson reach_step)
  then show ?thesis by (intro exI [of _ ?s5]) simp
qed

theorem nextSeq_consecutive_witness:
  "\<exists>s. reach seq_init seq_step s \<and> issued s = [0, 1] \<and> counter s = 2 \<and> distinct (issued s)"
proof -
  obtain s where r: "reach seq_init seq_step s" and i: "issued s = [0, 1]"
    using seq_race_reach by blast
  from nextSeq_consecutive [OF r] i r show ?thesis by auto
qed

text \<open>
  C27. The loop returns from every stale local value: run without interference it ends
  with the current counter as its result and the counter incremented, however far
  behind the local value was; the call as a whole is a fetch-and-increment.
\<close>

theorem nextSeq_loop_returns: "nextSeq_loop p sq = (p, p + 1) \<and> nextSeq p = (p, p + 1)"
proof -
  have "nextSeq_loop p sq = (p, p + 1)" for sq
  proof (induction p sq rule: nextSeq_loop.induct)
    case (1 p sq)
    then show ?case by (subst nextSeq_loop.simps) auto
  qed
  then show ?thesis by (simp add: nextSeq_def)
qed

end
