(* ===== verification/Spinlock.thy ===== *)
theory Spinlock
  imports Prelude
begin

text \<open>
  The two spin locks of the repository: \<open>StreamManager.doExclusive\<close>
  (\<open>src/extutil/streaming.go\<close>) and \<open>msgWaitValue.do\<close>
  (\<open>src/server/extension_util.go\<close>). Both acquire with a compare-and-swap loop on a
  word; they differ in the release: the first stores 0, the second compare-and-swaps 1
  to 0 in a loop. Any number of goroutines interleave at every atomic operation, and the
  critical section \<open>f()\<close> is a list of steps on the shared data, between which the
  others may run.
\<close>

type_synonym 'd job = "('d \<Rightarrow> 'd) list"

datatype 'd lock_pc = LIdle | LSpin "'d job" | is_LIn: LIn "'d job" "'d job"

record 'd lock_state =
  working :: u32
  data :: 'd
  lpcs :: "nat \<Rightarrow> 'd lock_pc"
  hist :: "'d job list"

definition lock_init :: "'d \<Rightarrow> 'd lock_state \<Rightarrow> bool" where
  "lock_init d0 s \<longleftrightarrow> s = \<lparr>working = 0, data = d0, lpcs = (\<lambda>_. LIdle), hist = []\<rparr>"

text \<open>
  \<open>jobs t job\<close> says which critical sections goroutine \<open>t\<close> may run; \<open>release\<close>
  is the atomic operation that ends one: the new value of the word, or \<open>None\<close> when it
  has to be tried again. \<open>LIn dn rest\<close> is inside, with \<open>dn\<close> done.
\<close>

inductive lock_step ::
  "(u32 \<Rightarrow> u32 option) \<Rightarrow> (nat \<Rightarrow> 'd job \<Rightarrow> bool) \<Rightarrow> 'd lock_state \<Rightarrow> 'd lock_state \<Rightarrow> bool"
  for release jobs where
  lock_call: "lpcs s t = LIdle \<Longrightarrow> jobs t job \<Longrightarrow>
     lock_step release jobs s (s\<lparr>lpcs := (lpcs s)(t := LSpin job)\<rparr>)"
| lock_cas: "lpcs s t = LSpin job \<Longrightarrow> working s = 0 \<Longrightarrow>
     lock_step release jobs s (s\<lparr>working := 1, lpcs := (lpcs s)(t := LIn [] job)\<rparr>)"
| lock_yield: "lpcs s t = LSpin job \<Longrightarrow> working s \<noteq> 0 \<Longrightarrow> lock_step release jobs s s"
| lock_body: "lpcs s t = LIn dn (f # rest) \<Longrightarrow>
     lock_step release jobs s
       (s\<lparr>data := f (data s), lpcs := (lpcs s)(t := LIn (dn @ [f]) rest)\<rparr>)"
| lock_release: "lpcs s t = LIn dn [] \<Longrightarrow> release (working s) = Some w \<Longrightarrow>
     lock_step release jobs s
       (s\<lparr>working := w, lpcs := (lpcs s)(t := LIdle), hist := hist s @ [dn]\<rparr>)"
| lock_release_retry: "lpcs s t = LIn dn [] \<Longrightarrow> release (working s) = None \<Longrightarrow>
     lock_step release jobs s s"

definition doExclusive_step :: "(nat \<Rightarrow> 'd job \<Rightarrow> bool) \<Rightarrow> 'd lock_state \<Rightarrow> 'd lock_state \<Rightarrow> bool" where
  "doExclusive_step = lock_step (\<lambda>_. Some 0)"

definition do_step :: "(nat \<Rightarrow> 'd job \<Rightarrow> bool) \<Rightarrow> 'd lock_state \<Rightarrow> 'd lock_state \<Rightarrow> bool" where
  "do_step = lock_step (\<lambda>w. if w = 1 then Some 0 else None)"

section \<open>The invariant\<close>

definition run_job :: "'d job \<Rightarrow> 'd \<Rightarrow> 'd" where
  "run_job job d = fold (\<lambda>f. f) job d"

definition run_hist :: "'d job list \<Rightarrow> 'd \<Rightarrow> 'd" where
  "run_hist h d = fold run_job h d"

abbreviation inside :: "'d lock_state \<Rightarrow> nat \<Rightarrow> bool" where
  "inside s t \<equiv> is_LIn (lpcs s t)"

text \<open>
  Free lock: nobody is inside and the data is the result of the finished critical
  sections, one after the other. Taken lock: exactly one goroutine is inside, and the
  data is that result with its own steps so far.
\<close>

definition lock_free :: "'d \<Rightarrow> 'd lock_state \<Rightarrow> bool" where
  "lock_free d0 s \<longleftrightarrow> working s = 0 \<and> (\<forall>t. \<not> inside s t) \<and> data s = run_hist (hist s) d0"

definition lock_held :: "(nat \<Rightarrow> 'd job \<Rightarrow> bool) \<Rightarrow> 'd \<Rightarrow> 'd lock_state \<Rightarrow> nat \<Rightarrow> 'd job \<Rightarrow> 'd job \<Rightarrow> bool" where
  "lock_held jobs d0 s t dn rest \<longleftrightarrow>
     working s = 1 \<and> lpcs s t = LIn dn rest \<and> jobs t (dn @ rest) \<and>
     (\<forall>t'. t' \<noteq> t \<longrightarrow> \<not> inside s t') \<and>
     data s = run_job dn (run_hist (hist s) d0)"

definition lock_jobs :: "(nat \<Rightarrow> 'd job \<Rightarrow> bool) \<Rightarrow> 'd lock_state \<Rightarrow> bool" where
  "lock_jobs jobs s \<longleftrightarrow>
     (\<forall>t job. lpcs s t = LSpin job \<longrightarrow> jobs t job) \<and> (\<forall>job\<in>set (hist s). \<exists>t. jobs t job)"

definition lock_inv :: "(nat \<Rightarrow> 'd job \<Rightarrow> bool) \<Rightarrow> 'd \<Rightarrow> 'd lock_state \<Rightarrow> bool" where
  "lock_inv jobs d0 s \<longleftrightarrow>
     lock_jobs jobs s \<and> (lock_free d0 s \<or> (\<exists>t dn rest. lock_held jobs d0 s t dn rest))"

lemma run_job_simps [simp]:
  "run_job [] d = d" "run_job (dn @ [f]) d = f (run_job dn d)"
  by (simp_all add: run_job_def)

lemma run_hist_simps [simp]:
  "run_hist [] d = d" "run_hist (h @ [job]) d = run_job job (run_hist h d)"
  by (simp_all add: run_hist_def)

lemma lock_inv_held:
  assumes "lock_inv jobs d0 s" and "lpcs s t = LIn dn rest"
  shows "lock_held jobs d0 s t dn rest"
proof -
  have "inside s t" using assms(2) by simp
  then obtain t' dn' rest' where h: "lock_held jobs d0 s t' dn' rest'"
    using assms(1) by (auto simp: lock_inv_def lock_free_def)
  then have "t' = t" using \<open>inside s t\<close> by (auto simp: lock_held_def)
  with h assms(2) show ?thesis by (simp add: lock_held_def)
qed

lemma lock_inv_spin:
  assumes "lock_inv jobs d0 s" and "working s = 0"
  shows "lock_free d0 s"
  using assms by (auto simp: lock_inv_def lock_held_def)

lemma lock_step_inv:
  assumes rel: "release 1 = Some 0"
    and "lock_step release jobs s s'" and inv: "lock_inv jobs d0 s"
  shows "lock_inv jobs d0 s'"
  using assms(2)
proof cases
  case (lock_call t job)
  with inv show ?thesis
    by (auto simp: lock_inv_def lock_jobs_def lock_free_def lock_held_def split: if_splits)
      (metis lock_pc.distinct(3) lock_pc.disc)+
next
  case (lock_cas t job)
  with inv have "lock_free d0 s" by (blast intro: lock_inv_spin)
  moreover from lock_cas inv have "jobs t job" by (auto simp: lock_inv_def lock_jobs_def)
  ultimately have "lock_held jobs d0 s' t [] job"
    using lock_cas
    by (auto simp: lock_free_def lock_held_def)
  moreover have "lock_jobs jobs s'" using inv lock_cas by (auto simp: lock_inv_def lock_jobs_def)
  ultimately show ?thesis by (auto simp: lock_inv_def)
next
  case (lock_body t dn f rest)
  with inv have "lock_held jobs d0 s t dn (f # rest)" by (blast intro: lock_inv_held)
  with lock_body have "lock_held jobs d0 s' t (dn @ [f]) rest" by (auto simp: lock_held_def)
  moreover have "lock_jobs jobs s'" using inv lock_body by (auto simp: lock_inv_def lock_jobs_def)
  ultimately show ?thesis by (auto simp: lock_inv_def)
next
  case (lock_release t dn w)
  with inv have h: "lock_held jobs d0 s t dn []" by (blast intro: lock_inv_held)
  with lock_release rel have "lock_free d0 s'"
    by (auto simp: lock_held_def lock_free_def)
  moreover have "lock_jobs jobs s'"
    using inv lock_release h by (auto simp: lock_inv_def lock_jobs_def lock_held_def)
  ultimately show ?thesis by (simp add: lock_inv_def)
qed (use inv in simp_all)

lemma lock_init_inv: "lock_init d0 s \<Longrightarrow> lock_inv jobs d0 s"
  by (simp add: lock_init_def lock_inv_def lock_free_def lock_jobs_def)

interpretation excl: invariant_system "lock_init d0" "doExclusive_step jobs" "lock_inv jobs d0"
  for d0 jobs
  by unfold_locales
    (auto simp: doExclusive_step_def intro: lock_init_inv lock_step_inv [rotated])

interpretation spin: invariant_system "lock_init d0" "do_step jobs" "lock_inv jobs d0"
  for d0 jobs
  by unfold_locales (auto simp: do_step_def intro: lock_init_inv lock_step_inv [rotated])

section \<open>What a client relies on\<close>

text \<open>
  Code that keeps data under a spin lock may also change parts of it without the lock:
  \<open>other\<close> says how.
\<close>

inductive excl_step ::
  "(u32 \<Rightarrow> u32 option) \<Rightarrow> (nat \<Rightarrow> 'd job \<Rightarrow> bool) \<Rightarrow> ('d \<Rightarrow> 'd \<Rightarrow> bool) \<Rightarrow> 'd lock_state \<Rightarrow> 'd lock_state \<Rightarrow> bool"
  for release jobs other where
  excl_lock: "lock_step release jobs s t \<Longrightarrow> excl_step release jobs other s t"
| excl_other: "other (data s) d \<Longrightarrow> excl_step release jobs other s (s\<lparr>data := d\<rparr>)"

text \<open>\<open>J\<close> holds of the data while the lock is free, \<open>I t dn rest\<close> while \<open>t\<close> is inside.\<close>

definition excl_inv ::
  "(nat \<Rightarrow> 'd job \<Rightarrow> bool) \<Rightarrow> (nat \<Rightarrow> 'd job \<Rightarrow> 'd job \<Rightarrow> 'd \<Rightarrow> bool) \<Rightarrow> ('d \<Rightarrow> bool) \<Rightarrow> 'd lock_state \<Rightarrow> bool" where
  "excl_inv jobs I J s \<longleftrightarrow>
     (\<forall>t job. lpcs s t = LSpin job \<longrightarrow> jobs t job) \<and>
     (working s = 0 \<and> (\<forall>t. \<not> inside s t) \<and> J (data s) \<or>
      (\<exists>t dn rest. working s = 1 \<and> lpcs s t = LIn dn rest \<and> (\<forall>t'. t' \<noteq> t \<longrightarrow> \<not> inside s t') \<and> I t dn rest (data s)))"

lemma excl_invE:
  assumes "excl_inv jobs I J s"
  obtains (free) "working s = 0" "\<And>t. \<not> inside s t" "J (data s)"
  | (held) t dn rest where "working s = 1" "lpcs s t = LIn dn rest" "\<And>t'. t' \<noteq> t \<Longrightarrow> \<not> inside s t'" "I t dn rest (data s)"
  using assms unfolding excl_inv_def by blast

lemma excl_inv_in:
  assumes "excl_inv jobs I J s" and "lpcs s t = LIn dn rest"
  shows "working s = 1 \<and> (\<forall>t'. t' \<noteq> t \<longrightarrow> \<not> inside s t') \<and> I t dn rest (data s)"
  using assms(1)
proof (cases rule: excl_invE)
  case free
  from free(2) [of t] assms(2) show ?thesis by simp
next
  case (held t' dn' rest')
  then have "t' = t" using held(3) [of t] assms(2) by fastforce
  with held assms(2) show ?thesis by auto
qed

text \<open>
  The contract between a spin lock and the code it protects: a critical section started
  where \<open>J\<close> holds keeps its assertions \<open>I\<close> step by step and ends where \<open>J\<close> holds,
  and what is done without the lock breaks neither. Then they hold in every interleaving.
\<close>

locale exclusive_jobs =
  fixes release :: "u32 \<Rightarrow> u32 option"
    and jobs :: "nat \<Rightarrow> 'd job \<Rightarrow> bool"
    and other :: "'d \<Rightarrow> 'd \<Rightarrow> bool"
    and I :: "nat \<Rightarrow> 'd job \<Rightarrow> 'd job \<Rightarrow> 'd \<Rightarrow> bool"
    and J :: "'d \<Rightarrow> bool"
  assumes release_1: "release 1 = Some 0"
    and enter: "jobs t job \<Longrightarrow> J d \<Longrightarrow> I t [] job d"
    and body: "I t dn (f # rest) d \<Longrightarrow> I t (dn @ [f]) rest (f d)"
    and leave: "I t dn [] d \<Longrightarrow> J d"
    and other_free: "other d d' \<Longrightarrow> J d \<Longrightarrow> J d'"
    and other_inside: "other d d' \<Longrightarrow> I t dn rest d \<Longrightarrow> I t dn rest d'"
begin

lemma excl_lock_inv:
  assumes "lock_step release jobs s s'" and inv: "excl_inv jobs I J s"
  shows "excl_inv jobs I J s'"
  using assms(1)
proof cases
  case (lock_call t job)
  from inv show ?thesis
  proof (cases rule: excl_invE)
    case (held t' dn rest)
    then have "t' \<noteq> t" using lock_call(2) by auto
    with held lock_call inv show ?thesis unfolding excl_inv_def
      by (intro conjI disjI2 exI [of _ t'] exI [of _ dn] exI [of _ rest]) auto
  qed (use lock_call inv in \<open>auto simp: excl_inv_def\<close>)
next
  case (lock_cas t job)
  from inv show ?thesis
  proof (cases rule: excl_invE)
    case free
    moreover have "jobs t job" using inv lock_cas(2) by (simp add: excl_inv_def)
    ultimately show ?thesis using lock_cas inv enter [of t job] unfolding excl_inv_def
      by (intro conjI disjI2 exI [of _ t] exI [of _ "[]"] exI [of _ job]) auto
  qed (use lock_cas in simp)
next
  case (lock_body t dn f rest)
  with excl_inv_in [OF inv lock_body(2)] body inv show ?thesis unfolding excl_inv_def
    by (intro conjI disjI2 exI [of _ t] exI [of _ "dn @ [f]"] exI [of _ rest]) auto
next
  case (lock_release t dn w)
  with excl_inv_in [OF inv lock_release(2)] leave release_1 inv show ?thesis by (auto simp: excl_inv_def)
qed (use inv in simp_all)

lemma excl_step_inv: "excl_step release jobs other s s' \<Longrightarrow> excl_inv jobs I J s \<Longrightarrow> excl_inv jobs I J s'"
proof (induction rule: excl_step.induct)
  case (excl_other s d)
  from excl_other.prems show ?case
  proof (cases rule: excl_invE)
    case free
    with excl_other other_free show ?thesis by (auto simp: excl_inv_def)
  next
    case (held t dn rest)
    with excl_other other_inside show ?thesis unfolding excl_inv_def
      by (intro conjI disjI2 exI [of _ t] exI [of _ dn] exI [of _ rest]) auto
  qed
qed (rule excl_lock_inv)

lemma excl_init_inv: "lock_init d0 s \<Longrightarrow> J d0 \<Longrightarrow> excl_inv jobs I J s"
  by (simp add: lock_init_def excl_inv_def)

end

section \<open>Properties\<close>

lemma lock_inv_serial:
  assumes "lock_inv jobs d0 s"
  shows "(\<forall>t t'. inside s t \<and> inside s t' \<longrightarrow> t = t') \<and>
         ((\<forall>t. \<not> inside s t) \<longrightarrow> data s = run_hist (hist s) d0)"
proof -
  from assms consider "lock_free d0 s" | t dn rest where "lock_held jobs d0 s t dn rest"
    by (auto simp: lock_inv_def)
  then show ?thesis
  proof cases
    case 2
    then have "is_LIn (lpcs s t)" "\<forall>t'. inside s t' \<longrightarrow> t' = t" by (auto simp: lock_held_def)
    then show ?thesis by blast
  qed (simp add: lock_free_def)
qed

text \<open>
  C9. \<open>doExclusive\<close> excludes and serialises: in every interleaving at most one goroutine
  is between the acquiring compare-and-swap and the releasing store, and whenever none
  is, the shared data is what the completed closures produce when run whole, one after
  the other, in the order in which they held the lock.
\<close>

theorem doExclusive_serialises:
  assumes "reach (lock_init d0) (doExclusive_step jobs) s"
  shows "(\<forall>t t'. is_LIn (lpcs s t) \<and> is_LIn (lpcs s t') \<longrightarrow> t = t') \<and>
         ((\<forall>t. \<not> is_LIn (lpcs s t)) \<longrightarrow> data s = run_hist (hist s) d0)"
  using excl.inv_reach [OF assms] by (rule lock_inv_serial)

text \<open>A lock over a number, one goroutine inside after its first of two increments.\<close>

definition inc_jobs :: "nat \<Rightarrow> nat job \<Rightarrow> bool" where
  "inc_jobs t job \<longleftrightarrow> job = [Suc, Suc]"

definition inc_state :: "nat lock_state" where
  "inc_state = \<lparr>working = 1, data = 1, lpcs = (\<lambda>_. LIdle)(0 := LIn [Suc] [Suc]), hist = []\<rparr>"

lemma inc_state_reach:
  "release 1 = Some 0 \<Longrightarrow> reach (lock_init 0) (lock_step release inc_jobs) inc_state"
proof -
  let ?s0 = "\<lparr>working = 0, data = 0, lpcs = (\<lambda>_. LIdle), hist = []\<rparr> :: nat lock_state"
  let ?s1 = "?s0\<lparr>lpcs := (\<lambda>_. LIdle)(0 := LSpin [Suc, Suc])\<rparr>"
  let ?s2 = "?s0\<lparr>working := 1, lpcs := (\<lambda>_. LIdle)(0 := LIn [] [Suc, Suc])\<rparr>"
  have "reach (lock_init 0) (lock_step release inc_jobs) ?s0"
    by (rule reach_init) (simp add: lock_init_def)
  moreover have "lock_step release inc_jobs ?s0 ?s1"
    using lock_call [of ?s0 0 inc_jobs "[Suc, Suc]"] by (simp add: inc_jobs_def)
  moreover have "lock_step release inc_jobs ?s1 ?s2"
    using lock_cas [of ?s1 0 "[Suc, Suc]"] by simp
  moreover have "lock_step release inc_jobs ?s2 inc_state"
    using lock_body [of ?s2 0 "[]" Suc "[Suc]"] by (simp add: inc_state_def)
  ultimately show ?thesis by (meson reach_step)
qed

theorem doExclusive_serialises_witness:
  "reach (lock_init 0) (doExclusive_step inc_jobs) inc_state \<and> is_LIn (lpcs inc_state 0) \<and>
   \<not> is_LIn (lpcs inc_state 1)"
proof -
  have r: "reach (lock_init 0) (doExclusive_step inc_jobs) inc_state"
    unfolding doExclusive_step_def by (rule inc_state_reach) simp
  moreover have "is_LIn (lpcs inc_state 0)" by (simp add: inc_state_def)
  ultimately show ?thesis using doExclusive_serialises [OF r] zero_neq_one by blast
qed

text \<open>
  The same for \<open>msgWaitValue.do\<close>, and its releasing loop never spins: whoever is
  inside finds the word at 1, so the compare-and-swap from 1 to 0 succeeds at once.
\<close>

theorem do_serialises:
  assumes "reach (lock_init d0) (do_step jobs) s"
  shows "(\<forall>t t'. is_LIn (lpcs s t) \<and> is_LIn (lpcs s t') \<longrightarrow> t = t') \<and>
         ((\<forall>t. \<not> is_LIn (lpcs s t)) \<longrightarrow> data s = run_hist (hist s) d0) \<and>
         (\<forall>t. is_LIn (lpcs s t) \<longrightarrow> working s = 1)"
proof -
  have inv: "lock_inv jobs d0 s" using assms by (rule spin.inv_reach)
  have "is_LIn (lpcs s t) \<longrightarrow> working s = 1" for t
    using lock_inv_held [OF inv, of t] by (cases "lpcs s t") (auto simp: lock_held_def)
  with lock_inv_serial [OF inv] show ?thesis by blast
qed

theorem do_serialises_witness:
  "reach (lock_init 0) (do_step inc_jobs) inc_state \<and> is_LIn (lpcs inc_state 0) \<and>
   working inc_state = 1 \<and> \<not> is_LIn (lpcs inc_state 1)"
proof -
  have r: "reach (lock_init 0) (do_step inc_jobs) inc_state"
    unfolding do_step_def by (rule inc_state_reach) simp
  moreover have "is_LIn (lpcs inc_state 0)" by (simp add: inc_state_def)
  ultimately show ?thesis using do_serialises [OF r] zero_neq_one by blast
qed

end
