(* ===== verification/Msg_Wait.thy ===== *)
theory Msg_Wait
  imports Proto
begin

text \<open>
  \<open>msgWaitValue\<close> of \<open>src/server/extension_util.go\<close>: the slot in which the
  hub waits for the response to one command. The connection's reader delivers the
  response with \<open>send\<close>, the timer and the waiting caller both \<open>close\<close> it, and the
  caller receives from its channel without taking the lock. Goroutines interleave at
  every atomic operation; \<open>send\<close> may block in its select while it holds the lock.
\<close>

record msgWaitValue =
  mw_msgCh :: "Msg chan"
  mw_closed :: u32
  mw_working :: u32

definition newMsgWaitValue :: msgWaitValue where
  "newMsgWaitValue = \<lparr>mw_msgCh = make_chan 1, mw_closed = 0, mw_working = 0\<rparr>"

datatype mw_op = OpSend Msg | OpClose

text \<open>
  Where a goroutine is: outside; in the acquiring loop of \<open>do\<close>; in \<open>send\<close> before
  the load of \<open>closed\<close> and at the select; in \<open>close\<close> before the compare-and-swap
  of \<open>closed\<close> and before \<open>close(m.msgCh)\<close>; in the releasing loop.
\<close>

datatype mw_pc =
    MIdle
  | MSpin mw_op
  | MSendIn Msg
  | MSelect Msg
  | MCloseIn
  | MCloseCh
  | MOut

definition mw_enter :: "mw_op \<Rightarrow> mw_pc" where
  "mw_enter op = (case op of OpSend m \<Rightarrow> MSendIn m | OpClose \<Rightarrow> MCloseIn)"

definition mw_inside :: "mw_pc \<Rightarrow> bool" where
  "mw_inside pc \<longleftrightarrow> (case pc of MIdle \<Rightarrow> False | MSpin _ \<Rightarrow> False | _ \<Rightarrow> True)"

record mw_state =
  mw :: msgWaitValue
  mpcs :: "nat \<Rightarrow> mw_pc"
  cancelled :: bool
  sent :: "Msg list"
  received :: "Msg list"
  panicked :: bool

definition mw_init :: "mw_state \<Rightarrow> bool" where
  "mw_init s \<longleftrightarrow> s = \<lparr>mw = newMsgWaitValue, mpcs = (\<lambda>_. MIdle), cancelled = False,
                     sent = [], received = [], panicked = False\<rparr>"

abbreviation goto :: "mw_state \<Rightarrow> nat \<Rightarrow> mw_pc \<Rightarrow> mw_state" where
  "goto s t pc \<equiv> s\<lparr>mpcs := (mpcs s)(t := pc)\<rparr>"

text \<open>
  The atomic operations; \<open>sent\<close> and \<open>received\<close> record what went into and out of
  the channel, \<open>panicked\<close> that an operation on the channel panicked.
\<close>

inductive mw_step :: "mw_state \<Rightarrow> mw_state \<Rightarrow> bool" where
  mw_call: "mpcs s t = MIdle \<Longrightarrow> mw_step s (goto s t (MSpin op))"
| mw_cas: "mpcs s t = MSpin op \<Longrightarrow> mw_working (mw s) = 0 \<Longrightarrow>
     mw_step s ((goto s t (mw_enter op))\<lparr>mw := (mw s)\<lparr>mw_working := 1\<rparr>\<rparr>)"
| mw_yield: "mpcs s t = MSpin op \<Longrightarrow> mw_working (mw s) \<noteq> 0 \<Longrightarrow> mw_step s s"
| mw_load: "mpcs s t = MSendIn m \<Longrightarrow>
     mw_step s (goto s t (if mw_closed (mw s) = 1 then MOut else MSelect m))"
| mw_select_cancel: "mpcs s t = MSelect m \<Longrightarrow> cancelled s \<Longrightarrow> mw_step s (goto s t MOut)"
| mw_select_send: "mpcs s t = MSelect m \<Longrightarrow> send_ready (mw_msgCh (mw s)) \<Longrightarrow>
     chan_send m (mw_msgCh (mw s)) = Ret c \<Longrightarrow>
     mw_step s ((goto s t MOut)\<lparr>mw := (mw s)\<lparr>mw_msgCh := c\<rparr>, sent := sent s @ [m]\<rparr>)"
| mw_select_panic: "mpcs s t = MSelect m \<Longrightarrow> send_ready (mw_msgCh (mw s)) \<Longrightarrow>
     chan_send m (mw_msgCh (mw s)) = Panic p \<Longrightarrow> mw_step s (s\<lparr>panicked := True\<rparr>)"
| mw_close_cas: "mpcs s t = MCloseIn \<Longrightarrow> mw_closed (mw s) = 0 \<Longrightarrow>
     mw_step s ((goto s t MCloseCh)\<lparr>mw := (mw s)\<lparr>mw_closed := 1\<rparr>\<rparr>)"
| mw_close_again: "mpcs s t = MCloseIn \<Longrightarrow> mw_closed (mw s) \<noteq> 0 \<Longrightarrow> mw_step s (goto s t MOut)"
| mw_close_ch: "mpcs s t = MCloseCh \<Longrightarrow> chan_close (mw_msgCh (mw s)) = Ret c \<Longrightarrow>
     mw_step s ((goto s t MOut)\<lparr>mw := (mw s)\<lparr>mw_msgCh := c\<rparr>\<rparr>)"
| mw_close_panic: "mpcs s t = MCloseCh \<Longrightarrow> chan_close (mw_msgCh (mw s)) = Panic p \<Longrightarrow>
     mw_step s (s\<lparr>panicked := True\<rparr>)"
| mw_release: "mpcs s t = MOut \<Longrightarrow> mw_working (mw s) = 1 \<Longrightarrow>
     mw_step s ((goto s t MIdle)\<lparr>mw := (mw s)\<lparr>mw_working := 0\<rparr>\<rparr>)"
| mw_release_retry: "mpcs s t = MOut \<Longrightarrow> mw_working (mw s) \<noteq> 1 \<Longrightarrow> mw_step s s"
| mw_recv: "chan_recv (mw_msgCh (mw s)) = (Some m, c) \<Longrightarrow>
     mw_step s (s\<lparr>mw := (mw s)\<lparr>mw_msgCh := c\<rparr>, received := received s @ [m]\<rparr>)"
| mw_cancel: "mw_step s (s\<lparr>cancelled := True\<rparr>)"

section \<open>Invariant\<close>

text \<open>
  At most one goroutine is inside, and then the word is 1; while \<open>closed\<close> is 0 the
  channel is open; the goroutine that set it to 1 finds the channel still open, and closes
  it; a sender at its select has seen \<open>closed = 0\<close> and nobody closed since; the channel
  holds what was sent and not yet received.
\<close>

definition mw_mutex :: "mw_state \<Rightarrow> bool" where
  "mw_mutex s \<longleftrightarrow>
     (\<forall>t t'. mw_inside (mpcs s t) \<longrightarrow> mw_inside (mpcs s t') \<longrightarrow> t = t') \<and>
     (\<forall>t. mw_inside (mpcs s t) \<longrightarrow> mw_working (mw s) = 1)"

definition mw_flag :: "mw_state \<Rightarrow> bool" where
  "mw_flag s \<longleftrightarrow>
     (mw_closed (mw s) = 0 \<longrightarrow> \<not> ch_closed (mw_msgCh (mw s))) \<and>
     (mw_closed (mw s) = 0 \<or> mw_closed (mw s) = 1) \<and>
     (\<forall>t. mpcs s t = MCloseCh \<longrightarrow> \<not> ch_closed (mw_msgCh (mw s)) \<and> mw_closed (mw s) = 1) \<and>
     (\<forall>t m. mpcs s t = MSelect m \<longrightarrow> mw_closed (mw s) = 0)"

definition mw_data :: "mw_state \<Rightarrow> bool" where
  "mw_data s \<longleftrightarrow>
     ch_cap (mw_msgCh (mw s)) = 1 \<and> length (ch_buf (mw_msgCh (mw s))) \<le> 1 \<and>
     sent s = received s @ ch_buf (mw_msgCh (mw s)) \<and> \<not> panicked s"

definition mw_shut :: "mw_state \<Rightarrow> bool" where
  "mw_shut s \<longleftrightarrow> mw_closed (mw s) = 0 \<or> ch_closed (mw_msgCh (mw s)) \<or> (\<exists>t. mpcs s t = MCloseCh)"

definition mw_inv :: "mw_state \<Rightarrow> bool" where
  "mw_inv s \<longleftrightarrow> mw_mutex s \<and> mw_flag s \<and> mw_data s \<and> mw_shut s"

lemma mw_inside_simps [simp]:
  "\<not> mw_inside MIdle" "\<not> mw_inside (MSpin op)" "mw_inside (MSendIn m)" "mw_inside (MSelect m)"
  "mw_inside MCloseIn" "mw_inside MCloseCh" "mw_inside MOut" "mw_inside (mw_enter op)"
  by (simp_all add: mw_inside_def mw_enter_def split: mw_op.splits)

lemma mw_enter_not [simp]:
  "mw_enter op \<noteq> MCloseCh" "mw_enter op \<noteq> MSelect m" "MCloseCh \<noteq> mw_enter op" "MSelect m \<noteq> mw_enter op"
  by (simp_all add: mw_enter_def split: mw_op.splits)

lemma mw_init_inv: "mw_init s \<Longrightarrow> mw_inv s"
  by (simp add: mw_init_def mw_inv_def mw_mutex_def mw_flag_def mw_data_def mw_shut_def
      newMsgWaitValue_def make_chan_def)

lemma mw_mutexD:
  "mw_mutex s \<Longrightarrow> mw_inside (mpcs s t) \<Longrightarrow> mw_inside (mpcs s t') \<Longrightarrow> t' = t"
  by (auto simp: mw_mutex_def)

lemma mw_insideD:
  "mpcs s t = MSendIn m \<Longrightarrow> mw_inside (mpcs s t)" "mpcs s t = MSelect m \<Longrightarrow> mw_inside (mpcs s t)"
  "mpcs s t = MCloseIn \<Longrightarrow> mw_inside (mpcs s t)" "mpcs s t = MCloseCh \<Longrightarrow> mw_inside (mpcs s t)"
  "mpcs s t = MOut \<Longrightarrow> mw_inside (mpcs s t)"
  by simp_all

lemma mw_mutex_step: "mw_step s s' \<Longrightarrow> mw_mutex s \<Longrightarrow> mw_mutex s'"
  by (erule mw_step.cases) (auto simp: mw_mutex_def dest: mw_insideD split: if_splits)

lemma mw_flag_step: "mw_step s s' \<Longrightarrow> mw_mutex s \<Longrightarrow> mw_flag s \<Longrightarrow> mw_flag s'"
  by (erule mw_step.cases)
    (auto simp: mw_flag_def chan_send_def chan_close_def chan_recv_def
      split: if_splits list.splits dest: mw_insideD mw_mutexD)

lemma mw_data_step: "mw_step s s' \<Longrightarrow> mw_flag s \<Longrightarrow> mw_data s \<Longrightarrow> mw_data s'"
  by (erule mw_step.cases)
    (auto simp: mw_flag_def mw_data_def send_ready_def chan_send_def chan_close_def chan_recv_def
      split: if_splits list.splits)

lemma mw_shutI:
  assumes "mw_shut s" and "mpcs s' = (mpcs s)(t := pc)" and "mpcs s t \<noteq> MCloseCh"
    and "mw_closed (mw s') = mw_closed (mw s)" and "ch_closed (mw_msgCh (mw s')) = ch_closed (mw_msgCh (mw s))"
  shows "mw_shut s'"
  using assms unfolding mw_shut_def by (metis fun_upd_other)

lemma mw_shut_step:
  assumes "mw_step s s'" and shut: "mw_shut s"
  shows "mw_shut s'"
  using assms(1)
proof cases
  case (mw_close_cas t)
  then show ?thesis by (auto simp: mw_shut_def)
next
  case (mw_close_ch t c)
  then show ?thesis by (auto simp: mw_shut_def chan_close_def split: if_splits)
next
  case (mw_select_send t m c)
  then show ?thesis by (intro mw_shutI [OF shut, of _ t MOut]) (auto simp: chan_send_def split: if_splits)
next
  case (mw_recv m c)
  with shut show ?thesis by (auto simp: mw_shut_def chan_recv_def split: list.splits)
qed (use shut mw_shutI [OF shut] in \<open>simp_all add: mw_shut_def [of "s\<lparr>panicked := True\<rparr>"] mw_shut_def [of "s\<lparr>cancelled := True\<rparr>"]
      mw_shut_def [of s]\<close>)

interpretation mws: invariant_system mw_init mw_step mw_inv
  by unfold_locales
    (auto simp: mw_inv_def intro: mw_mutex_step mw_flag_step mw_data_step mw_shut_step
      dest: mw_init_inv [unfolded mw_inv_def])

section \<open>Properties\<close>

text \<open>
  C7. No interleaving of senders, closers, the receiver and the cancellation makes the
  slot panic (no send on the closed channel, no second close of it), the one-element
  buffer is never exceeded, and every response accepted by the channel is received
  exactly once and in order or still buffered.
\<close>

theorem msgWait_never_panics:
  assumes "reach mw_init mw_step s"
  shows "\<not> panicked s \<and> length (ch_buf (mw_msgCh (mw s))) \<le> 1 \<and>
         sent s = received s @ ch_buf (mw_msgCh (mw s))"
  using mws.inv_reach [OF assms] by (simp add: mw_inv_def mw_data_def)

text \<open>A run: goroutine 0 delivers a response, goroutine 1 then closes the slot.\<close>

definition mw_msg :: Msg where
  "mw_msg = \<lparr>msg_Kind = 3, msg_Id = 1, msg_Ack = 1, msg_Payload = None\<rparr>"

definition mw_slot :: "Msg list \<Rightarrow> bool \<Rightarrow> u32 \<Rightarrow> u32 \<Rightarrow> msgWaitValue" where
  "mw_slot buf cl flag wk =
     \<lparr>mw_msgCh = \<lparr>ch_cap = 1, ch_buf = buf, ch_closed = cl\<rparr>, mw_closed = flag, mw_working = wk\<rparr>"

definition mw_at :: "msgWaitValue \<Rightarrow> mw_pc \<Rightarrow> mw_pc \<Rightarrow> Msg list \<Rightarrow> mw_state" where
  "mw_at v pc0 pc1 snt =
     \<lparr>mw = v, mpcs = (\<lambda>_. MIdle)(0 := pc0, 1 := pc1), cancelled = False,
      sent = snt, received = [], panicked = False\<rparr>"

lemma mw_at_simps [simp]:
  "mpcs (mw_at v a b l) 0 = a" "mpcs (mw_at v a b l) (Suc 0) = b" "mw (mw_at v a b l) = v"
  "sent (mw_at v a b l) = l"
  "goto (mw_at v a b l) 0 x = mw_at v x b l" "goto (mw_at v a b l) (Suc 0) y = mw_at v a y l"
  "(mw_at v a b l)\<lparr>mw := v'\<rparr> = mw_at v' a b l" "(mw_at v a b l)\<lparr>sent := l'\<rparr> = mw_at v a b l'"
  by (simp_all add: mw_at_def fun_upd_twist)

lemmas mw_run_defs = mw_slot_def mw_enter_def send_ready_def chan_send_def chan_close_def

lemma mw_run_send:
  "reach mw_init mw_step (mw_at (mw_slot [] False 0 1) (MSelect mw_msg) MIdle [])"
  "reach mw_init mw_step (mw_at (mw_slot [mw_msg] False 0 0) MIdle MIdle [mw_msg])"
proof -
  let ?s0 = "mw_at (mw_slot [] False 0 0) MIdle MIdle []"
  let ?s1 = "mw_at (mw_slot [] False 0 0) (MSpin (OpSend mw_msg)) MIdle []"
  let ?s2 = "mw_at (mw_slot [] False 0 1) (MSendIn mw_msg) MIdle []"
  let ?s3 = "mw_at (mw_slot [] False 0 1) (MSelect mw_msg) MIdle []"
  let ?s4 = "mw_at (mw_slot [mw_msg] False 0 1) MOut MIdle [mw_msg]"
  have "reach mw_init mw_step ?s0"
    by (rule reach_init)
      (auto simp: mw_run_defs mw_at_def mw_init_def newMsgWaitValue_def make_chan_def)
  moreover have "mw_step ?s0 ?s1" using mw_call [of ?s0 0 "OpSend mw_msg"] by simp
  moreover have "mw_step ?s1 ?s2" using mw_cas [of ?s1 0 "OpSend mw_msg"] by (simp add: mw_run_defs)
  moreover have "mw_step ?s2 ?s3" using mw_load [of ?s2 0 mw_msg] by (simp add: mw_run_defs)
  ultimately show r3: "reach mw_init mw_step ?s3" by (meson reach_step)
  have "mw_step ?s3 ?s4" using mw_select_send [of ?s3 0 mw_msg] by (simp add: mw_run_defs)
  moreover have "mw_step ?s4 (mw_at (mw_slot [mw_msg] False 0 0) MIdle MIdle [mw_msg])"
    using mw_release [of ?s4 0] by (simp add: mw_run_defs)
  ultimately show "reach mw_init mw_step (mw_at (mw_slot [mw_msg] False 0 0) MIdle MIdle [mw_msg])"
    using r3 by (meson reach_step)
qed

theorem msgWait_never_panics_witness:
  "reach mw_init mw_step (mw_at (mw_slot [mw_msg] False 0 0) MIdle MIdle [mw_msg]) \<and>
   \<not> panicked (mw_at (mw_slot [mw_msg] False 0 0) MIdle MIdle [mw_msg])"
  using msgWait_never_panics [OF mw_run_send(2)] mw_run_send(2) by blast

lemma mw_select_progress:
  assumes "mw_inv s" and "mpcs s t = MSelect m"
  shows "(\<exists>s'. mw_step s s' \<and> mpcs s' t \<noteq> mpcs s t) \<or>
         (\<exists>m'. ch_buf (mw_msgCh (mw s)) = [m'] \<and> \<not> cancelled s)"
proof -
  have opn: "\<not> ch_closed (mw_msgCh (mw s))" and dat: "mw_data s"
    using assms by (auto simp: mw_inv_def mw_flag_def)
  have go: "mw_step s s' \<Longrightarrow> mpcs s' t \<noteq> mpcs s t \<Longrightarrow> ?thesis" for s' by blast
  show ?thesis
  proof (cases "ch_buf (mw_msgCh (mw s))")
    case Nil
    with dat assms(2) show ?thesis
      by (intro go [OF mw_select_send]) (auto simp: send_ready_def mw_data_def go_simps opn)
  next
    case (Cons m' ms)
    with dat have "ms = []" by (simp add: mw_data_def)
    show ?thesis
    proof (cases "cancelled s")
      case True
      with assms(2) show ?thesis by (intro go [OF mw_select_cancel]) auto
    qed (use Cons \<open>ms = []\<close> in simp)
  qed
qed

lemma mw_close_progress:
  assumes "mpcs s t = MCloseIn"
  shows "\<exists>s'. mw_step s s' \<and> mpcs s' t \<noteq> mpcs s t"
proof -
  have go: "mw_step s s' \<Longrightarrow> mpcs s' t \<noteq> mpcs s t \<Longrightarrow> ?thesis" for s' by blast
  show ?thesis
  proof (cases "mw_closed (mw s) = 0")
    case True
    with assms show ?thesis by (intro go [OF mw_close_cas]) auto
  next
    case False
    with assms show ?thesis by (intro go [OF mw_close_again]) auto
  qed
qed

text \<open>
  The goroutine that holds the slot's lock can always take its next step, with one
  exception: a second response waits at the select behind a first one that nobody has
  received, while the connection is not cancelled. So the spinning callers of \<open>send\<close>
  and \<open>close\<close> are held up only as long as the buffered response is not taken.
\<close>

theorem msgWait_holder_progress:
  assumes "reach mw_init mw_step s" and "mw_inside (mpcs s t)"
  shows "(\<exists>s'. mw_step s s' \<and> mpcs s' t \<noteq> mpcs s t) \<or>
         (\<exists>m m'. mpcs s t = MSelect m \<and> ch_buf (mw_msgCh (mw s)) = [m'] \<and> \<not> cancelled s)"
proof -
  have inv: "mw_inv s" by (rule mws.inv_reach [OF assms(1)])
  have go: "mw_step s s' \<Longrightarrow> mpcs s' t \<noteq> mpcs s t \<Longrightarrow> ?thesis" for s' by blast
  show ?thesis
  proof (cases "mpcs s t")
    case (MSendIn m)
    then show ?thesis by (intro go [OF mw_load]) auto
  next
    case (MSelect m)
    from mw_select_progress [OF inv this] MSelect show ?thesis by blast
  next
    case MCloseIn
    from mw_close_progress [OF this] show ?thesis by blast
  next
    case MCloseCh
    with inv have "\<not> ch_closed (mw_msgCh (mw s))" by (auto simp: mw_inv_def mw_flag_def)
    with MCloseCh show ?thesis by (intro go [OF mw_close_ch]) (auto simp: go_simps)
  next
    case MOut
    moreover have "mw_working (mw s) = 1" using inv assms(2) by (auto simp: mw_inv_def mw_mutex_def)
    ultimately show ?thesis by (intro go [OF mw_release]) auto
  qed (use assms(2) in simp_all)
qed

theorem msgWait_holder_progress_witness:
  "\<exists>s'. mw_step (mw_at (mw_slot [] False 0 1) (MSelect mw_msg) MIdle []) s' \<and>
        mpcs s' 0 \<noteq> MSelect mw_msg"
  using msgWait_holder_progress [OF mw_run_send(1), of 0] by (simp add: mw_slot_def)

section \<open>The slot as an atomic object\<close>

text \<open>
  What \<open>HandleStream\<close> relies on: a slot is a one-element mailbox with atomic operations.
  A goroutine calls \<open>send\<close> or \<open>close\<close>, the call takes effect at one moment, and
  returns. A \<open>send\<close> fills the empty, open slot, is dropped by the closed slot, and may
  give up on the open slot once the connection is cancelled; a \<open>close\<close> leaves the slot
  closed. No operation panics.
\<close>

datatype sp_call = SpIdle | SpCalled mw_op | SpDone

record slot_spec =
  sp_buf :: "Msg option"
  sp_closed :: bool
  sp_taken :: "Msg list"
  sp_cancelled :: bool
  sp_calls :: "nat \<Rightarrow> sp_call"
  sp_panicked :: bool

definition slot_init :: "slot_spec \<Rightarrow> bool" where
  "slot_init v \<longleftrightarrow> v = \<lparr>sp_buf = None, sp_closed = False, sp_taken = [], sp_cancelled = False,
                       sp_calls = (\<lambda>_. SpIdle), sp_panicked = False\<rparr>"

abbreviation sp_goto :: "slot_spec \<Rightarrow> nat \<Rightarrow> sp_call \<Rightarrow> slot_spec" where
  "sp_goto v t c \<equiv> v\<lparr>sp_calls := (sp_calls v)(t := c)\<rparr>"

inductive slot_step :: "slot_spec \<Rightarrow> slot_spec \<Rightarrow> bool" where
  sp_invoke: "sp_calls v t = SpIdle \<Longrightarrow> slot_step v (sp_goto v t (SpCalled op))"
| sp_send: "sp_calls v t = SpCalled (OpSend m) \<Longrightarrow> \<not> sp_closed v \<Longrightarrow> sp_buf v = None \<Longrightarrow>
     slot_step v ((sp_goto v t SpDone)\<lparr>sp_buf := Some m\<rparr>)"
| sp_send_closed: "sp_calls v t = SpCalled (OpSend m) \<Longrightarrow> sp_closed v \<Longrightarrow> slot_step v (sp_goto v t SpDone)"
| sp_send_cancel: "sp_calls v t = SpCalled (OpSend m) \<Longrightarrow> \<not> sp_closed v \<Longrightarrow> sp_cancelled v \<Longrightarrow>
     slot_step v (sp_goto v t SpDone)"
| sp_close: "sp_calls v t = SpCalled OpClose \<Longrightarrow> slot_step v ((sp_goto v t SpDone)\<lparr>sp_closed := True\<rparr>)"
| sp_return: "sp_calls v t = SpDone \<Longrightarrow> slot_step v (sp_goto v t SpIdle)"
| sp_take: "sp_buf v = Some m \<Longrightarrow> slot_step v (v\<lparr>sp_buf := None, sp_taken := sp_taken v @ [m]\<rparr>)"
| sp_cancel: "slot_step v (v\<lparr>sp_cancelled := True\<rparr>)"

fun abs_call :: "mw_pc \<Rightarrow> sp_call" where
  "abs_call MIdle = SpIdle"
| "abs_call (MSpin op) = SpCalled op"
| "abs_call (MSendIn m) = SpCalled (OpSend m)"
| "abs_call (MSelect m) = SpCalled (OpSend m)"
| "abs_call MCloseIn = SpCalled OpClose"
| "abs_call MCloseCh = SpCalled OpClose"
| "abs_call MOut = SpDone"

definition slot_abs :: "mw_state \<Rightarrow> slot_spec" where
  "slot_abs s =
     \<lparr>sp_buf = (case ch_buf (mw_msgCh (mw s)) of [] \<Rightarrow> None | m # _ \<Rightarrow> Some m),
      sp_closed = ch_closed (mw_msgCh (mw s)), sp_taken = received s, sp_cancelled = cancelled s,
      sp_calls = abs_call \<circ> mpcs s, sp_panicked = panicked s\<rparr>"

lemma slot_abs_sel [simp]:
  "sp_buf (slot_abs s) = (case ch_buf (mw_msgCh (mw s)) of [] \<Rightarrow> None | m # _ \<Rightarrow> Some m)"
  "sp_closed (slot_abs s) = ch_closed (mw_msgCh (mw s))" "sp_taken (slot_abs s) = received s"
  "sp_cancelled (slot_abs s) = cancelled s" "sp_calls (slot_abs s) t = abs_call (mpcs s t)"
  "sp_panicked (slot_abs s) = panicked s"
  by (simp_all add: slot_abs_def)

lemma abs_call_upd [simp]: "abs_call \<circ> f(t := pc) = (abs_call \<circ> f)(t := abs_call pc)"
  by (simp add: fun_eq_iff)

lemma abs_call_enter [simp]: "abs_call (mw_enter op) = SpCalled op"
  by (cases op) (simp_all add: mw_enter_def)

lemma slot_abs_goto:
  "slot_abs (goto s t pc) = sp_goto (slot_abs s) t (abs_call pc)"
  "slot_abs (s\<lparr>mpcs := f, mw := (mw s)\<lparr>mw_working := w\<rparr>\<rparr>) = slot_abs (s\<lparr>mpcs := f\<rparr>)"
  "slot_abs (s\<lparr>mpcs := f, mw := (mw s)\<lparr>mw_closed := w\<rparr>\<rparr>) = slot_abs (s\<lparr>mpcs := f\<rparr>)"
  by (simp_all add: slot_abs_def)

text \<open>A goroutine inside that finds \<open>closed\<close> set finds the channel closed.\<close>

lemma mw_closed_shut:
  assumes "mw_inv s" and "mw_inside (mpcs s t)" and "mpcs s t \<noteq> MCloseCh" and "mw_closed (mw s) \<noteq> 0"
  shows "ch_closed (mw_msgCh (mw s))"
  using assms mw_mutexD [of s t] unfolding mw_inv_def mw_shut_def by (metis mw_insideD(4))

lemma slot_abs_send:
  assumes "mw_inv s" and "mpcs s t = MSelect m" and "send_ready (mw_msgCh (mw s))" and "chan_send m (mw_msgCh (mw s)) = Ret c"
  shows "slot_step (slot_abs s) (slot_abs ((goto s t MOut)\<lparr>mw := (mw s)\<lparr>mw_msgCh := c\<rparr>, sent := l\<rparr>))"
proof -
  have opn: "\<not> ch_closed (mw_msgCh (mw s))" using assms(4) by (auto simp: chan_send_def split: if_splits)
  with assms(1,3) have "ch_buf (mw_msgCh (mw s)) = []" by (simp add: send_ready_def mw_inv_def mw_data_def)
  moreover have "slot_step (slot_abs s) ((sp_goto (slot_abs s) t SpDone)\<lparr>sp_buf := Some m\<rparr>)"
    by (rule sp_send) (simp_all add: opn calculation assms(2))
  ultimately show ?thesis using assms(4) opn by (auto simp: slot_abs_def chan_send_def)
qed

lemma slot_abs_close:
  assumes "mpcs s t = MCloseCh" and "chan_close (mw_msgCh (mw s)) = Ret c"
  shows "slot_step (slot_abs s) (slot_abs ((goto s t MOut)\<lparr>mw := (mw s)\<lparr>mw_msgCh := c\<rparr>\<rparr>))"
proof -
  have "slot_step (slot_abs s) ((sp_goto (slot_abs s) t SpDone)\<lparr>sp_closed := True\<rparr>)"
    by (rule sp_close) (simp add: assms(1))
  with assms(2) show ?thesis by (auto simp: slot_abs_def chan_close_def split: if_splits)
qed

lemma slot_abs_close_again:
  assumes "mw_inv s" and "mpcs s t = MCloseIn" and "mw_closed (mw s) \<noteq> 0"
  shows "slot_step (slot_abs s) (slot_abs (goto s t MOut))"
proof -
  have "ch_closed (mw_msgCh (mw s))" using mw_closed_shut [of s t] assms by simp
  then have "slot_abs (goto s t MOut) = (sp_goto (slot_abs s) t SpDone)\<lparr>sp_closed := True\<rparr>" by (simp add: slot_abs_def)
  moreover have "slot_step (slot_abs s) ((sp_goto (slot_abs s) t SpDone)\<lparr>sp_closed := True\<rparr>)"
    by (rule sp_close) (simp add: assms(2))
  ultimately show ?thesis by simp
qed

lemma slot_abs_recv:
  assumes "mw_inv s" and "chan_recv (mw_msgCh (mw s)) = (Some m, c)"
  shows "slot_step (slot_abs s) (slot_abs (s\<lparr>mw := (mw s)\<lparr>mw_msgCh := c\<rparr>, received := received s @ [m]\<rparr>))"
proof -
  have buf: "ch_buf (mw_msgCh (mw s)) = [m]" "ch_buf c = []" "ch_closed c = ch_closed (mw_msgCh (mw s))"
    using assms by (auto simp: chan_recv_def mw_inv_def mw_data_def split: list.splits)
  have "slot_step (slot_abs s) ((slot_abs s)\<lparr>sp_buf := None, sp_taken := sp_taken (slot_abs s) @ [m]\<rparr>)"
    by (rule sp_take) (simp add: buf)
  with buf show ?thesis by (simp add: slot_abs_def)
qed

lemma slot_abs_step:
  assumes "mw_step s s'" and inv: "mw_inv s"
  shows "slot_abs s' = slot_abs s \<or> slot_step (slot_abs s) (slot_abs s')"
  using assms(1)
proof cases
  case (mw_call t op)
  then show ?thesis using sp_invoke [of "slot_abs s" t op] by (simp add: slot_abs_goto)
next
  case (mw_cas t op)
  then show ?thesis by (simp add: slot_abs_def fun_eq_iff)
next
  case (mw_load t m)
  show ?thesis
  proof (cases "mw_closed (mw s) = 1")
    case True
    with mw_load mw_closed_shut [OF inv, of t] have "ch_closed (mw_msgCh (mw s))" by simp
    with mw_load True show ?thesis using sp_send_closed [of "slot_abs s" t m] by (simp add: slot_abs_goto)
  qed (use mw_load in \<open>simp add: slot_abs_def fun_eq_iff\<close>)
next
  case (mw_select_cancel t m)
  then have "\<not> ch_closed (mw_msgCh (mw s))" using inv by (auto simp: mw_inv_def mw_flag_def)
  with mw_select_cancel show ?thesis using sp_send_cancel [of "slot_abs s" t m] by (simp add: slot_abs_goto)
next
  case (mw_select_send t m c)
  with slot_abs_send [OF inv mw_select_send(2-4)] show ?thesis by simp
next
  case (mw_select_panic t m p)
  then show ?thesis using inv by (auto simp: mw_inv_def mw_flag_def go_simps)
next
  case (mw_close_cas t)
  then show ?thesis by (simp add: slot_abs_def fun_eq_iff)
next
  case (mw_close_again t)
  with slot_abs_close_again [OF inv mw_close_again(2,3)] show ?thesis by simp
next
  case (mw_close_ch t c)
  with slot_abs_close [OF mw_close_ch(2,3)] show ?thesis by simp
next
  case (mw_close_panic t p)
  then show ?thesis using inv by (auto simp: mw_inv_def mw_flag_def go_simps)
next
  case (mw_release t)
  then show ?thesis using sp_return [of "slot_abs s" t] by (simp add: slot_abs_goto)
next
  case (mw_recv m c)
  with slot_abs_recv [OF inv mw_recv(2)] show ?thesis by simp
next
  case mw_cancel
  then show ?thesis using sp_cancel [of "slot_abs s"] by (simp add: slot_abs_def)
qed simp_all

interpretation mwr: refinement_system mw_init mw_step mw_inv slot_init slot_step slot_abs
  by unfold_locales
    (auto simp: mw_init_def slot_init_def slot_abs_def newMsgWaitValue_def make_chan_def fun_eq_iff dest: slot_abs_step)

text \<open>What follows from the mailbox alone: once it is closed, at most the buffered message is taken.\<close>

lemma slot_closed_run:
  assumes "slot_step\<^sup>*\<^sup>* v w" and "sp_closed v"
  shows "sp_closed w \<and> (sp_buf w = sp_buf v \<and> sp_taken w = sp_taken v \<or>
     (\<exists>m. sp_buf v = Some m \<and> sp_buf w = None \<and> sp_taken w = sp_taken v @ [m]))"
  using assms by (induction rule: rtranclp_induct) (auto elim!: slot_step.cases)

text \<open>
  C24. The slot is an atomic mailbox: at every step of any interleaving of senders,
  closers, receiver and cancellation, seen through its channel and the state of the calls,
  the slot does nothing observable or exactly one operation of the mailbox: a call begins;
  it takes effect, a \<open>send\<close> by filling the empty, open slot, or without effect on the
  closed slot or under cancellation, a \<open>close\<close> by leaving the slot closed; it returns; the
  buffered message is taken. No operation of the mailbox panics, and once it is closed at
  most the message buffered then is still taken.
\<close>

theorem msgWait_refines_slot:
  assumes "reach mw_init mw_step s" and "mw_step\<^sup>*\<^sup>* s s'"
  shows "reach slot_init slot_step (slot_abs s) \<and> slot_step\<^sup>*\<^sup>* (slot_abs s) (slot_abs s') \<and>
         (\<forall>u. mw_step s u \<longrightarrow> slot_abs u = slot_abs s \<or> slot_step (slot_abs s) (slot_abs u)) \<and>
         \<not> sp_panicked (slot_abs s) \<and>
         (sp_closed (slot_abs s) \<longrightarrow> sp_taken (slot_abs s') = sp_taken (slot_abs s) \<or>
            (\<exists>m. sp_buf (slot_abs s) = Some m \<and> sp_taken (slot_abs s') = sp_taken (slot_abs s) @ [m]))"
proof -
  have inv: "mw_inv s" by (rule mws.inv_reach [OF assms(1)])
  then have "\<not> sp_panicked (slot_abs s)" by (simp add: mw_inv_def mw_data_def)
  moreover have run: "slot_step\<^sup>*\<^sup>* (slot_abs s) (slot_abs s')" by (rule mwr.abs_run [OF assms(2) inv])
  ultimately show ?thesis
    using mwr.reach_abs [OF assms(1)] slot_closed_run [OF run] slot_abs_step [OF _ inv] by blast
qed

theorem msgWait_refines_slot_witness:
  "reach slot_init slot_step (slot_abs (mw_at (mw_slot [mw_msg] False 0 0) MIdle MIdle [mw_msg])) \<and>
   sp_buf (slot_abs (mw_at (mw_slot [mw_msg] False 0 0) MIdle MIdle [mw_msg])) = Some mw_msg"
  using msgWait_refines_slot [OF mw_run_send(2) rtranclp.rtrancl_refl] by (simp add: mw_slot_def)

end
