(* ===== verification/Streaming.thy ===== *)
theory Streaming
  imports Proto Spinlock
begin

text \<open>
  \<open>src/extutil\<close>: the message-send indirection of handlers (\<open>handler.go\<close>) and the
  table of stream sessions (\<open>streaming.go\<close>). The sequence queue of
  \<open>arhat.dev/pkg/queue\<close> that reorders the input of a session is outside the
  repository and a parameter.
\<close>

section \<open>Base handler\<close>

text \<open>
  The \<open>atomic.Value\<close> holds nothing or the last stored function, which may be nil. A
  send function acts on the world \<open>'w\<close>.
\<close>

type_synonym 'w send_func = "Msg \<Rightarrow> 'w \<Rightarrow> error option \<times> 'w"

record 'w BaseHandler =
  msgSendFuncStore :: "'w send_func option option"

definition NewBaseHandler :: "'w BaseHandler" where
  "NewBaseHandler = \<lparr>msgSendFuncStore = None\<rparr>"

definition SetMsgSendFunc :: "'w send_func option \<Rightarrow> 'w BaseHandler \<Rightarrow> 'w BaseHandler" where
  "SetMsgSendFunc sendMsg h = h\<lparr>msgSendFuncStore := Some sendMsg\<rparr>"

definition SendMsg :: "'w BaseHandler \<Rightarrow> Msg \<Rightarrow> 'w \<Rightarrow> error option \<times> 'w" where
  "SendMsg h msg w =
     (case msgSendFuncStore h of
        Some (Some f) \<Rightarrow> f msg w
      | _ \<Rightarrow> (Some ErrMsgSendFuncNotSet, w))"

section \<open>Streams\<close>

text \<open>
  The queue: \<open>SetMaxSeq\<close> and \<open>Offer\<close> report completion; \<open>Offer\<close> also yields
  the chunks it hands to the callback, in order.
\<close>

record 'q SeqQueue =
  q_new :: 'q
  q_SetMaxSeq :: "u64 \<Rightarrow> 'q \<Rightarrow> bool \<times> 'q"
  q_Offer :: "u64 \<Rightarrow> bytes \<Rightarrow> 'q \<Rightarrow> bool \<times> bytes list \<times> 'q"

text \<open>
  A stream records the calls made on its writer and on its resize function;
  \<open>st_noop\<close> says that the latter is \<open>noopHandleResize\<close>.
\<close>

datatype w_call = WWrite bytes | WClose

record 'q stream =
  st_q :: 'q
  st_w :: "w_call list"
  st_noop :: bool
  st_resizes :: "(u32 \<times> u32) list"

definition newStream :: "'q SeqQueue \<Rightarrow> bool \<Rightarrow> 'q stream" where
  "newStream Q noop = \<lparr>st_q = q_new Q, st_w = [], st_noop = noop, st_resizes = []\<rparr>"

definition stream_close :: "'q stream \<Rightarrow> 'q stream" where
  "stream_close s = s\<lparr>st_w := st_w s @ [WClose]\<rparr>"

definition stream_SetMaxSeq :: "'q SeqQueue \<Rightarrow> u64 \<Rightarrow> 'q stream \<Rightarrow> 'q stream" where
  "stream_SetMaxSeq Q sq s = s\<lparr>st_q := snd (q_SetMaxSeq Q sq (st_q s))\<rparr>"

definition stream_Offer :: "'q SeqQueue \<Rightarrow> u64 \<Rightarrow> bytes \<Rightarrow> 'q stream \<Rightarrow> bool \<times> 'q stream" where
  "stream_Offer Q sq dat s =
     (case q_Offer Q sq dat (st_q s) of (complete, delivered, q) \<Rightarrow>
        (complete, s\<lparr>st_q := q, st_w := st_w s @ map WWrite delivered\<rparr>))"

definition stream_write :: "'q SeqQueue \<Rightarrow> u64 \<Rightarrow> bytes \<Rightarrow> 'q stream \<Rightarrow> 'q stream" where
  "stream_write Q sq dat s =
     (case stream_Offer Q sq dat (if length dat = 0 then stream_SetMaxSeq Q sq s else s) of
        (complete, s') \<Rightarrow> if complete then stream_close s' else s')"

definition stream_resize :: "u32 \<Rightarrow> u32 \<Rightarrow> 'q stream \<Rightarrow> 'q stream" where
  "stream_resize cols rows s =
     (if st_noop s then s else s\<lparr>st_resizes := st_resizes s @ [(cols, rows)]\<rparr>)"

section \<open>Stream manager\<close>

text \<open>
  Streams live on a heap, since \<open>Write\<close> and \<open>Resize\<close> use the pointer they read
  under the lock after releasing it, when the session may already be deleted.
\<close>

record 'q StreamManager =
  sessions :: "u64 \<rightharpoonup> nat"
  streams :: "'q stream list"

definition NewStreamManager :: "'q StreamManager" where
  "NewStreamManager = \<lparr>sessions = Map.empty, streams = []\<rparr>"

definition Has :: "u64 \<Rightarrow> 'q StreamManager \<Rightarrow> bool" where
  "Has sid m \<longleftrightarrow> sessions m sid \<noteq> None"

definition upd_stream :: "nat \<Rightarrow> ('q stream \<Rightarrow> 'q stream) \<Rightarrow> 'q StreamManager \<Rightarrow> 'q StreamManager" where
  "upd_stream p f m = m\<lparr>streams := (streams m)[p := f (streams m ! p)]\<rparr>"

text \<open>
  \<open>create\<close> runs under the lock, on the caller's world; it yields an error, or a
  writer and whether the resize function is nil.
\<close>

definition Add ::
  "wellknownerrors \<Rightarrow> 'q SeqQueue \<Rightarrow> u64 \<Rightarrow> ('e \<Rightarrow> (error + bool) \<times> 'e)
     \<Rightarrow> 'q StreamManager \<Rightarrow> 'e \<Rightarrow> error option \<times> 'q StreamManager \<times> 'e" where
  "Add we Q sid create m e =
     (case sessions m sid of
        Some _ \<Rightarrow> (Some (ErrAlreadyExists we), m, e)
      | None \<Rightarrow>
          (case create e of
             (Inl err, e') \<Rightarrow> (Some err, m, e')
           | (Inr rF_nil, e') \<Rightarrow>
               (None,
                m\<lparr>sessions := (sessions m)(sid \<mapsto> length (streams m)),
                  streams := streams m @ [newStream Q rF_nil]\<rparr>, e')))"

definition Del :: "u64 \<Rightarrow> 'q StreamManager \<Rightarrow> 'q StreamManager" where
  "Del sid m =
     (case sessions m sid of
        None \<Rightarrow> m
      | Some p \<Rightarrow> (upd_stream p stream_close m)\<lparr>sessions := (sessions m)(sid := None)\<rparr>)"

definition Write :: "'q SeqQueue \<Rightarrow> u64 \<Rightarrow> u64 \<Rightarrow> bytes \<Rightarrow> 'q StreamManager \<Rightarrow> bool \<times> 'q StreamManager" where
  "Write Q sid sq dat m =
     (case sessions m sid of
        None \<Rightarrow> (False, m)
      | Some p \<Rightarrow> (True, upd_stream p (stream_write Q sq dat) m))"

definition Resize :: "u64 \<Rightarrow> u32 \<Rightarrow> u32 \<Rightarrow> 'q StreamManager \<Rightarrow> 'q StreamManager" where
  "Resize sid cols rows m =
     (case sessions m sid of None \<Rightarrow> m | Some p \<Rightarrow> upd_stream p (stream_resize cols rows) m)"

section \<open>Well-formed session tables\<close>

text \<open>
  Sessions point to distinct allocated streams, and no stream is lost: one that is no
  longer in the table has been closed.
\<close>

definition closed_stream :: "'q stream \<Rightarrow> bool" where
  "closed_stream s \<longleftrightarrow> WClose \<in> set (st_w s)"

definition sm_wf :: "'q StreamManager \<Rightarrow> bool" where
  "sm_wf m \<longleftrightarrow>
     (\<forall>sid p. sessions m sid = Some p \<longrightarrow> p < length (streams m)) \<and>
     (\<forall>sid sid' p. sessions m sid = Some p \<longrightarrow> sessions m sid' = Some p \<longrightarrow> sid = sid') \<and>
     (\<forall>p < length (streams m). (\<exists>sid. sessions m sid = Some p) \<or> closed_stream (streams m ! p))"

lemma closed_stream_simps [simp]:
  "closed_stream (stream_close s)" "\<not> closed_stream (newStream Q rF_nil)"
  "closed_stream (stream_SetMaxSeq Q sq s) \<longleftrightarrow> closed_stream s"
  "closed_stream (snd (stream_Offer Q sq dat s)) \<longleftrightarrow> closed_stream s"
  "closed_stream (stream_resize cols rows s) \<longleftrightarrow> closed_stream s"
  by (auto simp: closed_stream_def stream_close_def newStream_def stream_SetMaxSeq_def stream_Offer_def stream_resize_def
      split: prod.splits)

lemma closed_stream_write:
  assumes "closed_stream s"
  shows "closed_stream (stream_write Q sq dat s)"
proof -
  let ?s = "if length dat = 0 then stream_SetMaxSeq Q sq s else s"
  obtain complete s' where offer: "stream_Offer Q sq dat ?s = (complete, s')" by fastforce
  then have "closed_stream s'" using closed_stream_simps(4) [of Q sq dat ?s] assms by (simp split: if_splits)
  with offer show ?thesis by (simp add: stream_write_def)
qed

lemma sm_wf_new: "sm_wf NewStreamManager"
  by (simp add: sm_wf_def NewStreamManager_def)

lemma sm_wfI:
  assumes "\<And>sid p. sessions m sid = Some p \<Longrightarrow> p < length (streams m)"
    and "\<And>sid sid' p. sessions m sid = Some p \<Longrightarrow> sessions m sid' = Some p \<Longrightarrow> sid = sid'"
    and "\<And>p. p < length (streams m) \<Longrightarrow> \<forall>sid. sessions m sid \<noteq> Some p \<Longrightarrow> closed_stream (streams m ! p)"
  shows "sm_wf m"
  using assms unfolding sm_wf_def by blast

lemma sm_wfD:
  assumes "sm_wf m"
  shows "sessions m sid = Some p \<Longrightarrow> p < length (streams m)"
    and "sessions m sid = Some p \<Longrightarrow> sessions m sid' = Some p \<Longrightarrow> sid = sid'"
    and "p < length (streams m) \<Longrightarrow> \<forall>sid. sessions m sid \<noteq> Some p \<Longrightarrow> closed_stream (streams m ! p)"
  using assms unfolding sm_wf_def by blast+

lemma sm_wf_upd:
  assumes wf: "sm_wf m" and keep: "\<And>s. closed_stream s \<Longrightarrow> closed_stream (f s)"
  shows "sm_wf (upd_stream p f m)"
proof (rule sm_wfI)
  fix p'
  assume "p' < length (streams (upd_stream p f m))" "\<forall>sid. sessions (upd_stream p f m) sid \<noteq> Some p'"
  then have "p' < length (streams m)" "closed_stream (streams m ! p')"
    using sm_wfD(3) [OF wf] by (auto simp: upd_stream_def)
  then show "closed_stream (streams (upd_stream p f m) ! p')"
    using keep by (cases "p' = p") (auto simp: upd_stream_def)
qed (use sm_wfD [OF wf] in \<open>auto simp: upd_stream_def\<close>)

lemma sm_wf_insert:
  assumes wf: "sm_wf m" and new: "sessions m sid = None"
  shows "sm_wf (m\<lparr>sessions := (sessions m)(sid \<mapsto> length (streams m)), streams := streams m @ [s]\<rparr>)"
    (is "sm_wf ?m")
proof (rule sm_wfI)
  fix a p
  assume "sessions ?m a = Some p"
  then show "p < length (streams ?m)" using sm_wfD(1) [OF wf, of a p] by (auto split: if_splits)
next
  fix a b p
  assume "sessions ?m a = Some p" "sessions ?m b = Some p"
  then show "a = b"
    using sm_wfD(1) [OF wf, of a p] sm_wfD(1) [OF wf, of b p] sm_wfD(2) [OF wf, of a p b]
    by (auto split: if_splits)
next
  fix p
  assume p: "p < length (streams ?m)" "\<forall>sid. sessions ?m sid \<noteq> Some p"
  then have "p \<noteq> length (streams m)" using spec [OF p(2), of sid] by auto
  moreover have "sessions m a \<noteq> Some p" for a using spec [OF p(2), of a] new by (cases "a = sid") auto
  ultimately show "closed_stream (streams ?m ! p)"
    using p(1) sm_wfD(3) [OF wf] by (auto simp: nth_append)
qed

lemma sm_wf_remove:
  assumes wf: "sm_wf m" and ptr: "sessions m sid = Some p"
  shows "sm_wf ((upd_stream p stream_close m)\<lparr>sessions := (sessions m)(sid := None)\<rparr>)" (is "sm_wf ?m")
proof (rule sm_wfI)
  fix q
  assume q: "q < length (streams ?m)" "\<forall>a. sessions ?m a \<noteq> Some q"
  show "closed_stream (streams ?m ! q)"
  proof (cases "q = p")
    case True
    with q(1) show ?thesis by (simp add: upd_stream_def)
  next
    case False
    then have "sessions m a \<noteq> Some q" for a using spec [OF q(2), of a] ptr by (cases "a = sid") auto
    with False q(1) show ?thesis using sm_wfD(3) [OF wf] by (simp add: upd_stream_def)
  qed
qed (use sm_wfD [OF wf] in \<open>auto simp: upd_stream_def split: if_splits\<close>)

lemma Add_wf: "sm_wf m \<Longrightarrow> Add we Q sid create m e = (r, m', e') \<Longrightarrow> sm_wf m'"
  by (auto simp: Add_def split: option.splits prod.splits sum.splits intro: sm_wf_insert)

lemma Del_wf: "sm_wf m \<Longrightarrow> sm_wf (Del sid m)"
  by (auto simp: Del_def split: option.splits intro: sm_wf_remove)

lemma Write_wf: "sm_wf m \<Longrightarrow> Write Q sid sq dat m = (r, m') \<Longrightarrow> sm_wf m'"
  by (auto simp: Write_def split: option.splits intro: sm_wf_upd closed_stream_write)

lemma Resize_wf: "sm_wf m \<Longrightarrow> sm_wf (Resize sid cols rows m)"
  by (auto simp: Resize_def split: option.splits intro: sm_wf_upd closed_stream_write)

section \<open>The table as a registry\<close>

text \<open>\<open>Add\<close> with a \<open>create\<close> that succeeds, as the registration of a key.\<close>

definition sm_add :: "wellknownerrors \<Rightarrow> 'q SeqQueue \<Rightarrow> bool \<Rightarrow> u64 \<Rightarrow> 'q StreamManager \<Rightarrow> 'q StreamManager option" where
  "sm_add we Q rF_nil sid m =
     (case Add we Q sid (\<lambda>e. (Inr rF_nil, e)) m () of
        (None, m', _) \<Rightarrow> Some m' | (Some _, _, _) \<Rightarrow> None)"

interpretation smr: keyed_registry "\<lambda>m sid. Has sid m" "sm_add we Q rF_nil" Del for we Q rF_nil
  by unfold_locales
    (auto simp: sm_add_def Add_def Del_def Has_def upd_stream_def fun_eq_iff split: option.splits)

section \<open>The closures under the lock\<close>

text \<open>
  What \<open>Add\<close> (with a \<open>create\<close> that succeeds), \<open>Del\<close> and the lookup of \<open>Has\<close>,
  \<open>Write\<close>, \<open>Resize\<close> and of an \<open>Add\<close> whose \<open>create\<close> fails do inside
  \<open>doExclusive\<close>, step by step; \<open>snd\<close> of the data holds each goroutine's local result
  of the map lookup.
\<close>

type_synonym 'q sm_data = "'q StreamManager \<times> (nat \<Rightarrow> nat option)"

definition sm_lookup :: "nat \<Rightarrow> u64 \<Rightarrow> 'q sm_data \<Rightarrow> 'q sm_data" where
  "sm_lookup t sid = (\<lambda>(m, loc). (m, loc(t := sessions m sid)))"

definition sm_store :: "'q SeqQueue \<Rightarrow> bool \<Rightarrow> nat \<Rightarrow> u64 \<Rightarrow> 'q sm_data \<Rightarrow> 'q sm_data" where
  "sm_store Q rF_nil t sid = (\<lambda>(m, loc).
     case loc t of
       Some _ \<Rightarrow> (m, loc)
     | None \<Rightarrow> (m\<lparr>sessions := (sessions m)(sid \<mapsto> length (streams m)),
                  streams := streams m @ [newStream Q rF_nil]\<rparr>, loc))"

definition sm_drop :: "nat \<Rightarrow> u64 \<Rightarrow> 'q sm_data \<Rightarrow> 'q sm_data" where
  "sm_drop t sid = (\<lambda>(m, loc).
     case loc t of
       None \<Rightarrow> (m, loc)
     | Some p \<Rightarrow> ((upd_stream p stream_close m)\<lparr>sessions := (sessions m)(sid := None)\<rparr>, loc))"

definition sm_jobs :: "'q SeqQueue \<Rightarrow> nat \<Rightarrow> 'q sm_data job \<Rightarrow> bool" where
  "sm_jobs Q t job \<longleftrightarrow>
     (\<exists>sid rF_nil. job = [sm_lookup t sid, sm_store Q rF_nil t sid]) \<or>
     (\<exists>sid. job = [sm_lookup t sid, sm_drop t sid]) \<or>
     (\<exists>sid. job = [sm_lookup t sid])"

lemma sm_add_job:
  "sm_add we Q rF_nil sid m = Some m' \<Longrightarrow>
     fst (run_job [sm_lookup t sid, sm_store Q rF_nil t sid] (m, loc)) = m'"
  by (auto simp: sm_add_def Add_def run_job_def sm_lookup_def sm_store_def split: option.splits)

lemma sm_del_job: "fst (run_job [sm_lookup t sid, sm_drop t sid] (m, loc)) = Del sid m"
  by (auto simp: Del_def run_job_def sm_lookup_def sm_drop_def split: option.splits)

section \<open>The stream manager under concurrency\<close>

text \<open>
  \<open>Write\<close> and \<open>Resize\<close> go on after the lookup without the lock, on the stream they
  found, one call on its queue, writer or resize function at a time. A goroutine that
  called one of them is in the lookup, before \<open>SetMaxSeq\<close>, before \<open>Offer\<close>, before
  \<open>close\<close>, or before the resize function.
\<close>

datatype stream_op = OWrite u64 bytes | OResize u32 u32

datatype sm_pc = SNone | SLook stream_op | SMax nat u64 bytes | SOffer nat u64 bytes | SClose nat | SResize nat u32 u32

text \<open>\<open>sm_complete\<close> are the streams whose queue reported that the input is complete.\<close>

record 'q sm_sys =
  sm_lock :: "'q sm_data lock_state"
  sm_pcs :: "nat \<Rightarrow> sm_pc"
  sm_complete :: "nat set"

abbreviation sm_table :: "'q sm_sys \<Rightarrow> 'q StreamManager" where
  "sm_table s \<equiv> fst (data (sm_lock s))"

abbreviation sm_goto :: "nat \<Rightarrow> sm_pc \<Rightarrow> 'q sm_sys \<Rightarrow> 'q sm_sys" where
  "sm_goto t pc s \<equiv> s\<lparr>sm_pcs := (sm_pcs s)(t := pc)\<rparr>"

abbreviation sm_spin :: "nat \<Rightarrow> 'q sm_data job \<Rightarrow> 'q sm_sys \<Rightarrow> 'q sm_sys" where
  "sm_spin t job s \<equiv> s\<lparr>sm_lock := (sm_lock s)\<lparr>lpcs := (lpcs (sm_lock s))(t := LSpin job)\<rparr>\<rparr>"

definition sm_use :: "nat \<Rightarrow> ('q stream \<Rightarrow> 'q stream) \<Rightarrow> 'q sm_sys \<Rightarrow> 'q sm_sys" where
  "sm_use p f s = s\<lparr>sm_lock := (sm_lock s)\<lparr>data := (upd_stream p f (sm_table s), snd (data (sm_lock s)))\<rparr>\<rparr>"

definition sm_found_pc :: "nat \<Rightarrow> stream_op \<Rightarrow> sm_pc" where
  "sm_found_pc p op =
     (case op of
        OWrite sq dat \<Rightarrow> if length dat = 0 then SMax p sq dat else SOffer p sq dat
      | OResize cols rows \<Rightarrow> SResize p cols rows)"

inductive sm_step :: "'q SeqQueue \<Rightarrow> 'q sm_sys \<Rightarrow> 'q sm_sys \<Rightarrow> bool" for Q where
  sm_call: "lpcs (sm_lock s) t = LIdle \<Longrightarrow> sm_pcs s t = SNone \<Longrightarrow> sm_jobs Q t job \<Longrightarrow> sm_step Q s (sm_spin t job s)"
| sm_call_op: "lpcs (sm_lock s) t = LIdle \<Longrightarrow> sm_pcs s t = SNone \<Longrightarrow>
     sm_step Q s (sm_goto t (SLook op) (sm_spin t [sm_lookup t sid] s))"
| sm_excl: "doExclusive_step (\<lambda>_ _. False) (sm_lock s) l \<Longrightarrow> sm_step Q s (s\<lparr>sm_lock := l\<rparr>)"
| sm_absent: "lpcs (sm_lock s) t = LIdle \<Longrightarrow> sm_pcs s t = SLook op \<Longrightarrow> snd (data (sm_lock s)) t = None \<Longrightarrow>
     sm_step Q s (sm_goto t SNone s)"
| sm_found: "lpcs (sm_lock s) t = LIdle \<Longrightarrow> sm_pcs s t = SLook op \<Longrightarrow> snd (data (sm_lock s)) t = Some p \<Longrightarrow>
     sm_step Q s (sm_goto t (sm_found_pc p op) s)"
| sm_SetMaxSeq: "sm_pcs s t = SMax p sq dat \<Longrightarrow>
     sm_step Q s (sm_goto t (SOffer p sq dat) (sm_use p (stream_SetMaxSeq Q sq) s))"
| sm_Offer: "sm_pcs s t = SOffer p sq dat \<Longrightarrow> \<not> fst (stream_Offer Q sq dat (streams (sm_table s) ! p)) \<Longrightarrow>
     sm_step Q s (sm_goto t SNone (sm_use p (snd \<circ> stream_Offer Q sq dat) s))"
| sm_Offer_complete: "sm_pcs s t = SOffer p sq dat \<Longrightarrow> fst (stream_Offer Q sq dat (streams (sm_table s) ! p)) \<Longrightarrow>
     sm_step Q s (sm_goto t (SClose p) (sm_use p (snd \<circ> stream_Offer Q sq dat) (s\<lparr>sm_complete := insert p (sm_complete s)\<rparr>)))"
| sm_close: "sm_pcs s t = SClose p \<Longrightarrow> sm_step Q s (sm_goto t SNone (sm_use p stream_close s))"
| sm_resize: "sm_pcs s t = SResize p cols rows \<Longrightarrow>
     sm_step Q s (sm_goto t SNone (sm_use p (stream_resize cols rows) s))"

definition sm_start :: "'q sm_sys" where
  "sm_start =
     \<lparr>sm_lock = \<lparr>working = 0, data = (NewStreamManager, \<lambda>_. None), lpcs = (\<lambda>_. LIdle), hist = []\<rparr>,
      sm_pcs = (\<lambda>_. SNone), sm_complete = {}\<rparr>"

text \<open>The table under the lock: what holds inside a closure, and what is done outside.\<close>

definition sm_at :: "'q SeqQueue \<Rightarrow> nat \<Rightarrow> 'q sm_data job \<Rightarrow> 'q sm_data job \<Rightarrow> 'q sm_data \<Rightarrow> bool" where
  "sm_at Q t dn rest d \<longleftrightarrow>
     sm_wf (fst d) \<and> sm_jobs Q t (dn @ rest) \<and>
     (\<forall>sid f. dn = [sm_lookup t sid] \<and> rest = [f] \<longrightarrow> snd d t = sessions (fst d) sid)"

definition sm_other :: "'q sm_data \<Rightarrow> 'q sm_data \<Rightarrow> bool" where
  "sm_other d d' \<longleftrightarrow>
     (\<exists>p f. (\<forall>x. closed_stream x \<longrightarrow> closed_stream (f x)) \<and> d' = (upd_stream p f (fst d), snd d))"

lemma sm_at_cases:
  assumes "sm_at Q t dn (f # rest) d"
  obtains (lookup) sid where "dn = []" "f = sm_lookup t sid"
  | (store) sid rF_nil where "dn = [sm_lookup t sid]" "rest = []" "f = sm_store Q rF_nil t sid" "snd d t = sessions (fst d) sid"
  | (drop) sid where "dn = [sm_lookup t sid]" "rest = []" "f = sm_drop t sid" "snd d t = sessions (fst d) sid"
  using assms by (auto simp: sm_at_def sm_jobs_def append_eq_Cons_conv)

lemma sm_at_body:
  assumes "sm_at Q t dn (f # rest) d"
  shows "sm_at Q t (dn @ [f]) rest (f d)"
proof -
  obtain m loc where d: "d = (m, loc)" by fastforce
  have wf: "sm_wf m" and job: "sm_jobs Q t ((dn @ [f]) @ rest)" using assms by (auto simp: sm_at_def d)
  from assms show ?thesis
  proof (cases rule: sm_at_cases)
    case (lookup sid)
    have "snd (f d) t = sessions (fst (f d)) sid'" if "f = sm_lookup t sid'" for sid'
      unfolding that by (simp add: d sm_lookup_def)
    moreover have "sm_wf (fst (f d))" unfolding lookup(2) using wf by (simp add: d sm_lookup_def)
    ultimately show ?thesis using job lookup(1) by (auto simp: sm_at_def)
  next
    case (store sid rF_nil)
    then have "sm_wf (fst (f d))" using wf by (auto simp: d sm_store_def intro: sm_wf_insert split: option.splits)
    with job store(1,2) show ?thesis by (simp add: sm_at_def)
  next
    case (drop sid)
    then have "sm_wf (fst (f d))" using wf by (auto simp: d sm_drop_def intro: sm_wf_remove split: option.splits)
    with job drop(1,2) show ?thesis by (simp add: sm_at_def)
  qed
qed

lemma upd_stream_sel [simp]:
  "sessions (upd_stream p f m) = sessions m" "length (streams (upd_stream p f m)) = length (streams m)"
  by (simp_all add: upd_stream_def)

interpretation smx: exclusive_jobs "\<lambda>_. Some 0" "sm_jobs Q" sm_other "sm_at Q" "sm_wf \<circ> fst" for Q
proof
  show "sm_at Q t dn (f # rest) d \<Longrightarrow> sm_at Q t (dn @ [f]) rest (f d)" for t dn f rest and d :: "'a sm_data"
    by (rule sm_at_body)
  show "sm_other d d' \<Longrightarrow> sm_at Q t dn rest d \<Longrightarrow> sm_at Q t dn rest d'" for t dn rest and d d' :: "'a sm_data"
    by (auto simp: sm_other_def sm_at_def intro!: sm_wf_upd)
qed (auto simp: sm_at_def sm_other_def intro!: sm_wf_upd)

text \<open>The lock's part of a run is a run of the lock with steps outside it.\<close>

lemma doExclusive_jobs: "doExclusive_step (\<lambda>_ _. False) l l' \<Longrightarrow> lock_step (\<lambda>_. Some 0) jobs l l'"
  unfolding doExclusive_step_def by (erule lock_step.cases) (auto intro: lock_step.intros)

lemma sm_use_excl:
  assumes "\<And>x. closed_stream x \<Longrightarrow> closed_stream (f x)"
  shows "excl_step (\<lambda>_. Some 0) (sm_jobs Q) sm_other (sm_lock s) (sm_lock (sm_use p f s))"
proof -
  have "sm_other (data (sm_lock s)) (upd_stream p f (sm_table s), snd (data (sm_lock s)))"
    using assms by (auto simp: sm_other_def)
  from excl_other [of sm_other, OF this] show ?thesis by (simp add: sm_use_def)
qed

lemma sm_step_excl:
  assumes "sm_step Q s s'"
  shows "excl_step (\<lambda>_. Some 0) (sm_jobs Q) sm_other (sm_lock s) (sm_lock s') \<or> sm_lock s' = sm_lock s"
  using assms
proof cases
  case (sm_call t job)
  then show ?thesis using excl_lock [OF lock_call [of "sm_lock s" t "sm_jobs Q" job]] by simp
next
  case (sm_call_op t op sid)
  have "sm_jobs Q t [sm_lookup t sid]" by (auto simp: sm_jobs_def)
  with sm_call_op show ?thesis using excl_lock [OF lock_call [of "sm_lock s" t "sm_jobs Q" "[sm_lookup t sid]"]] by simp
next
  case (sm_excl l)
  then show ?thesis using excl_lock [OF doExclusive_jobs [OF sm_excl(2)]] by simp
next
  case (sm_SetMaxSeq t p sq dat)
  then show ?thesis using sm_use_excl [of "stream_SetMaxSeq Q sq" Q s p] by simp
next
  case (sm_Offer t p sq dat)
  then show ?thesis using sm_use_excl [of "snd \<circ> stream_Offer Q sq dat" Q s p] by simp
next
  case (sm_Offer_complete t p sq dat)
  then show ?thesis using sm_use_excl [of "snd \<circ> stream_Offer Q sq dat" Q s p] by (simp add: sm_use_def)
next
  case (sm_close t p)
  then show ?thesis using sm_use_excl [of stream_close Q s p] by simp
next
  case (sm_resize t p cols rows)
  then show ?thesis using sm_use_excl [of "stream_resize cols rows" Q s p] by simp
qed simp_all

text \<open>
  A stream in the table is open unless its input is complete, and only such a stream is
  closed outside the lock; pointers are to allocated streams.
\<close>

definition table_live :: "nat set \<Rightarrow> 'q StreamManager \<Rightarrow> bool" where
  "table_live C m \<longleftrightarrow> (\<forall>sid p. sessions m sid = Some p \<longrightarrow> p \<in> C \<or> \<not> closed_stream (streams m ! p))"

fun sm_ptr :: "sm_pc \<Rightarrow> nat option" where
  "sm_ptr (SMax p sq dat) = Some p"
| "sm_ptr (SOffer p sq dat) = Some p"
| "sm_ptr (SClose p) = Some p"
| "sm_ptr (SResize p cols rows) = Some p"
| "sm_ptr _ = None"

definition sm_ptrs :: "'q sm_sys \<Rightarrow> bool" where
  "sm_ptrs s \<longleftrightarrow>
     (\<forall>t p. snd (data (sm_lock s)) t = Some p \<or> sm_ptr (sm_pcs s t) = Some p \<longrightarrow> p < length (streams (sm_table s))) \<and>
     (\<forall>t p. sm_pcs s t = SClose p \<longrightarrow> p \<in> sm_complete s) \<and> sm_complete s \<subseteq> {..<length (streams (sm_table s))}"

definition sm_inv :: "'q SeqQueue \<Rightarrow> 'q sm_sys \<Rightarrow> bool" where
  "sm_inv Q s \<longleftrightarrow>
     excl_inv (sm_jobs Q) (sm_at Q) (sm_wf \<circ> fst) (sm_lock s) \<and> table_live (sm_complete s) (sm_table s) \<and> sm_ptrs s"

lemma table_live_upd:
  assumes "table_live C m" and "\<And>x. closed_stream (f x) \<Longrightarrow> closed_stream x \<or> p \<in> C"
  shows "table_live C (upd_stream p f m)"
  unfolding table_live_def
proof (intro allI impI)
  fix sid q
  assume "sessions (upd_stream p f m) sid = Some q"
  then have "q \<in> C \<or> \<not> closed_stream (streams m ! q)" using assms(1) by (simp add: table_live_def)
  with assms(2) show "q \<in> C \<or> \<not> closed_stream (streams (upd_stream p f m) ! q)"
    by (cases "q = p \<and> p < length (streams m)") (auto simp: upd_stream_def nth_list_update list_update_beyond not_less)
qed

lemma table_live_body:
  assumes at: "sm_at Q t dn (f # rest) d" and live: "table_live C (fst d)"
  shows "table_live C (fst (f d)) \<and> length (streams (fst d)) \<le> length (streams (fst (f d))) \<and>
     (\<forall>t p. snd (f d) t = Some p \<longrightarrow> snd d t = Some p \<or> p < length (streams (fst (f d))))"
proof -
  obtain m loc where d: "d = (m, loc)" by fastforce
  have wf: "sm_wf m" using at by (simp add: sm_at_def d)
  from at show ?thesis
  proof (cases rule: sm_at_cases)
    case (lookup sid)
    show ?thesis unfolding lookup(2) using live sm_wfD(1) [OF wf] by (auto simp: d sm_lookup_def)
  next
    case (store sid rF_nil)
    have "table_live C (m\<lparr>sessions := (sessions m)(sid \<mapsto> length (streams m)), streams := streams m @ [newStream Q rF_nil]\<rparr>)"
      using live sm_wfD(1) [OF wf] by (auto simp: d table_live_def nth_append)
    with live show ?thesis unfolding store(3) by (auto simp: d sm_store_def split: option.splits)
  next
    case (drop sid)
    have "table_live C ((upd_stream p stream_close m)\<lparr>sessions := (sessions m)(sid := None)\<rparr>)" if "sessions m sid = Some p" for p
    proof -
      have "p \<noteq> q" if "sessions m a = Some q" "a \<noteq> sid" for a q
        using sm_wfD(2) [OF wf that(1), of sid] \<open>sessions m sid = Some p\<close> that by auto
      then show ?thesis using live by (auto simp: d table_live_def upd_stream_def)
    qed
    with live drop(4) show ?thesis unfolding drop(3) by (auto simp: d sm_drop_def split: option.splits)
  qed
qed

lemma sm_use_sel [simp]:
  "sm_pcs (sm_use p f s) = sm_pcs s" "sm_complete (sm_use p f s) = sm_complete s"
  "sm_table (sm_use p f s) = upd_stream p f (sm_table s)" "snd (data (sm_lock (sm_use p f s))) = snd (data (sm_lock s))"
  by (simp_all add: sm_use_def)

lemma sm_excl_live:
  assumes "doExclusive_step (\<lambda>_ _. False) l l'" and inv: "excl_inv (sm_jobs Q) (sm_at Q) (sm_wf \<circ> fst) l" and live: "table_live C (fst (data l))"
  shows "table_live C (fst (data l')) \<and> length (streams (fst (data l))) \<le> length (streams (fst (data l'))) \<and>
     (\<forall>t p. snd (data l') t = Some p \<longrightarrow> snd (data l) t = Some p \<or> p < length (streams (fst (data l'))))"
  using assms(1) unfolding doExclusive_step_def
proof cases
  case (lock_body t dn f rest)
  then show ?thesis using table_live_body [OF _ live, of Q t dn f rest] excl_inv_in [OF inv lock_body(2)] by simp
qed (use live in simp_all)

lemma sm_ptrsD: "sm_ptrs s \<Longrightarrow> sm_ptr (sm_pcs s t) = Some p \<Longrightarrow> p < length (streams (sm_table s))"
  unfolding sm_ptrs_def by blast

lemma sm_found_ptr: "sm_ptr (sm_found_pc p op) = Some p" "sm_found_pc p op \<noteq> SClose q"
  by (simp_all add: sm_found_pc_def split: stream_op.splits)

lemma sm_step_live:
  assumes "sm_step Q s s'" and inv: "sm_inv Q s"
  shows "table_live (sm_complete s') (sm_table s') \<and> sm_ptrs s'"
proof -
  have live: "table_live (sm_complete s) (sm_table s)" and ptr: "sm_ptrs s"
    and lock: "excl_inv (sm_jobs Q) (sm_at Q) (sm_wf \<circ> fst) (sm_lock s)" using inv by (auto simp: sm_inv_def)
  from assms(1) show ?thesis
  proof cases
    case (sm_excl l)
    with sm_excl_live [OF sm_excl(2) lock live] ptr show ?thesis by (fastforce simp: sm_ptrs_def)
  next
    case (sm_found t op p)
    with live ptr show ?thesis by (auto simp: sm_ptrs_def sm_found_ptr)
  next
    case (sm_Offer_complete t p sq dat)
    have "table_live (insert p (sm_complete s)) (sm_table s)" using live by (auto simp: table_live_def)
    from table_live_upd [OF this, of "snd \<circ> stream_Offer Q sq dat" p] have "table_live (sm_complete s') (sm_table s')"
      by (simp add: sm_Offer_complete(1))
    moreover have "p < length (streams (sm_table s))" using sm_ptrsD [OF ptr, of t] sm_Offer_complete(2) by simp
    ultimately show ?thesis using ptr by (auto simp: sm_Offer_complete(1) sm_ptrs_def)
  next
    case (sm_close t p)
    then have "p \<in> sm_complete s" using ptr by (auto simp: sm_ptrs_def)
    with sm_close ptr table_live_upd [OF live, of stream_close p] show ?thesis by (auto simp: sm_ptrs_def)
  next
    case (sm_SetMaxSeq t p sq dat)
    moreover have "p < length (streams (sm_table s))" using sm_ptrsD [OF ptr, of t] sm_SetMaxSeq(2) by simp
    ultimately show ?thesis using ptr table_live_upd [OF live, of "stream_SetMaxSeq Q sq" p] by (auto simp: sm_ptrs_def)
  next
    case (sm_Offer t p sq dat)
    with ptr table_live_upd [OF live, of "snd \<circ> stream_Offer Q sq dat" p] show ?thesis by (auto simp: sm_ptrs_def)
  next
    case (sm_resize t p cols rows)
    with ptr table_live_upd [OF live, of "stream_resize cols rows" p] show ?thesis by (auto simp: sm_ptrs_def)
  qed (use live ptr in \<open>auto simp: sm_ptrs_def\<close>)
qed

interpretation sms: invariant_system "\<lambda>s. s = sm_start" "sm_step Q" "sm_inv Q" for Q
proof
  fix s s' :: "'a sm_sys"
  show "s = sm_start \<Longrightarrow> sm_inv Q s"
    using sm_wf_new by (auto simp: sm_inv_def sm_start_def excl_inv_def table_live_def sm_ptrs_def NewStreamManager_def)
  assume step: "sm_step Q s s'" and inv: "sm_inv Q s"
  then have "excl_inv (sm_jobs Q) (sm_at Q) (sm_wf \<circ> fst) (sm_lock s')"
    using sm_step_excl [OF step] smx.excl_step_inv [of Q "sm_lock s" "sm_lock s'"] by (auto simp: sm_inv_def)
  with sm_step_live [OF step inv] show "sm_inv Q s'" by (simp add: sm_inv_def)
qed

lemma sm_inv_wf:
  assumes "sm_inv Q s"
  shows "sm_wf (sm_table s)"
proof -
  have "excl_inv (sm_jobs Q) (sm_at Q) (sm_wf \<circ> fst) (sm_lock s)" using assms by (simp add: sm_inv_def)
  then show ?thesis by (cases rule: excl_invE) (auto simp: sm_at_def)
qed

section \<open>Properties\<close>

text \<open>
  C8. Stream sessions under concurrency: whatever goroutines call \<open>Add\<close>, \<open>Del\<close>,
  \<open>Has\<close>, \<open>Write\<close> and \<open>Resize\<close>, however their closures interleave, and although
  \<open>Write\<close> and \<open>Resize\<close> use the stream they found after they have released the lock: at
  every moment the sessions point to distinct allocated streams; a stream in the table has
  not been closed, unless the queue of this very stream reported to a \<open>Write\<close> that its
  input is complete; every stream that is no longer in the table has been closed (no writer
  leaks, in particular not when two goroutines add the same session at once); and every
  goroutine still using a stream holds an allocated one.
\<close>

theorem sessions_never_leak:
  assumes "reach (\<lambda>s. s = sm_start) (sm_step Q) s"
  shows "sm_wf (sm_table s) \<and>
         (\<forall>sid p. sessions (sm_table s) sid = Some p \<longrightarrow> p \<in> sm_complete s \<or> \<not> closed_stream (streams (sm_table s) ! p)) \<and>
         (\<forall>t p. sm_ptr (sm_pcs s t) = Some p \<longrightarrow> p < length (streams (sm_table s)))"
proof -
  have inv: "sm_inv Q s" by (rule sms.inv_reach [OF assms])
  with sm_inv_wf [OF inv] show ?thesis by (auto simp: sm_inv_def table_live_def sm_ptrs_def)
qed

definition seqq_example :: "nat SeqQueue" where
  "seqq_example = \<lparr>q_new = 0, q_SetMaxSeq = (\<lambda>_ q. (False, q)), q_Offer = (\<lambda>_ d q. (d = [], [d], Suc q))\<rparr>"

text \<open>A run: one goroutine adds session 7, another one begins to write to it.\<close>

definition sm_example :: "u32 \<Rightarrow> nat sm_data \<Rightarrow> nat sm_data lock_pc \<Rightarrow> nat sm_data job list \<Rightarrow> sm_pc \<Rightarrow> nat sm_sys" where
  "sm_example w d l h pc =
     \<lparr>sm_lock = \<lparr>working = w, data = d, lpcs = (\<lambda>_. LIdle)(0 := l), hist = h\<rparr>, sm_pcs = (\<lambda>_. SNone)(0 := pc), sm_complete = {}\<rparr>"

abbreviation sm_added :: "nat StreamManager" where
  "sm_added \<equiv> \<lparr>sessions = [7 \<mapsto> 0], streams = [newStream seqq_example True]\<rparr>"

lemma sm_example_job:
  assumes "reach (\<lambda>s. s = sm_start) (sm_step seqq_example) (sm_example 0 d (LSpin job) h pc)"
  shows "reach (\<lambda>s. s = sm_start) (sm_step seqq_example) (sm_example 0 (run_job job d) LIdle (h @ [job]) pc)"
proof -
  have excl: "reach (\<lambda>s. s = sm_start) (sm_step seqq_example) (sm_example w' d' l' h' pc)"
    if "reach (\<lambda>s. s = sm_start) (sm_step seqq_example) (sm_example w d l h pc)"
      "lock_step (\<lambda>_. Some 0) (\<lambda>_ _. False) (sm_lock (sm_example w d l h pc)) (sm_lock (sm_example w' d' l' h' pc))" for w w' d d' l l' h h'
    using reach_step [OF that(1) sm_excl [of "sm_example w d l h pc" "sm_lock (sm_example w' d' l' h' pc)"]] that(2)
    by (simp add: doExclusive_step_def sm_example_def)
  have inside: "reach (\<lambda>s. s = sm_start) (sm_step seqq_example) (sm_example 1 (run_job rest d) (LIn (dn @ rest) []) h pc)"
    if "reach (\<lambda>s. s = sm_start) (sm_step seqq_example) (sm_example 1 d (LIn dn rest) h pc)" for dn rest d
    using that
  proof (induction rest arbitrary: dn d)
    case (Cons f rest)
    have "lock_step (\<lambda>_. Some 0) (\<lambda>_ _. False) (sm_lock (sm_example 1 d (LIn dn (f # rest)) h pc))
        (sm_lock (sm_example 1 (f d) (LIn (dn @ [f]) rest) h pc))"
      using lock_body [of "sm_lock (sm_example 1 d (LIn dn (f # rest)) h pc)" 0 dn f rest] by (simp add: sm_example_def)
    from Cons.IH [OF excl [OF Cons.prems this]] show ?case by (simp add: run_job_def)
  qed simp
  have "lock_step (\<lambda>_. Some 0) (\<lambda>_ _. False) (sm_lock (sm_example 0 d (LSpin job) h pc)) (sm_lock (sm_example 1 d (LIn [] job) h pc))"
    using lock_cas [of "sm_lock (sm_example 0 d (LSpin job) h pc)" 0 job] by (simp add: sm_example_def)
  from inside [OF excl [OF assms this]]
  have "reach (\<lambda>s. s = sm_start) (sm_step seqq_example) (sm_example 1 (run_job job d) (LIn job []) h pc)" by simp
  moreover have "lock_step (\<lambda>_. Some 0) (\<lambda>_ _. False) (sm_lock (sm_example 1 (run_job job d) (LIn job []) h pc))
      (sm_lock (sm_example 0 (run_job job d) LIdle (h @ [job]) pc))"
    using lock_release [of "sm_lock (sm_example 1 (run_job job d) (LIn job []) h pc)" 0 job "\<lambda>_. Some 0" 0]
    by (simp add: sm_example_def)
  ultimately show ?thesis by (rule excl)
qed

theorem sessions_never_leak_witness:
  "\<exists>s. reach (\<lambda>s. s = sm_start) (sm_step seqq_example) s \<and> sm_pcs s 0 = SOffer 0 1 [5] \<and>
       sessions (sm_table s) 7 = Some 0 \<and> \<not> closed_stream (streams (sm_table s) ! 0)"
proof -
  let ?R = "reach (\<lambda>s. s = sm_start) (sm_step seqq_example)" and ?d0 = "(NewStreamManager, \<lambda>_. None) :: nat sm_data"
  let ?add = "[sm_lookup 0 7, sm_store seqq_example True 0 7]" and ?look = "[sm_lookup 0 7] :: nat sm_data job"
  let ?d1 = "(sm_added, (\<lambda>_. None)(0 := None))" and ?d2 = "(sm_added, (\<lambda>_. None)(0 := Some 0))"
  have "?R (sm_example 0 ?d0 LIdle [] SNone)" by (rule reach_init) (simp add: sm_example_def sm_start_def fun_upd_idem)
  moreover have "sm_step seqq_example (sm_example 0 ?d0 LIdle [] SNone) (sm_example 0 ?d0 (LSpin ?add) [] SNone)"
    using sm_call [of "sm_example 0 ?d0 LIdle [] SNone" 0 seqq_example ?add] by (auto simp: sm_example_def sm_jobs_def)
  ultimately have "?R (sm_example 0 (run_job ?add ?d0) LIdle ([] @ [?add]) SNone)" by (intro sm_example_job) (rule reach_step)
  then have "?R (sm_example 0 ?d1 LIdle [?add] SNone)"
    by (simp add: run_job_def sm_lookup_def sm_store_def NewStreamManager_def)
  moreover have "sm_step seqq_example (sm_example 0 ?d1 LIdle [?add] SNone) (sm_example 0 ?d1 (LSpin ?look) [?add] (SLook (OWrite 1 [5])))"
    using sm_call_op [of "sm_example 0 ?d1 LIdle [?add] SNone" 0 seqq_example 7 "OWrite 1 [5]"] by (simp add: sm_example_def)
  ultimately have "?R (sm_example 0 (run_job ?look ?d1) LIdle ([?add] @ [?look]) (SLook (OWrite 1 [5])))"
    by (intro sm_example_job) (rule reach_step)
  then have "?R (sm_example 0 ?d2 LIdle [?add, ?look] (SLook (OWrite 1 [5])))" by (simp add: run_job_def sm_lookup_def)
  moreover have "sm_step seqq_example (sm_example 0 ?d2 LIdle [?add, ?look] (SLook (OWrite 1 [5])))
      (sm_example 0 ?d2 LIdle [?add, ?look] (SOffer 0 1 [5]))"
    using sm_found [of "sm_example 0 ?d2 LIdle [?add, ?look] (SLook (OWrite 1 [5]))" 0 "OWrite 1 [5]" 0 seqq_example]
    by (simp add: sm_example_def sm_found_pc_def)
  ultimately have r: "?R (sm_example 0 ?d2 LIdle [?add, ?look] (SOffer 0 1 [5]))" by (rule reach_step)
  from sessions_never_leak [OF r] have "\<not> closed_stream (streams sm_added ! 0)"
    by (simp add: sm_example_def split: if_splits)
  with r show ?thesis
    by (intro exI [of _ "sm_example 0 ?d2 LIdle [?add, ?look] (SOffer 0 1 [5])"]) (simp add: sm_example_def)
qed

text \<open>
  The session table refines a set of session ids: every sequence of \<open>Add\<close> (whose
  \<open>create\<close> succeeds), \<open>Del\<close> and \<open>Has\<close> calls returns what the set returns (an
  \<open>Add\<close> succeeds exactly for an absent id), and ends with the set's ids as sessions.
\<close>

theorem sessions_refine_set:
  "reg_run (\<lambda>m sid. Has sid m) (sm_add we Q rF_nil) Del m ops = (rs, m') \<Longrightarrow>
     set_run {sid. Has sid m} ops = (rs, {sid. Has sid m'})"
  by (rule smr.reg_run_refines)

definition we_example :: wellknownerrors where
  "we_example = \<lparr>ErrAlreadyExists = ExtErr ''already exists'', ErrNotFound = ExtErr ''not found''\<rparr>"

theorem sessions_refine_set_witness:
  "\<exists>m'. reg_run (\<lambda>m sid. Has sid m) (sm_add we_example seqq_example True) Del NewStreamManager
      [RegAdd 1, RegAdd 1, RegDel 1, RegAdd 1, RegHas 2] = ([True, False, True, True, False], m') \<and>
    {sid. Has sid m'} = {1}"
proof -
  obtain rs m' where r: "reg_run (\<lambda>m sid. Has sid m) (sm_add we_example seqq_example True) Del NewStreamManager
      [RegAdd 1, RegAdd 1, RegDel 1, RegAdd 1, RegHas 2] = (rs, m')" by fastforce
  have "{sid. Has sid (NewStreamManager :: nat StreamManager)} = {}"
    by (simp add: Has_def NewStreamManager_def)
  with sessions_refine_set [OF r] r show ?thesis by auto
qed

text \<open>
  Input to one session never touches another, and none is accepted after the
  session is gone: \<open>Write\<close> reports whether the session exists, changes no table entry
  and only the addressed stream; after \<open>Del\<close> it is refused, and the deleted stream's
  writer got a final \<open>Close\<close>.
\<close>

theorem Write_isolated:
  assumes "sm_wf m"
  shows "fst (Write Q sid sq dat m) = Has sid m \<and>
         sessions (snd (Write Q sid sq dat m)) = sessions m \<and>
         (\<forall>sid' p. sid' \<noteq> sid \<and> sessions m sid' = Some p \<longrightarrow>
            streams (snd (Write Q sid sq dat m)) ! p = streams m ! p) \<and>
         Write Q sid sq dat (Del sid m) = (False, Del sid m) \<and>
         (\<forall>p. sessions m sid = Some p \<longrightarrow> streams (Del sid m) ! p = stream_close (streams m ! p))"
  using sm_wfD [OF assms]
  by (auto simp: Write_def Has_def Del_def upd_stream_def nth_list_update split: option.splits)

theorem Write_isolated_witness:
  "\<exists>m. sm_wf m \<and> Has 1 m \<and> fst (Write seqq_example 1 0 [5] m) \<and>
       Write seqq_example 1 1 [6] (Del 1 m) = (False, Del 1 m)"
proof -
  obtain m where m: "sm_add we_example seqq_example True 1 NewStreamManager = Some m" and "Has 1 m"
    using smr.add_new [of 1 NewStreamManager]
    by (fastforce simp: Has_def NewStreamManager_def fun_eq_iff)
  then have "sm_wf m"
    using Add_wf [OF sm_wf_new] by (fastforce simp: sm_add_def split: prod.splits option.splits)
  from Write_isolated [OF this, of seqq_example 1 0 "[5]"] Write_isolated [OF this, of seqq_example 1 1 "[6]"]
    this \<open>Has 1 m\<close> show ?thesis by blast
qed

end
