(* ===== verification/Controller.thy ===== *)
theory Controller
  imports Streaming
begin

text \<open>
  \<open>src/controller.go\<close>, \<open>src/channel_bundle.go\<close> and the handler interface of
  \<open>src/types/handler.go\<close>. First the command loop of one session as a function on the
  commands of its channel; then the controller as a transition system in which the
  session goroutine, the handler's own goroutines, the client and the callers of
  \<open>RefreshChannels\<close> and \<open>Close\<close> interleave at every channel operation, except that
  what \<open>RefreshChannels\<close> does under its mutex is one step, and so is the \<open>Close\<close> of a
  bundle.
\<close>

section \<open>The command loop of a session\<close>

text \<open>
  \<open>HandleCmd\<close> yields a message kind, an optional body (nil for an asynchronous
  operation) and an optional error; it acts on the handler's state and may panic.
\<close>

type_synonym 'v reply = "int32 \<times> 'v body option \<times> error option"
type_synonym ('s, 'v) handle_func = "Cmd \<Rightarrow> 's \<Rightarrow> ('v reply \<times> 's) outcome"

definition reply_body :: "'v reply \<Rightarrow> 'v body option" where
  "reply_body r =
     (case r of (_, ret, err) \<Rightarrow>
        case err of Some e \<Rightarrow> Some (ErrorMsg (err_string e)) | None \<Rightarrow> ret)"

text \<open>One iteration of \<open>for cmd := range cb.cmdCh\<close>: the error ends the loop.\<close>

definition session_cmd ::
  "('v body \<Rightarrow> error + bytes) \<Rightarrow> ('s, 'v) handle_func \<Rightarrow> 'w send_func \<Rightarrow> Cmd \<Rightarrow> 's \<Rightarrow> 'w
     \<Rightarrow> (error option \<times> 's \<times> 'w) outcome" where
  "session_cmd marshal handle sendMsg cmd s w =
     bind_outcome (handle cmd s) (\<lambda>(r, s').
       case reply_body r of
         None \<Rightarrow> Ret (None, s', w)
       | Some ret \<Rightarrow>
           (case NewMsg marshal (fst r) (cmd_Id cmd) (cmd_Seq cmd) ret of
              Inl _ \<Rightarrow> Ret (Some (Errorf ''failed to marshal response msg''), s', w)
            | Inr msg \<Rightarrow> (case sendMsg msg w of (e, w') \<Rightarrow> Ret (e, s', w'))))"

fun session_loop ::
  "('v body \<Rightarrow> error + bytes) \<Rightarrow> ('s, 'v) handle_func \<Rightarrow> 'w send_func \<Rightarrow> Cmd list \<Rightarrow> 's \<Rightarrow> 'w
     \<Rightarrow> (error option \<times> 's \<times> 'w) outcome" where
  "session_loop marshal handle sendMsg [] s w = Ret (None, s, w)"
| "session_loop marshal handle sendMsg (cmd # cmds) s w =
     bind_outcome (session_cmd marshal handle sendMsg cmd s w) (\<lambda>(e, s', w').
       case e of
         Some err \<Rightarrow> Ret (Some err, s', w')
       | None \<Rightarrow> session_loop marshal handle sendMsg cmds s' w')"

text \<open>A send function that reaches an open connection: the message is appended.\<close>

definition send_append :: "Msg list send_func" where
  "send_append msg w = (None, w @ [msg])"

lemma session_cmd_handled:
  assumes "session_cmd marshal handle sendMsg cmd s w = Ret (er, s', w')"
  shows "\<exists>r. handle cmd s = Ret (r, s')"
proof -
  obtain r s1 where h: "handle cmd s = Ret (r, s1)"
    using assms by (auto simp: session_cmd_def bind_outcome_Ret_iff)
  with assms have "s1 = s'"
    by (auto simp: session_cmd_def split: option.splits sum.splits prod.splits)
  with h show ?thesis by blast
qed

text \<open>
  The contract of a handler that answers every command itself: in the states it keeps
  (\<open>inv\<close>) it does not panic and returns a body or an error. Its client, the session
  loop, then sends exactly one message per command, in order and addressed to it.
\<close>

locale sync_handler =
  fixes handle :: "('s, 'v) handle_func"
    and inv :: "'s \<Rightarrow> bool"
  assumes answers: "inv s \<Longrightarrow>
    \<exists>kind ret err s'. handle cmd s = Ret ((kind, ret, err), s') \<and> inv s' \<and> (ret \<noteq> None \<or> err \<noteq> None)"
begin

lemma session_cmd_replies:
  assumes "inv s" and "\<And>b. \<exists>p. marshal b = Inr p"
  shows "\<exists>s' m. session_cmd marshal handle send_append cmd s w = Ret (None, s', w @ [m]) \<and>
           inv s' \<and> msg_Id m = cmd_Id cmd \<and> msg_Ack m = cmd_Seq cmd"
proof -
  obtain kind ret err s' where h: "handle cmd s = Ret ((kind, ret, err), s')" "inv s'"
    and some: "ret \<noteq> None \<or> err \<noteq> None" using answers [OF assms(1)] by blast
  from some obtain b where "reply_body (kind, ret, err) = Some b"
    by (cases err) (auto simp: reply_body_def)
  moreover obtain p where "marshal b = Inr p" using assms(2) by blast
  ultimately show ?thesis using h by (simp add: session_cmd_def NewMsg_def send_append_def)
qed

lemma session_loop_replies:
  assumes "\<And>b. \<exists>p. marshal b = Inr p"
  shows "inv s \<Longrightarrow>
    \<exists>s' ms. session_loop marshal handle send_append cmds s w = Ret (None, s', w @ ms) \<and>
      map (\<lambda>m. (msg_Id m, msg_Ack m)) ms = map (\<lambda>c. (cmd_Id c, cmd_Seq c)) cmds"
proof (induction cmds arbitrary: s w)
  case (Cons cmd cmds)
  obtain s1 m where one: "session_cmd marshal handle send_append cmd s w = Ret (None, s1, w @ [m])"
    "inv s1" "msg_Id m = cmd_Id cmd" "msg_Ack m = cmd_Seq cmd"
    using session_cmd_replies [where marshal = marshal, OF Cons.prems assms] by blast
  then obtain s' ms where "session_loop marshal handle send_append cmds s1 (w @ [m]) = Ret (None, s', (w @ [m]) @ ms)"
    "map (\<lambda>m. (msg_Id m, msg_Ack m)) ms = map (\<lambda>c. (cmd_Id c, cmd_Seq c)) cmds"
    using Cons.IH by blast
  with one show ?case by (intro exI [of _ s'] exI [of _ "m # ms"]) simp
qed simp

end

section \<open>Channel bundles\<close>

record channelBundle =
  cb_cmdCh :: "Cmd chan"
  cb_msgCh :: "Msg chan"
  cb_closed :: "unit chan"

definition newChannelBundle :: channelBundle where
  "newChannelBundle =
     \<lparr>cb_cmdCh = make_chan 1, cb_msgCh = make_chan 1, cb_closed = make_chan 0\<rparr>"

definition bundle_Close :: "channelBundle \<Rightarrow> channelBundle outcome" where
  "bundle_Close cb =
     bind_outcome (chan_close (cb_closed cb)) (\<lambda>c.
     bind_outcome (chan_close (cb_msgCh cb)) (\<lambda>ms.
       Ret (cb\<lparr>cb_closed := c, cb_msgCh := ms\<rparr>)))"

section \<open>The controller as a transition system\<close>

text \<open>
  The session goroutine waits for a bundle, ranges over the bundle's command channel, is
  inside \<open>sendMsg\<close> with a reply, or has returned.
\<close>

datatype session_pc = SWait | SRange nat | SSend nat Msg | SExit

record controller =
  bundles :: "channelBundle list"
  currentCB :: "nat option"
  chRefreshed :: "nat chan"
  ctl_closed :: bool
  ctx_done :: bool
  session :: session_pc
  sendFunc :: "nat option"
  asyncs :: "(nat \<times> Msg) list"
  ctl_panic :: bool

definition NewController :: controller where
  "NewController =
     \<lparr>bundles = [], currentCB = None, chRefreshed = make_chan 1, ctl_closed = False,
      ctx_done = False, session = SWait, sendFunc = None, asyncs = [], ctl_panic = False\<rparr>"

definition set_bundle :: "nat \<Rightarrow> channelBundle \<Rightarrow> controller \<Rightarrow> controller" where
  "set_bundle b cb c = c\<lparr>bundles := (bundles c)[b := cb]\<rparr>"

text \<open>\<open>cb.Close()\<close> on bundle \<open>b\<close>; a panic is recorded.\<close>

definition close_bundle :: "nat \<Rightarrow> controller \<Rightarrow> controller" where
  "close_bundle b c =
     (case bundle_Close (bundles c ! b) of
        Ret cb \<Rightarrow> set_bundle b cb c
      | Panic _ \<Rightarrow> c\<lparr>ctl_panic := True\<rparr>)"

text \<open>\<open>RefreshChannels\<close> where its select takes the case \<open>c.chRefreshed <- cb\<close>.\<close>

definition RefreshChannels :: "controller \<Rightarrow> controller" where
  "RefreshChannels c =
     (let b = length (bundles c); c1 = c\<lparr>bundles := bundles c @ [newChannelBundle]\<rparr> in
      if ctl_closed c then close_bundle b c1
      else case chan_send b (chRefreshed c1) of
        Panic _ \<Rightarrow> c1\<lparr>ctl_panic := True\<rparr>
      | Ret ch \<Rightarrow>
          let c2 = c1\<lparr>chRefreshed := ch\<rparr>;
              c3 = (case currentCB c2 of None \<Rightarrow> c2 | Some old \<Rightarrow> close_bundle old c2)
          in c3\<lparr>currentCB := Some b\<rparr>)"

definition Controller_Close :: "controller \<Rightarrow> controller" where
  "Controller_Close c =
     (if \<not> ctl_closed c then
        (case chan_close (chRefreshed c) of
           Ret ch \<Rightarrow> c\<lparr>ctl_closed := True, chRefreshed := ch\<rparr>
         | Panic _ \<Rightarrow> c\<lparr>ctl_closed := True, ctl_panic := True\<rparr>)
      else c)"

text \<open>The select of \<open>sendMsg\<close> for bundle \<open>b\<close>: its case \<open>cb.msgCh <- msg\<close>.\<close>

definition send_case :: "nat \<Rightarrow> Msg \<Rightarrow> controller \<Rightarrow> controller" where
  "send_case b msg c =
     (case chan_send msg (cb_msgCh (bundles c ! b)) of
        Ret ch \<Rightarrow> set_bundle b ((bundles c ! b)\<lparr>cb_msgCh := ch\<rparr>) c
      | Panic _ \<Rightarrow> c\<lparr>ctl_panic := True\<rparr>)"

text \<open>
  The steps. A command's handling yields no reply, a reply to send, or a marshalling
  error; \<open>asyncs\<close> are calls of the stored send function by the handler's goroutines,
  each with the bundle its closure captured. A panic ends the process: no step follows.
\<close>

inductive ctl_step :: "controller \<Rightarrow> controller \<Rightarrow> bool" where
  ctl_refresh_done: "\<not> ctl_panic c \<Longrightarrow> \<not> ctl_closed c \<Longrightarrow> ctx_done c \<Longrightarrow> ctl_step c c"
| ctl_refresh: "\<not> ctl_panic c \<Longrightarrow> ctl_closed c \<or> send_ready (chRefreshed c) \<Longrightarrow>
     ctl_step c (RefreshChannels c)"
| ctl_close: "\<not> ctl_panic c \<Longrightarrow> ctl_step c (Controller_Close c)"
| ctl_ctx: "\<not> ctl_panic c \<Longrightarrow> ctl_step c (c\<lparr>ctx_done := True\<rparr>)"
| ctl_session_done: "\<not> ctl_panic c \<Longrightarrow> session c = SWait \<Longrightarrow> ctx_done c \<Longrightarrow>
     ctl_step c (c\<lparr>session := SExit\<rparr>)"
| ctl_session_end: "\<not> ctl_panic c \<Longrightarrow> session c = SWait \<Longrightarrow> recv_ready (chRefreshed c) \<Longrightarrow>
     chan_recv (chRefreshed c) = (None, ch) \<Longrightarrow> ctl_step c (c\<lparr>session := SExit\<rparr>)"
| ctl_session_new: "\<not> ctl_panic c \<Longrightarrow> session c = SWait \<Longrightarrow>
     chan_recv (chRefreshed c) = (Some b, ch) \<Longrightarrow>
     ctl_step c (c\<lparr>chRefreshed := ch, session := SRange b, sendFunc := Some b\<rparr>)"
| ctl_cmd_async: "\<not> ctl_panic c \<Longrightarrow> session c = SRange b \<Longrightarrow>
     chan_recv (cb_cmdCh (bundles c ! b)) = (Some cmd, ch) \<Longrightarrow>
     ctl_step c (set_bundle b ((bundles c ! b)\<lparr>cb_cmdCh := ch\<rparr>) c)"
| ctl_cmd_reply: "\<not> ctl_panic c \<Longrightarrow> session c = SRange b \<Longrightarrow>
     chan_recv (cb_cmdCh (bundles c ! b)) = (Some cmd, ch) \<Longrightarrow>
     msg_Id msg = cmd_Id cmd \<Longrightarrow> msg_Ack msg = cmd_Seq cmd \<Longrightarrow>
     ctl_step c ((set_bundle b ((bundles c ! b)\<lparr>cb_cmdCh := ch\<rparr>) c)\<lparr>session := SSend b msg\<rparr>)"
| ctl_cmd_marshal_err: "\<not> ctl_panic c \<Longrightarrow> session c = SRange b \<Longrightarrow>
     chan_recv (cb_cmdCh (bundles c ! b)) = (Some cmd, ch) \<Longrightarrow>
     ctl_step c
       ((close_bundle b (set_bundle b ((bundles c ! b)\<lparr>cb_cmdCh := ch\<rparr>) c))\<lparr>session := SWait\<rparr>)"
| ctl_cmd_end: "\<not> ctl_panic c \<Longrightarrow> session c = SRange b \<Longrightarrow>
     recv_ready (cb_cmdCh (bundles c ! b)) \<Longrightarrow>
     chan_recv (cb_cmdCh (bundles c ! b)) = (None, ch) \<Longrightarrow> ctl_step c (c\<lparr>session := SWait\<rparr>)"
| ctl_send_closed: "\<not> ctl_panic c \<Longrightarrow> session c = SSend b msg \<Longrightarrow>
     recv_ready (cb_closed (bundles c ! b)) \<Longrightarrow> ctl_step c (c\<lparr>session := SRange b\<rparr>)"
| ctl_send: "\<not> ctl_panic c \<Longrightarrow> session c = SSend b msg \<Longrightarrow>
     send_ready (cb_msgCh (bundles c ! b)) \<Longrightarrow>
     ctl_step c ((send_case b msg c)\<lparr>session := SRange b\<rparr>)"
| ctl_send_ctx: "\<not> ctl_panic c \<Longrightarrow> session c = SSend b msg \<Longrightarrow> ctx_done c \<Longrightarrow>
     ctl_step c ((close_bundle b c)\<lparr>session := SWait\<rparr>)"
| ctl_async_call: "\<not> ctl_panic c \<Longrightarrow> sendFunc c = Some b \<Longrightarrow>
     ctl_step c (c\<lparr>asyncs := asyncs c @ [(b, msg)]\<rparr>)"
| ctl_async_return: "\<not> ctl_panic c \<Longrightarrow> i < length (asyncs c) \<Longrightarrow> asyncs c ! i = (b, msg) \<Longrightarrow>
     recv_ready (cb_closed (bundles c ! b)) \<or> ctx_done c \<Longrightarrow>
     ctl_step c (c\<lparr>asyncs := take i (asyncs c) @ drop (Suc i) (asyncs c)\<rparr>)"
| ctl_async_send: "\<not> ctl_panic c \<Longrightarrow> i < length (asyncs c) \<Longrightarrow> asyncs c ! i = (b, msg) \<Longrightarrow>
     send_ready (cb_msgCh (bundles c ! b)) \<Longrightarrow>
     ctl_step c ((send_case b msg c)\<lparr>asyncs := take i (asyncs c) @ drop (Suc i) (asyncs c)\<rparr>)"
| ctl_client_cmd: "\<not> ctl_panic c \<Longrightarrow> b < length (bundles c) \<Longrightarrow>
     \<not> ch_closed (cb_cmdCh (bundles c ! b)) \<Longrightarrow> send_ready (cb_cmdCh (bundles c ! b)) \<Longrightarrow>
     chan_send cmd (cb_cmdCh (bundles c ! b)) = Ret ch \<Longrightarrow>
     ctl_step c (set_bundle b ((bundles c ! b)\<lparr>cb_cmdCh := ch\<rparr>) c)"
| ctl_client_end: "\<not> ctl_panic c \<Longrightarrow> b < length (bundles c) \<Longrightarrow>
     chan_close (cb_cmdCh (bundles c ! b)) = Ret ch \<Longrightarrow>
     ctl_step c (set_bundle b ((bundles c ! b)\<lparr>cb_cmdCh := ch\<rparr>) c)"
| ctl_client_recv: "\<not> ctl_panic c \<Longrightarrow> b < length (bundles c) \<Longrightarrow>
     chan_recv (cb_msgCh (bundles c ! b)) = (Some msg, ch) \<Longrightarrow>
     ctl_step c (set_bundle b ((bundles c ! b)\<lparr>cb_msgCh := ch\<rparr>) c)"

section \<open>Invariant\<close>

definition b_ok :: "channelBundle \<Rightarrow> bool" where
  "b_ok cb \<longleftrightarrow> ch_closed (cb_closed cb) = ch_closed (cb_msgCh cb)"

definition b_closed :: "channelBundle \<Rightarrow> bool" where
  "b_closed cb \<longleftrightarrow> ch_closed (cb_closed cb) \<and> ch_closed (cb_msgCh cb)"

text \<open>Every bundle but the current one is closed, in both of its channels.\<close>

definition ctl_inv :: "controller \<Rightarrow> bool" where
  "ctl_inv c \<longleftrightarrow>
     (\<forall>b. currentCB c = Some b \<longrightarrow> b < length (bundles c)) \<and>
     (\<forall>b < length (bundles c). b_ok (bundles c ! b)) \<and>
     (\<forall>b < length (bundles c). currentCB c \<noteq> Some b \<longrightarrow> b_closed (bundles c ! b))"

lemma ctl_invI:
  assumes "\<And>b. currentCB c = Some b \<Longrightarrow> b < length (bundles c)"
    and "\<And>b. b < length (bundles c) \<Longrightarrow> b_ok (bundles c ! b)"
    and "\<And>b. b < length (bundles c) \<Longrightarrow> currentCB c \<noteq> Some b \<Longrightarrow> b_closed (bundles c ! b)"
  shows "ctl_inv c"
  using assms by (simp add: ctl_inv_def)

lemma ctl_invD:
  assumes "ctl_inv c"
  shows "currentCB c = Some b \<Longrightarrow> b < length (bundles c)"
    and "b < length (bundles c) \<Longrightarrow> b_ok (bundles c ! b)"
    and "b < length (bundles c) \<Longrightarrow> currentCB c \<noteq> Some b \<Longrightarrow> b_closed (bundles c ! b)"
  using assms by (simp_all add: ctl_inv_def)

lemma bundle_Close_Ret: "bundle_Close cb = Ret cb' \<Longrightarrow> b_ok cb' \<and> b_closed cb'"
  by (auto simp: bundle_Close_def chan_close_def b_ok_def b_closed_def bind_outcome_Ret_iff
      split: if_splits)

lemma bundle_Close_Panic: "bundle_Close cb = Panic p \<Longrightarrow> b_ok cb \<Longrightarrow> b_closed cb"
  by (auto simp: bundle_Close_def chan_close_def b_ok_def b_closed_def split: if_splits)

lemma close_bundle_simps [simp]:
  "currentCB (close_bundle b c) = currentCB c"
  "length (bundles (close_bundle b c)) = length (bundles c)"
  "session (close_bundle b c) = session c"
  by (simp_all add: close_bundle_def set_bundle_def split: outcome.splits)

lemma close_bundle_nth:
  assumes "b' < length (bundles c)"
  shows "bundles (close_bundle b c) ! b' = bundles c ! b' \<or>
         b_ok (bundles (close_bundle b c) ! b') \<and> b_closed (bundles (close_bundle b c) ! b')"
  using assms bundle_Close_Ret
  by (cases "b' = b") (fastforce simp: close_bundle_def set_bundle_def split: outcome.splits)+

lemma close_bundle_closes:
  assumes "b < length (bundles c)" and "b_ok (bundles c ! b)"
  shows "b_closed (bundles (close_bundle b c) ! b)"
  using assms bundle_Close_Ret bundle_Close_Panic
  by (fastforce simp: close_bundle_def set_bundle_def split: outcome.splits)

lemma ctl_inv_close:
  assumes inv: "ctl_inv c"
  shows "ctl_inv (close_bundle b c)"
proof (rule ctl_invI)
  fix b'
  assume "b' < length (bundles (close_bundle b c))"
  then show "b_ok (bundles (close_bundle b c) ! b')"
    using close_bundle_nth [of b' c b] ctl_invD(2) [OF inv, of b'] by auto
next
  fix b'
  assume "b' < length (bundles (close_bundle b c))" "currentCB (close_bundle b c) \<noteq> Some b'"
  then show "b_closed (bundles (close_bundle b c) ! b')"
    using close_bundle_nth [of b' c b] ctl_invD(3) [OF inv, of b'] by auto
qed (use ctl_invD(1) [OF inv] in simp)

lemma ctl_inv_set_bundle:
  assumes inv: "ctl_inv c"
    and ok: "b < length (bundles c) \<Longrightarrow> b_ok (bundles c ! b) \<Longrightarrow> b_ok cb"
    and cl: "b < length (bundles c) \<Longrightarrow> b_closed (bundles c ! b) \<Longrightarrow> b_closed cb"
  shows "ctl_inv (set_bundle b cb c)"
proof (rule ctl_invI)
  fix b'
  assume "b' < length (bundles (set_bundle b cb c))"
  then show "b_ok (bundles (set_bundle b cb c) ! b')"
    using ok ctl_invD(2) [OF inv, of b'] by (cases "b' = b") (auto simp: set_bundle_def)
next
  fix b'
  assume "b' < length (bundles (set_bundle b cb c))" "currentCB (set_bundle b cb c) \<noteq> Some b'"
  then show "b_closed (bundles (set_bundle b cb c) ! b')"
    using cl ctl_invD(3) [OF inv, of b'] by (cases "b' = b") (auto simp: set_bundle_def)
qed (use ctl_invD(1) [OF inv] in \<open>simp add: set_bundle_def\<close>)

lemma ctl_inv_fields [simp]:
  "ctl_inv (c\<lparr>session := x\<rparr>) = ctl_inv c" "ctl_inv (c\<lparr>asyncs := y\<rparr>) = ctl_inv c"
  "ctl_inv (c\<lparr>ctl_panic := z\<rparr>) = ctl_inv c" "ctl_inv (c\<lparr>chRefreshed := u\<rparr>) = ctl_inv c"
  "ctl_inv (c\<lparr>ctx_done := v\<rparr>) = ctl_inv c" "ctl_inv (c\<lparr>sendFunc := w\<rparr>) = ctl_inv c"
  "ctl_inv (c\<lparr>ctl_closed := q\<rparr>) = ctl_inv c"
  by (simp_all add: ctl_inv_def)

text \<open>A new bundle is appended open; it becomes the current one, or is closed.\<close>

definition with_new :: "controller \<Rightarrow> controller" where
  "with_new c = c\<lparr>bundles := bundles c @ [newChannelBundle]\<rparr>"

lemma new_bundle_ok: "b_ok newChannelBundle"
  by (simp add: b_ok_def newChannelBundle_def make_chan_def)

lemma ctl_inv_switch:
  assumes inv: "ctl_inv c"
    and same: "length (bundles c') = Suc (length (bundles c))"
    and ok: "\<And>b. b < length (bundles c') \<Longrightarrow> b_ok (bundles c' ! b)"
    and cl: "\<And>b. b < length (bundles c) \<Longrightarrow> b_closed (bundles c' ! b)"
  shows "ctl_inv (c'\<lparr>currentCB := Some (length (bundles c))\<rparr>)"
  using assms by (intro ctl_invI) (auto simp: less_Suc_eq)

lemma with_new_nth:
  "ctl_inv c \<Longrightarrow> b < length (bundles (with_new c)) \<Longrightarrow> b_ok (bundles (with_new c) ! b)"
  "ctl_inv c \<Longrightarrow> b < length (bundles c) \<Longrightarrow> bundles (with_new c) ! b = bundles c ! b"
  using ctl_invD(2) [of c b] new_bundle_ok by (auto simp: with_new_def nth_append less_Suc_eq)

lemma close_bundle_ok:
  "b_ok (bundles c ! b') \<Longrightarrow> b' < length (bundles c) \<Longrightarrow> b_ok (bundles (close_bundle b c) ! b')"
  using close_bundle_nth [of b' c b] by auto

lemma ctl_inv_refresh_closed:
  assumes inv: "ctl_inv c"
  shows "ctl_inv (close_bundle (length (bundles c)) (with_new c))" (is "ctl_inv ?c")
proof (rule ctl_invI)
  fix b
  assume b: "b < length (bundles ?c)"
  then show "b_ok (bundles ?c ! b)"
    using with_new_nth(1) [OF inv, of b] by (intro close_bundle_ok) auto
  assume cur: "currentCB ?c \<noteq> Some b"
  show "b_closed (bundles ?c ! b)"
  proof (cases "b = length (bundles c)")
    case True
    with b show ?thesis
      using with_new_nth(1) [OF inv, of b] by (auto intro: close_bundle_closes)
  next
    case False
    with b have "b < length (bundles c)" by (simp add: with_new_def)
    with cur have "b_closed (bundles (with_new c) ! b)"
      using ctl_invD(3) [OF inv, of b] with_new_nth(2) [OF inv, of b] by (simp add: with_new_def)
    then show ?thesis using close_bundle_nth [of b "with_new c" "length (bundles c)"] b by auto
  qed
qed (use ctl_invD(1) [OF inv] in \<open>auto simp: with_new_def less_Suc_eq\<close>)

lemma ctl_inv_cmdCh: "ctl_inv c \<Longrightarrow> ctl_inv (set_bundle b ((bundles c ! b)\<lparr>cb_cmdCh := ch\<rparr>) c)"
  by (rule ctl_inv_set_bundle) (auto simp: b_ok_def b_closed_def)

lemma ctl_inv_send: "ctl_inv c \<Longrightarrow> ctl_inv (send_case b msg c)"
  by (auto simp: send_case_def chan_send_def b_ok_def b_closed_def
      intro!: ctl_inv_set_bundle split: outcome.splits)

lemma ctl_inv_refresh_open:
  assumes inv: "ctl_inv c" and same: "bundles c2 = bundles (with_new c)" "currentCB c2 = currentCB c"
  shows "ctl_inv ((case currentCB c2 of None \<Rightarrow> c2 | Some old \<Rightarrow> close_bundle old c2)
                    \<lparr>currentCB := Some (length (bundles c))\<rparr>)"
proof (cases "currentCB c")
  case None
  then show ?thesis
    using same with_new_nth [OF inv] ctl_invD(3) [OF inv]
    by (auto intro!: ctl_inv_switch [OF inv] simp: with_new_def nth_append)
next
  case (Some old)
  then have old: "old < length (bundles c)" using ctl_invD(1) [OF inv] by blast
  have ok: "b < length (bundles c2) \<Longrightarrow> b_ok (bundles c2 ! b)" for b
    using with_new_nth(1) [OF inv] same by simp
  have "b_closed (bundles (close_bundle old c2) ! b)" if b: "b < length (bundles c)" for b
  proof (cases "b = old")
    case True
    with b ok [of old] same show ?thesis by (auto intro!: close_bundle_closes simp: with_new_def)
  next
    case False
    with Some have "b_closed (bundles c2 ! b)"
      using ctl_invD(3) [OF inv b] with_new_nth(2) [OF inv b] same by simp
    then show ?thesis using close_bundle_nth [of b c2 old] b same by (auto simp: with_new_def)
  qed
  with Some ok same show ?thesis
    by (auto intro!: ctl_inv_switch [OF inv] close_bundle_ok simp: with_new_def)
qed

text \<open>The refresh channel is closed exactly when the controller is.\<close>

definition ctl_chan :: "controller \<Rightarrow> bool" where
  "ctl_chan c \<longleftrightarrow> ch_closed (chRefreshed c) = ctl_closed c"

lemma ctl_inv_refresh:
  assumes "ctl_inv c" and "ctl_chan c"
  shows "ctl_inv (RefreshChannels c)"
proof (cases "ctl_closed c")
  case True
  then show ?thesis
    using ctl_inv_refresh_closed [OF assms(1)] by (simp add: RefreshChannels_def with_new_def Let_def)
next
  case False
  with assms(2) have "chan_send (length (bundles c)) (chRefreshed c)
      = Ret ((chRefreshed c)\<lparr>ch_buf := ch_buf (chRefreshed c) @ [length (bundles c)]\<rparr>)"
    by (simp add: ctl_chan_def go_simps)
  with False show ?thesis
    using ctl_inv_refresh_open [OF assms(1)]
    by (simp add: RefreshChannels_def with_new_def Let_def)
qed

lemma ctl_inv_close_ctl: "ctl_inv c \<Longrightarrow> ctl_inv (Controller_Close c)"
  by (auto simp: Controller_Close_def ctl_inv_def split: outcome.splits)

lemma ctl_chan_simps [simp]:
  "chRefreshed (close_bundle b c) = chRefreshed c" "ctl_closed (close_bundle b c) = ctl_closed c"
  "chRefreshed (set_bundle b cb c) = chRefreshed c" "ctl_closed (set_bundle b cb c) = ctl_closed c"
  "chRefreshed (send_case b m c) = chRefreshed c" "ctl_closed (send_case b m c) = ctl_closed c"
  by (simp_all add: close_bundle_def set_bundle_def send_case_def split: outcome.splits)

lemma ctl_chan_ops:
  "ctl_chan c \<Longrightarrow> ctl_chan (RefreshChannels c)" "ctl_chan c \<Longrightarrow> ctl_chan (Controller_Close c)"
  by (auto simp: ctl_chan_def RefreshChannels_def Controller_Close_def chan_send_def chan_close_def
      Let_def split: outcome.splits option.splits)

lemma ctl_step_chan: "ctl_step c c' \<Longrightarrow> ctl_chan c \<Longrightarrow> ctl_chan c'"
  by (erule ctl_step.cases)
    (auto simp: ctl_chan_ops, auto simp: ctl_chan_def chan_recv_def split: list.splits)

lemma ctl_step_inv: "ctl_step c c' \<Longrightarrow> ctl_inv c \<Longrightarrow> ctl_chan c \<Longrightarrow> ctl_inv c'"
  by (erule ctl_step.cases)
    (auto intro: ctl_inv_refresh ctl_inv_close_ctl ctl_inv_cmdCh ctl_inv_close ctl_inv_send
      simp: chan_recv_def b_ok_def b_closed_def split: list.splits intro!: ctl_inv_set_bundle)

definition ctl_init :: "controller \<Rightarrow> bool" where
  "ctl_init c \<longleftrightarrow> c = NewController"

interpretation ctls: invariant_system ctl_init ctl_step "\<lambda>c. ctl_inv c \<and> ctl_chan c"
proof
  fix c
  assume "ctl_init c"
  then show "ctl_inv c \<and> ctl_chan c"
    by (simp add: ctl_init_def NewController_def ctl_inv_def ctl_chan_def make_chan_def)
qed (use ctl_step_inv ctl_step_chan in blast)

section \<open>Runs\<close>

text \<open>States of the runs below: bundles, the current one, the refresh channel, the session.\<close>

definition ctl_at :: "channelBundle list \<Rightarrow> nat option \<Rightarrow> nat list \<Rightarrow> session_pc \<Rightarrow> nat option \<Rightarrow> controller" where
  "ctl_at bs cur buf pc sf =
     \<lparr>bundles = bs, currentCB = cur, chRefreshed = \<lparr>ch_cap = 1, ch_buf = buf, ch_closed = False\<rparr>,
      ctl_closed = False, ctx_done = False, session = pc, sendFunc = sf, asyncs = [], ctl_panic = False\<rparr>"

definition run_cmd :: Cmd where
  "run_cmd = \<lparr>cmd_Kind = 1, cmd_Id = 7, cmd_Seq = 2, cmd_Payload = None\<rparr>"

definition run_msg :: Msg where
  "run_msg = \<lparr>msg_Kind = 1, msg_Id = 7, msg_Ack = 2, msg_Payload = None\<rparr>"

definition cb_with :: "Cmd list \<Rightarrow> bool \<Rightarrow> channelBundle" where
  "cb_with cmds cl =
     \<lparr>cb_cmdCh = \<lparr>ch_cap = 1, ch_buf = cmds, ch_closed = False\<rparr>,
      cb_msgCh = \<lparr>ch_cap = 1, ch_buf = [], ch_closed = cl\<rparr>,
      cb_closed = \<lparr>ch_cap = 0, ch_buf = [], ch_closed = cl\<rparr>\<rparr>"

lemmas ctl_run_defs = ctl_at_def cb_with_def RefreshChannels_def close_bundle_def set_bundle_def
  send_case_def bundle_Close_def newChannelBundle_def make_chan_def chan_send_def chan_close_def
  chan_recv_def recv_ready_def send_ready_def

lemma ctl_run_cmd: "reach ctl_init ctl_step (ctl_at [cb_with [run_cmd] False] (Some 0) [] (SRange 0) (Some 0))"
proof -
  let ?s0 = "ctl_at [] None [] SWait None"
  let ?s1 = "ctl_at [cb_with [] False] (Some 0) [0] SWait None"
  let ?s2 = "ctl_at [cb_with [] False] (Some 0) [] (SRange 0) (Some 0)"
  have "reach ctl_init ctl_step ?s0"
    by (rule reach_init) (simp add: ctl_init_def NewController_def ctl_run_defs)
  moreover have "ctl_step ?s0 ?s1" using ctl_refresh [of ?s0] by (simp add: ctl_run_defs)
  moreover have "ctl_step ?s1 ?s2" using ctl_session_new [of ?s1 0] by (simp add: ctl_run_defs)
  moreover have "ctl_step ?s2 (ctl_at [cb_with [run_cmd] False] (Some 0) [] (SRange 0) (Some 0))"
    using ctl_client_cmd [of ?s2 0 run_cmd] by (simp add: ctl_run_defs)
  ultimately show ?thesis by (meson reach_step)
qed

lemma ctl_run_send:
  "reach ctl_init ctl_step (ctl_at [cb_with [] True, cb_with [] False] (Some 1) [1] (SSend 0 run_msg) (Some 0))"
proof -
  let ?s3 = "ctl_at [cb_with [run_cmd] False] (Some 0) [] (SRange 0) (Some 0)"
  let ?s4 = "ctl_at [cb_with [] False] (Some 0) [] (SSend 0 run_msg) (Some 0)"
  have "ctl_step ?s3 ?s4"
    using ctl_cmd_reply [of ?s3 0 run_cmd _ run_msg] by (simp add: ctl_run_defs run_cmd_def run_msg_def)
  moreover have "ctl_step ?s4 (ctl_at [cb_with [] True, cb_with [] False] (Some 1) [1] (SSend 0 run_msg) (Some 0))"
    using ctl_refresh [of ?s4] by (simp add: ctl_run_defs)
  ultimately show ?thesis using ctl_run_cmd by (meson reach_step)
qed

lemma ctl_run_marshal_err:
  "reach ctl_init ctl_step (ctl_at [cb_with [] True] (Some 0) [] SWait (Some 0))"
proof -
  let ?s3 = "ctl_at [cb_with [run_cmd] False] (Some 0) [] (SRange 0) (Some 0)"
  have "ctl_step ?s3 (ctl_at [cb_with [] True] (Some 0) [] SWait (Some 0))"
    using ctl_cmd_marshal_err [of ?s3 0 run_cmd] by (simp add: ctl_run_defs)
  then show ?thesis using ctl_run_cmd by (meson reach_step)
qed

section \<open>Properties\<close>

text \<open>
  C25. In every interleaving, each bundle that \<open>RefreshChannels\<close> has replaced is closed
  in both its channels: a client still reading an old message channel reaches its end,
  and a sender to an old bundle is never blocked.
\<close>

theorem stale_bundles_closed:
  assumes "reach ctl_init ctl_step c" and "b < length (bundles c)" and "currentCB c \<noteq> Some b"
  shows "ch_closed (cb_closed (bundles c ! b)) \<and> ch_closed (cb_msgCh (bundles c ! b))"
  using ctls.inv_reach [OF assms(1)] ctl_invD(3) [OF _ assms(2,3)] by (simp add: b_closed_def)

theorem stale_bundles_closed_witness:
  "\<exists>c. reach ctl_init ctl_step c \<and> length (bundles c) = 2 \<and> currentCB c = Some 1 \<and>
       ch_closed (cb_msgCh (bundles c ! 0))"
  using ctl_run_send stale_bundles_closed [OF ctl_run_send, of 0]
  by (intro exI [of _ "ctl_at [cb_with [] True, cb_with [] False] (Some 1) [1] (SSend 0 run_msg) (Some 0)"])
    (simp add: ctl_at_def)

text \<open>
  C30. A reply that races with a reconnect can crash the extension: there is a reachable
  state, with the context alive and the controller open, in which the session is in the
  select of \<open>sendMsg\<close> on a bundle that \<open>RefreshChannels\<close> has closed; both the case
  \<open><-cb.closed\<close> and the case \<open>cb.msgCh <- msg\<close> are ready, and the second panics
  with a send on a closed channel.
\<close>

theorem sendMsg_may_panic:
  "\<exists>c b msg. reach ctl_init ctl_step c \<and> session c = SSend b msg \<and>
     \<not> ctx_done c \<and> \<not> ctl_closed c \<and> \<not> ctl_panic c \<and>
     recv_ready (cb_closed (bundles c ! b)) \<and> send_ready (cb_msgCh (bundles c ! b)) \<and>
     ctl_panic (send_case b msg c)"
  using ctl_run_send
  by (intro exI [of _ "ctl_at [cb_with [] True, cb_with [] False] (Some 1) [1] (SSend 0 run_msg) (Some 0)"]
      exI [of _ 0] exI [of _ run_msg]) (simp add: ctl_run_defs)

text \<open>
  C31. A reply that fails to marshal dooms the next reconnect: \<open>handleSession\<close> closes
  the bundle but leaves it the current one, and there is a reachable state (context
  alive, controller open, nothing panicked) in which \<open>RefreshChannels\<close> closes it again
  and panics.
\<close>

theorem refresh_may_double_close:
  "\<exists>c. reach ctl_init ctl_step c \<and> \<not> ctx_done c \<and> \<not> ctl_closed c \<and> \<not> ctl_panic c \<and>
       send_ready (chRefreshed c) \<and> ctl_panic (RefreshChannels c)"
  using ctl_run_marshal_err
  by (intro exI [of _ "ctl_at [cb_with [] True] (Some 0) [] SWait (Some 0)"]) (simp add: ctl_run_defs)

lemma bundle_Close_cmdCh: "bundle_Close cb = Ret cb' \<Longrightarrow> cb_cmdCh cb' = cb_cmdCh cb"
  by (auto simp: bundle_Close_def bind_outcome_Ret_iff)

lemma close_bundle_cmdCh:
  "map cb_cmdCh (bundles (close_bundle b c)) = map cb_cmdCh (bundles c)"
proof (cases "bundle_Close (bundles c ! b)")
  case (Ret cb)
  then have cb: "cb_cmdCh cb = cb_cmdCh (bundles c ! b)" by (rule bundle_Close_cmdCh)
  show ?thesis
  proof (cases "b < length (bundles c)")
    case True
    then have "(map cb_cmdCh (bundles c))[b := cb_cmdCh (bundles c ! b)] = map cb_cmdCh (bundles c)"
      using list_update_id [of "map cb_cmdCh (bundles c)" b] by simp
    with Ret cb show ?thesis by (simp add: close_bundle_def set_bundle_def map_update)
  next
    case False
    with Ret show ?thesis by (simp add: close_bundle_def set_bundle_def list_update_beyond)
  qed
qed (simp add: close_bundle_def)

text \<open>
  \<open>RefreshChannels\<close> leaves every existing command channel as it is, open or
  closed: the session's \<open>for cmd := range cb.cmdCh\<close> on the replaced bundle ends only
  when the client closes that channel.
\<close>

theorem refresh_keeps_cmdCh:
  "take (length (bundles c)) (map cb_cmdCh (bundles (RefreshChannels c))) = map cb_cmdCh (bundles c)"
  by (auto simp: RefreshChannels_def Let_def close_bundle_cmdCh split: outcome.splits option.splits)

end
