(* ===== verification/Peripheral.thy ===== *)
theory Peripheral
  imports Controller "HOL-Library.Multiset"
begin

text \<open>
  \<open>src/extperipheral\<close>: the handler of peripheral extensions. The table of connected
  peripherals is a \<open>sync.Map\<close>; the connector and the peripherals are implemented by
  the extension (the interfaces of \<open>types.go\<close>) and are the parameter \<open>I\<close>, which
  acts on the world \<open>'e\<close>; the codec's \<open>Unmarshal\<close> is the parameter \<open>U\<close>.
\<close>

section \<open>Interfaces\<close>

type_synonym params = "string \<rightharpoonup> string"

text \<open>\<open>Connect\<close> may return a nil peripheral without an error: \<open>Inr None\<close>.\<close>

record ('p, 'v, 'tls, 'e) peripheral_impl =
  Connect :: "string \<Rightarrow> params \<Rightarrow> 'tls option \<Rightarrow> 'e \<Rightarrow> (error + 'p option) \<times> 'e"
  Operate :: "'p \<Rightarrow> params \<Rightarrow> bytes \<Rightarrow> 'e \<Rightarrow> (error + bytes list) \<times> 'e"
  CollectMetrics :: "'p \<Rightarrow> params \<Rightarrow> 'e \<Rightarrow> (error + 'v list) \<times> 'e"
  PClose :: "'p \<Rightarrow> 'e \<Rightarrow> 'e"

record 'tls peripheral_unmarshal =
  um_Connect :: "slice \<Rightarrow> error + string \<times> params \<times> 'tls option"
  um_Operate :: "slice \<Rightarrow> error + params \<times> bytes"
  um_Metrics :: "slice \<Rightarrow> error + params"

section \<open>The handler\<close>

record 'p per_handler =
  peripherals :: "u64 \<rightharpoonup> 'p option"

definition NewPeripheralHandler :: "'p per_handler" where
  "NewPeripheralHandler = \<lparr>peripherals = Map.empty\<rparr>"

text \<open>A nil entry fails the type assertion and is deleted.\<close>

definition getPeripheral :: "u64 \<Rightarrow> 'p per_handler \<Rightarrow> 'p option \<times> 'p per_handler" where
  "getPeripheral ident h =
     (case peripherals h ident of
        None \<Rightarrow> (None, h)
      | Some None \<Rightarrow> (None, h\<lparr>peripherals := (peripherals h)(ident := None)\<rparr>)
      | Some (Some p) \<Rightarrow> (Some p, h))"

definition removePeripheral ::
  "('p, 'v, 'tls, 'e) peripheral_impl \<Rightarrow> u64 \<Rightarrow> 'p per_handler \<Rightarrow> 'e \<Rightarrow> 'p per_handler \<times> 'e" where
  "removePeripheral I ident h e =
     (case getPeripheral ident h of (r, h') \<Rightarrow>
        (h'\<lparr>peripherals := (peripherals h')(ident := None)\<rparr>,
         case r of Some p \<Rightarrow> PClose I p e | None \<Rightarrow> e))"

text \<open>
  The end of \<open>handlePeripheralConnect\<close>: \<open>LoadOrStore\<close>, and the deferred
  \<open>p.Close\<close> when it found an entry (a nil peripheral panics there).
\<close>

definition connect_store ::
  "('p, 'v, 'tls, 'e) peripheral_impl \<Rightarrow> u64 \<Rightarrow> 'p option \<Rightarrow> 'p per_handler \<Rightarrow> 'e
     \<Rightarrow> (error option \<times> 'p per_handler \<times> 'e) outcome" where
  "connect_store I ident p h e =
     (case peripherals h ident of
        Some _ \<Rightarrow>
          (case p of
             None \<Rightarrow> Panic ''nil pointer dereference''
           | Some p' \<Rightarrow> Ret (Some (Errorf ''invalid duplicate peripheral''), h, PClose I p' e))
      | None \<Rightarrow> Ret (None, h\<lparr>peripherals := (peripherals h)(ident \<mapsto> p)\<rparr>, e))"

definition handlePeripheralConnect ::
  "'tls peripheral_unmarshal \<Rightarrow> ('p, 'v, 'tls, 'e) peripheral_impl \<Rightarrow> u64 \<Rightarrow> slice
     \<Rightarrow> 'p per_handler \<Rightarrow> 'e \<Rightarrow> (error option \<times> 'p per_handler \<times> 'e) outcome" where
  "handlePeripheralConnect U I ident payload h e =
     (case peripherals h ident of
        Some _ \<Rightarrow> Ret (Some (Errorf ''invalid duplicate peripheral id''), h, e)
      | None \<Rightarrow>
          (case um_Connect U payload of
             Inl err \<Rightarrow> Ret (Some (Wrap ''failed to unmarshal PeripheralConnectCmd'' err), h, e)
           | Inr (target, params, tls) \<Rightarrow>
               (case Connect I target params tls e of
                  (Inl err, e') \<Rightarrow>
                    Ret (Some (Wrap ''failed to establish connection to peripheral'' err), h, e')
                | (Inr p, e') \<Rightarrow> connect_store I ident p h e')))"

definition handlePeripheralOperate ::
  "arhatgopb \<Rightarrow> 'tls peripheral_unmarshal \<Rightarrow> ('p, 'v, 'tls, 'e) peripheral_impl \<Rightarrow> 'p \<Rightarrow> slice \<Rightarrow> 'e
     \<Rightarrow> 'v reply \<times> 'e" where
  "handlePeripheralOperate pb U I p payload e =
     (case um_Operate U payload of
        Inl err \<Rightarrow> ((0, None, Some (Wrap ''failed to unmarshal PeripheralOperateCmd'' err)), e)
      | Inr (params, dat) \<Rightarrow>
          (case Operate I p params dat e of
             (Inl err, e') \<Rightarrow> ((0, None, Some (Wrap ''failed to execute operation'' err)), e')
           | (Inr ret, e') \<Rightarrow>
               ((MSG_PERIPHERAL_OPERATION_RESULT pb, Some (PeripheralOperationResultMsg ret), None), e')))"

definition handlePeripheralMetricsCollect ::
  "arhatgopb \<Rightarrow> 'tls peripheral_unmarshal \<Rightarrow> ('p, 'v, 'tls, 'e) peripheral_impl \<Rightarrow> 'p \<Rightarrow> slice \<Rightarrow> 'e
     \<Rightarrow> 'v reply \<times> 'e" where
  "handlePeripheralMetricsCollect pb U I p payload e =
     (case um_Metrics U payload of
        Inl err \<Rightarrow> ((0, None, Some (Wrap ''failed to unmarshal PeripheralMetricsCollectCmd'' err)), e)
      | Inr params \<Rightarrow>
          (case CollectMetrics I p params e of
             (Inl err, e') \<Rightarrow> ((0, None, Some (Wrap ''failed to collect peripheral metrics'' err)), e')
           | (Inr ret, e') \<Rightarrow>
               ((MSG_PERIPHERAL_METRICS pb, Some (PeripheralMetricsMsg ret), None), e')))"

text \<open>\<open>h.funcMap\<close>, the map literal of \<open>NewHandler\<close>.\<close>

definition per_funcMap ::
  "arhatgopb \<Rightarrow> 'tls peripheral_unmarshal \<Rightarrow> ('p, 'v, 'tls, 'e) peripheral_impl
     \<Rightarrow> int32 \<rightharpoonup> ('p \<Rightarrow> slice \<Rightarrow> 'e \<Rightarrow> 'v reply \<times> 'e)" where
  "per_funcMap pb U I =
     [CMD_PERIPHERAL_OPERATE pb \<mapsto> handlePeripheralOperate pb U I,
      CMD_PERIPHERAL_COLLECT_METRICS pb \<mapsto> handlePeripheralMetricsCollect pb U I]"

definition per_HandleCmd ::
  "arhatgopb \<Rightarrow> wellknownerrors \<Rightarrow> 'tls peripheral_unmarshal \<Rightarrow> ('p, 'v, 'tls, 'e) peripheral_impl
     \<Rightarrow> Cmd \<Rightarrow> 'p per_handler \<times> 'e \<Rightarrow> ('v reply \<times> 'p per_handler \<times> 'e) outcome" where
  "per_HandleCmd pb we U I cmd st =
     (case st of (h, e) \<Rightarrow>
      if cmd_Kind cmd = CMD_PERIPHERAL_CLOSE pb then
        Ret ((MSG_DONE pb, Some DoneMsg, None), removePeripheral I (cmd_Id cmd) h e)
      else if cmd_Kind cmd = CMD_PERIPHERAL_CONNECT pb then
        bind_outcome (handlePeripheralConnect U I (cmd_Id cmd) (cmd_Payload cmd) h e) (\<lambda>(err, h', e').
          case err of
            Some er \<Rightarrow> Ret ((0, None, Some er), h', e')
          | None \<Rightarrow> Ret ((MSG_DONE pb, Some DoneMsg, None), h', e'))
      else case per_funcMap pb U I (cmd_Kind cmd) of
        None \<Rightarrow> Ret ((0, None, Some (Errorf ''unknown cmd'')), h, e)
      | Some handle \<Rightarrow>
          (case getPeripheral (cmd_Id cmd) h of
             (None, h') \<Rightarrow> Ret ((0, None, Some (ErrNotFound we)), h', e)
           | (Some p, h') \<Rightarrow>
               (case handle p (cmd_Payload cmd) e of (r, e') \<Rightarrow> Ret (r, h', e'))))"

section \<open>Every command is answered\<close>

lemma handlePeripheralConnect_Ret:
  "\<exists>err h' e'. handlePeripheralConnect U I ident payload h e = Ret (err, h', e')"
  by (auto simp: handlePeripheralConnect_def connect_store_def split: option.splits sum.splits prod.splits)

lemma per_handlers_answer:
  "handlePeripheralOperate pb U I p payload e = ((k, ret, err), e') \<Longrightarrow> ret \<noteq> None \<or> err \<noteq> None"
  "handlePeripheralMetricsCollect pb U I p payload e = ((k, ret, err), e') \<Longrightarrow> ret \<noteq> None \<or> err \<noteq> None"
  by (auto simp: handlePeripheralOperate_def handlePeripheralMetricsCollect_def
      split: sum.splits prod.splits)

lemma per_funcMap_answer:
  "per_funcMap pb U I kind = Some f \<Longrightarrow> f p payload e = ((k, ret, err), e') \<Longrightarrow> ret \<noteq> None \<or> err \<noteq> None"
  by (auto simp: per_funcMap_def dest: per_handlers_answer split: if_splits)

interpretation perh: sync_handler "per_HandleCmd pb we U I" "\<lambda>_. True" for pb we U I
proof
  fix st :: "'b per_handler \<times> 'd" and cmd :: Cmd
  obtain h e where st: "st = (h, e)" by fastforce
  obtain err h' e' where "handlePeripheralConnect U I (cmd_Id cmd) (cmd_Payload cmd) h e = Ret (err, h', e')"
    using handlePeripheralConnect_Ret [of U I "cmd_Id cmd" "cmd_Payload cmd" h e] by auto
  with st show "\<exists>kind ret err s'. per_HandleCmd pb we U I cmd st = Ret ((kind, ret, err), s') \<and>
      True \<and> (ret \<noteq> None \<or> err \<noteq> None)"
    by (auto simp: per_HandleCmd_def dest: per_funcMap_answer split: option.splits prod.splits)
qed

section \<open>The table as a registry\<close>

definition per_has :: "'p per_handler \<times> 'e \<Rightarrow> u64 \<Rightarrow> bool" where
  "per_has st ident \<longleftrightarrow> peripherals (fst st) ident \<noteq> None"

definition per_add ::
  "('p, 'v, 'tls, 'e) peripheral_impl \<Rightarrow> 'p \<Rightarrow> u64 \<Rightarrow> 'p per_handler \<times> 'e \<Rightarrow> ('p per_handler \<times> 'e) option" where
  "per_add I p ident st =
     (case connect_store I ident (Some p) (fst st) (snd st) of
        Ret (None, h', e') \<Rightarrow> Some (h', e') | _ \<Rightarrow> None)"

definition per_del ::
  "('p, 'v, 'tls, 'e) peripheral_impl \<Rightarrow> u64 \<Rightarrow> 'p per_handler \<times> 'e \<Rightarrow> 'p per_handler \<times> 'e" where
  "per_del I ident st = removePeripheral I ident (fst st) (snd st)"

lemma removePeripheral_table:
  "peripherals (fst (removePeripheral I ident h e)) = (peripherals h)(ident := None)"
  by (auto simp: removePeripheral_def getPeripheral_def split: option.splits)

interpretation perr: keyed_registry per_has "per_add I p" "per_del I" for I p
  by unfold_locales
    (auto simp: per_has_def per_add_def per_del_def connect_store_def removePeripheral_table
      fun_eq_iff split: option.splits)

section \<open>Resource accounting\<close>

text \<open>
  The connector's world with a log of the peripherals it connected and of those that were
  closed.
\<close>

record 'p per_log =
  connected :: "'p list"
  closed :: "'p list"

definition logged ::
  "('p, 'v, 'tls, 'e) peripheral_impl \<Rightarrow> ('p, 'v, 'tls, 'e \<times> 'p per_log) peripheral_impl" where
  "logged I =
     \<lparr>Connect = (\<lambda>target params tls (e, l).
        case Connect I target params tls e of
          (Inr (Some p), e') \<Rightarrow> (Inr (Some p), e', l\<lparr>connected := p # connected l\<rparr>)
        | (r, e') \<Rightarrow> (r, e', l)),
      Operate = (\<lambda>p params d (e, l). case Operate I p params d e of (r, e') \<Rightarrow> (r, e', l)),
      CollectMetrics = (\<lambda>p params (e, l). case CollectMetrics I p params e of (r, e') \<Rightarrow> (r, e', l)),
      PClose = (\<lambda>p (e, l). (PClose I p e, l\<lparr>closed := p # closed l\<rparr>))\<rparr>"

definition live_ids :: "'p per_handler \<Rightarrow> u64 set" where
  "live_ids h = {ident. \<exists>p. peripherals h ident = Some (Some p)}"

definition live :: "'p per_handler \<Rightarrow> 'p multiset" where
  "live h = image_mset (\<lambda>ident. the (the (peripherals h ident))) (mset_set (live_ids h))"

definition accounted :: "'p per_handler \<Rightarrow> 'p per_log \<Rightarrow> bool" where
  "accounted h l \<longleftrightarrow> mset (connected l) = mset (closed l) + live h"

lemma finite_live_ids [simp]: "finite (live_ids h)"
  by (rule finite_subset [OF subset_UNIV]) (rule finite)

lemma live_insert:
  assumes "peripherals h ident = None"
  shows "live (h\<lparr>peripherals := (peripherals h)(ident \<mapsto> Some p)\<rparr>) = add_mset p (live h)"
proof -
  let ?h = "h\<lparr>peripherals := (peripherals h)(ident \<mapsto> Some p)\<rparr>"
  have ids: "live_ids ?h = insert ident (live_ids h)" and new: "ident \<notin> live_ids h"
    using assms by (auto simp: live_ids_def)
  have "image_mset (\<lambda>i. the (the (peripherals ?h i))) (mset_set (live_ids h)) = live h"
    unfolding live_def using new by (intro image_mset_cong) auto
  with new show ?thesis by (simp add: live_def [of ?h] ids)
qed

lemma live_cong:
  assumes "\<And>i. i \<noteq> ident \<Longrightarrow> peripherals h' i = peripherals h i"
    and "ident \<notin> live_ids h" and "ident \<notin> live_ids h'"
  shows "live h' = live h"
proof -
  have ids: "live_ids h' = live_ids h"
  proof (rule set_eqI)
    fix i
    show "i \<in> live_ids h' \<longleftrightarrow> i \<in> live_ids h"
      using assms by (cases "i = ident") (auto simp: live_ids_def)
  qed
  have "i \<noteq> ident" if "i \<in> live_ids h" for i using that assms(2) by auto
  then show ?thesis unfolding live_def ids using assms(1) by (intro image_mset_cong) simp
qed

lemma live_nil:
  "peripherals h ident = None \<Longrightarrow> live (h\<lparr>peripherals := (peripherals h)(ident \<mapsto> None)\<rparr>) = live h"
  by (rule live_cong [of ident]) (auto simp: live_ids_def)

lemma live_remove:
  assumes "peripherals h ident = Some (Some p)"
  shows "live h = add_mset p (live (h\<lparr>peripherals := (peripherals h)(ident := None)\<rparr>))"
proof -
  let ?h = "h\<lparr>peripherals := (peripherals h)(ident := None)\<rparr>"
  have "?h\<lparr>peripherals := (peripherals ?h)(ident \<mapsto> Some p)\<rparr> = h"
    using assms by (simp add: fun_upd_idem)
  then show ?thesis using live_insert [of ?h ident p] by simp
qed

lemma live_remove_none:
  "\<forall>p. peripherals h ident \<noteq> Some (Some p) \<Longrightarrow>
     live (h\<lparr>peripherals := (peripherals h)(ident := None)\<rparr>) = live h"
  by (rule live_cong [of ident]) (auto simp: live_ids_def)

lemmas live_simps = live_insert live_nil live_remove_none

lemma accounted_connect:
  assumes "accounted h (snd e)"
    and "handlePeripheralConnect U (logged I) ident payload h e = Ret (err, h', e')"
  shows "accounted h' (snd e')"
  using assms
  by (cases e) (auto simp: handlePeripheralConnect_def connect_store_def logged_def accounted_def
      live_simps split: option.splits sum.splits prod.splits)

lemma accounted_remove:
  assumes "accounted h (snd e)" and "removePeripheral (logged I) ident h e = (h', e')"
  shows "accounted h' (snd e')"
proof (cases "peripherals h ident")
  case (Some q)
  show ?thesis
  proof (cases q)
    case None
    with Some assms show ?thesis
      by (cases e) (auto simp: removePeripheral_def getPeripheral_def accounted_def live_remove_none)
  next
    case (Some p)
    with \<open>peripherals h ident = Some q\<close> have p: "peripherals h ident = Some (Some p)" by simp
    show ?thesis using assms live_remove [OF p] p
      by (cases e) (auto simp: removePeripheral_def getPeripheral_def logged_def accounted_def)
  qed
qed (use assms in \<open>cases e, auto simp: removePeripheral_def getPeripheral_def accounted_def live_remove_none\<close>)

lemma accounted_get:
  "accounted h l \<Longrightarrow> getPeripheral ident h = (r, h') \<Longrightarrow> accounted h' l"
  by (auto simp: getPeripheral_def accounted_def live_remove_none split: option.splits)

lemma logged_keeps:
  "per_funcMap pb U (logged I) kind = Some f \<Longrightarrow> f p payload e = (r, e') \<Longrightarrow> snd e' = snd e"
  by (cases e) (auto simp: per_funcMap_def handlePeripheralOperate_def
      handlePeripheralMetricsCollect_def logged_def split: if_splits sum.splits prod.splits)

lemma accounted_cmd:
  assumes acc: "accounted h (snd e)" and cmd: "per_HandleCmd pb we U (logged I) cmd (h, e) = Ret (r, h', e')"
  shows "accounted h' (snd e')"
proof -
  consider (close) "cmd_Kind cmd = CMD_PERIPHERAL_CLOSE pb"
    | (connect) "cmd_Kind cmd \<noteq> CMD_PERIPHERAL_CLOSE pb" "cmd_Kind cmd = CMD_PERIPHERAL_CONNECT pb"
    | (other) "cmd_Kind cmd \<noteq> CMD_PERIPHERAL_CLOSE pb" "cmd_Kind cmd \<noteq> CMD_PERIPHERAL_CONNECT pb"
    by blast
  then show ?thesis
  proof cases
    case close
    with cmd show ?thesis by (auto simp: per_HandleCmd_def intro: accounted_remove [OF acc])
  next
    case connect
    with cmd show ?thesis
      by (auto simp: per_HandleCmd_def bind_outcome_Ret_iff split: option.splits
          intro: accounted_connect [OF acc])
  next
    case other
    obtain q h1 where g: "getPeripheral (cmd_Id cmd) h = (q, h1)" by fastforce
    then have "accounted h1 (snd e)" using accounted_get [OF acc] by blast
    with other g cmd acc show ?thesis
      by (auto simp: per_HandleCmd_def dest: logged_keeps split: option.splits prod.splits)
  qed
qed

section \<open>Properties\<close>

text \<open>
  A peripheral extension answers every command exactly once: for any list of
  commands, in any state, with any peripheral implementation, the session loop sends one
  message per command, in the order of the commands and with their id and sequence
  number, and neither fails nor panics, provided the codec can marshal every body.
\<close>

theorem peripheral_one_reply_per_cmd:
  assumes "\<And>b. \<exists>p. marshal b = Inr p"
  shows "\<exists>st' ms. session_loop marshal (per_HandleCmd pb we U I) send_append cmds st w = Ret (None, st', w @ ms) \<and>
           map (\<lambda>m. (msg_Id m, msg_Ack m)) ms = map (\<lambda>c. (cmd_Id c, cmd_Seq c)) cmds"
  using perh.session_loop_replies [where marshal = marshal, OF assms] by blast

definition impl_example :: "(nat, unit, unit, nat) peripheral_impl" where
  "impl_example =
     \<lparr>Connect = (\<lambda>t _ _ e. if t = ''bad'' then (Inl (ExtErr ''refused''), e) else (Inr (Some e), Suc e)),
      Operate = (\<lambda>p _ d e. (Inr [d], e)),
      CollectMetrics = (\<lambda>_ _ e. (Inr [], e)),
      PClose = (\<lambda>_ e. e)\<rparr>"

definition unmarshal_example :: "unit peripheral_unmarshal" where
  "unmarshal_example =
     \<lparr>um_Connect = (\<lambda>s. Inr (''dev'', Map.empty, None)), um_Operate = (\<lambda>s. Inr (Map.empty, slice_bytes s)),
      um_Metrics = (\<lambda>s. Inr Map.empty)\<rparr>"

definition cmd_example :: "int32 \<Rightarrow> u64 \<Rightarrow> u64 \<Rightarrow> Cmd" where
  "cmd_example k i q = \<lparr>cmd_Kind = k, cmd_Id = i, cmd_Seq = q, cmd_Payload = Some [1]\<rparr>"

theorem peripheral_one_reply_per_cmd_witness:
  "\<exists>st' ms. session_loop (\<lambda>b. Inr [0]) (per_HandleCmd pb_example we_example unmarshal_example impl_example)
      send_append [cmd_example 6 1 0, cmd_example 7 1 1, cmd_example 99 1 2] (NewPeripheralHandler, 0) [] = Ret (None, st', ms) \<and>
    map (\<lambda>m. (msg_Id m, msg_Ack m)) ms = [(1, 0), (1, 1), (1, 2)]"
  using peripheral_one_reply_per_cmd [of "\<lambda>b. Inr [0]" pb_example we_example unmarshal_example impl_example
      "[cmd_example 6 1 0, cmd_example 7 1 1, cmd_example 99 1 2]" "(NewPeripheralHandler, 0)" "[]"]
  by (simp add: cmd_example_def)

text \<open>
  C11. No peripheral leaks: after any sequence of handled commands, with any
  implementation, the peripherals that \<open>Connect\<close> delivered are exactly those that were
  closed together with those in the table (as multisets, so none is closed twice).
\<close>

theorem peripherals_accounted:
  assumes "session_loop marshal (per_HandleCmd pb we U (logged I)) sendMsg cmds (h, e) w = Ret (r, (h', e'), w')"
    and "mset (connected (snd e)) = mset (closed (snd e)) + live h"
  shows "mset (connected (snd e')) = mset (closed (snd e')) + live h'"
  using assms
proof (induction cmds arbitrary: h e w)
  case (Cons cmd cmds)
  have acc: "accounted h (snd e)" using Cons.prems(2) by (simp add: accounted_def)
  from Cons.prems(1) obtain er h1 e1 w1 where one:
    "session_cmd marshal (per_HandleCmd pb we U (logged I)) sendMsg cmd (h, e) w = Ret (er, (h1, e1), w1)"
    by (auto simp: bind_outcome_Ret_iff)
  from session_cmd_handled [OF one] obtain rep
    where "per_HandleCmd pb we U (logged I) cmd (h, e) = Ret (rep, h1, e1)" by blast
  then have "accounted h1 (snd e1)" by (rule accounted_cmd [OF acc])
  then have acc1: "mset (connected (snd e1)) = mset (closed (snd e1)) + live h1"
    by (simp add: accounted_def)
  show ?case
  proof (cases er)
    case None
    with one Cons.prems(1) show ?thesis by (intro Cons.IH [OF _ acc1]) simp
  next
    case (Some x)
    with one Cons.prems(1) acc1 show ?thesis by auto
  qed
qed simp

definition per_log_empty :: "nat per_log" where
  "per_log_empty = \<lparr>connected = [], closed = []\<rparr>"

lemma live_empty [simp]: "live NewPeripheralHandler = {#}"
  by (simp add: live_def live_ids_def NewPeripheralHandler_def)

lemmas per_eval =
  session_cmd_def reply_body_def NewMsg_def send_append_def per_HandleCmd_def per_funcMap_def
  pb_example_def we_example_def cmd_example_def unmarshal_example_def impl_example_def
  handlePeripheralConnect_def handlePeripheralOperate_def handlePeripheralMetricsCollect_def
  connect_store_def getPeripheral_def removePeripheral_def NewPeripheralHandler_def

text \<open>Connect twice under different ids, operate, close the first.\<close>

theorem peripherals_accounted_witness:
  "\<exists>h' e' w'. session_loop (\<lambda>b. Inr [0])
      (per_HandleCmd pb_example we_example unmarshal_example (logged impl_example)) send_append
      [cmd_example 6 1 0, cmd_example 6 2 1, cmd_example 7 1 2, cmd_example 5 1 3]
      (NewPeripheralHandler, 0, per_log_empty) [] = Ret (None, (h', e'), w') \<and>
    connected (snd e') = [1, 0] \<and> closed (snd e') = [0] \<and> live h' = {#1#}"
proof -
  let ?run = "session_loop (\<lambda>b. Inr [0])
      (per_HandleCmd pb_example we_example unmarshal_example (logged impl_example)) send_append
      [cmd_example 6 1 0, cmd_example 6 2 1, cmd_example 7 1 2, cmd_example 5 1 3]
      (NewPeripheralHandler, 0, per_log_empty) []"
  obtain h' e' w' where run: "?run = Ret (None, (h', e'), w')"
    and log: "connected (snd e') = [1, 0]" "closed (snd e') = [0]"
    by (simp add: per_eval logged_def per_log_empty_def)
  have "mset (connected (snd e')) = mset (closed (snd e')) + live h'"
    by (rule peripherals_accounted [OF run]) (simp add: per_log_empty_def)
  with log have "live h' = {#1#}" by simp
  with run log show ?thesis by blast
qed

lemma per_error_kind:
  assumes "per_HandleCmd pb we U I cmd st = Ret ((kind, ret, Some err), st')"
  shows "kind = 0"
  using assms
  by (auto simp: per_HandleCmd_def per_funcMap_def handlePeripheralOperate_def
      handlePeripheralMetricsCollect_def bind_outcome_Ret_iff
      split: if_splits option.splits sum.splits prod.splits)

text \<open>
  Every failure of a peripheral command is reported to the peer as an \<open>ErrorMsg\<close>
  body in a message of kind 0, the zero value of \<open>MsgType\<close>; the kind \<open>MSG_ERROR\<close>
  is never set, so when it is not 0 the peer cannot tell the failure by the kind.
\<close>

theorem peripheral_errors_have_kind_0:
  assumes "per_HandleCmd pb we U I cmd st = Ret ((kind, ret, Some err), st')"
    and "marshal (ErrorMsg (err_string err)) = Inr payload"
  shows "session_cmd marshal (per_HandleCmd pb we U I) send_append cmd st w =
         Ret (None, st', w @ [\<lparr>msg_Kind = 0, msg_Id = cmd_Id cmd, msg_Ack = cmd_Seq cmd,
                                msg_Payload = Some payload\<rparr>])"
  using assms per_error_kind [OF assms(1)]
  by (simp add: session_cmd_def reply_body_def NewMsg_def send_append_def)

theorem peripheral_errors_have_kind_0_witness:
  "MSG_ERROR pb_example \<noteq> 0 \<and>
   session_cmd (\<lambda>b. Inr [0]) (per_HandleCmd pb_example we_example unmarshal_example impl_example)
      send_append (cmd_example 7 1 2) (NewPeripheralHandler, 0) [] =
   Ret (None, (NewPeripheralHandler, 0), [\<lparr>msg_Kind = 0, msg_Id = 1, msg_Ack = 2, msg_Payload = Some [0]\<rparr>])"
proof -
  have "per_HandleCmd pb_example we_example unmarshal_example impl_example (cmd_example 7 1 2)
      (NewPeripheralHandler, 0) = Ret ((0, None, Some (ErrNotFound we_example)), (NewPeripheralHandler, 0))"
    by (simp add: per_eval)
  from peripheral_errors_have_kind_0 [OF this, of "\<lambda>b. Inr [0]" "[0]" "[]"] show ?thesis
    by (simp add: cmd_example_def pb_example_def)
qed

end
