(* ===== verification/Conn.thy ===== *)
theory Conn
  imports Codec
begin

text \<open>
  The connection managers of \<open>src/server\<close>: \<open>conn_base.go\<close> (the registration
  handshake), \<open>conn_stream.go\<close> (one goroutine per accepted connection) and
  \<open>conn_packet.go\<close> (virtual connections demultiplexed by remote address). The
  network (\<open>nethelper.Listen\<close>, \<open>iohelper.Pipe\<close>) and the registered codecs are
  parameters.
\<close>

section \<open>Codecs as the connection code uses them\<close>

text \<open>
  A \<open>codec.Interface\<close> value. \<open>cd_Encode\<close> is \<open>NewEncoder(w).Encode\<close> into a
  \<open>bytes.Buffer\<close>. \<open>cd_Decode\<close> is \<open>NewDecoder(r).Decode\<close> on a \<open>Msg\<close>, which may
  panic: the reader it leaves is what the connection still holds, which may lack more
  bytes than the message had, since a decoder may buffer.
\<close>

record 'v codec_iface =
  cd_Type :: int32
  cd_Encode :: "Msg \<Rightarrow> error + bytes"
  cd_Decode :: "reader \<Rightarrow> ((error + Msg) \<times> reader) outcome"
  cd_Marshal :: "'v body \<Rightarrow> error + bytes"
  cd_UnmarshalReg :: "slice \<Rightarrow> error + string \<times> int32 \<times> int32"

text \<open>\<open>%q\<close> of an enum's name, which has no characters to escape.\<close>

definition go_quote :: "string \<Rightarrow> string" where
  "go_quote s = CHR 0x22 # s @ [CHR 0x22]"

section \<open>The registration handshake\<close>

type_synonym 'v registration = "int32 \<times> string \<times> 'v codec_iface"

definition validateConnection ::
  "arhatgopb \<Rightarrow> (int32 \<Rightarrow> string) \<Rightarrow> (int32 \<rightharpoonup> 'v codec_iface) \<Rightarrow> reader
     \<Rightarrow> ((error + 'v registration) \<times> reader) outcome" where
  "validateConnection pb codec_String codecs conn =
     (case Get (CODEC_JSON pb) codecs of
        None \<Rightarrow> Ret (Inl (Errorf ''json codec not found''), conn)
      | Some c \<Rightarrow>
          bind_outcome (cd_Decode c conn) (\<lambda>(r, conn').
            case r of
              Inl err \<Rightarrow> Ret (Inl (Wrap ''invalid initial message'' err), conn')
            | Inr initialMsg \<Rightarrow>
                if msg_Kind initialMsg \<noteq> MSG_REGISTER pb then
                  Ret (Inl (Errorf ''initial message is not register message''), conn')
                else
                  (case cd_UnmarshalReg c (msg_Payload initialMsg) of
                     Inl err \<Rightarrow> Ret (Inl (Wrap ''failed to unmarshal register message'' err), conn')
                   | Inr (name, kind, codec) \<Rightarrow>
                       (case Get codec codecs of
                          None \<Rightarrow>
                            Ret (Inl (Errorf (''codec '' @ go_quote (codec_String codec) @ '' not supported'')), conn')
                        | Some c' \<Rightarrow> Ret (Inr (kind, name, c'), conn')))))"

section \<open>Stream connections\<close>

record net_addr =
  Network :: string
  AddrString :: string

text \<open>
  The dynamic type of what \<open>nethelper.Listen\<close> returned, as far as the type switches
  distinguish it; the first three are also \<open>io.Closer\<close>.
\<close>

datatype lraw = LListener | LPacketConn | LCloser | LOther

text \<open>A manager and how often its listener (\<open>l\<close>, \<open>p\<close> or \<open>t\<close>) was closed.\<close>

record 'tls conn_mgr =
  m_packet :: bool
  m_addr :: net_addr
  m_tlsConfig :: "'tls option"
  m_l :: "lraw option"
  m_closes :: nat

definition newStreamConnectionManager :: "net_addr \<Rightarrow> 'tls option \<Rightarrow> 'tls conn_mgr" where
  "newStreamConnectionManager addr tlsConfig =
     \<lparr>m_packet = False, m_addr = addr, m_tlsConfig = tlsConfig, m_l = None, m_closes = 0\<rparr>"

definition newPacketConnectionManager :: "net_addr \<Rightarrow> 'tls option \<Rightarrow> 'tls conn_mgr" where
  "newPacketConnectionManager addr tlsConfig =
     \<lparr>m_packet = True, m_addr = addr, m_tlsConfig = tlsConfig, m_l = None, m_closes = 0\<rparr>"

definition l_Close :: "'tls conn_mgr \<Rightarrow> 'tls conn_mgr" where
  "l_Close m = m\<lparr>m_closes := Suc (m_closes m)\<rparr>"

definition stream_Close :: "'tls conn_mgr \<Rightarrow> 'tls conn_mgr" where
  "stream_Close m = (if m_l m \<noteq> None then l_Close m else m)"

definition packet_Close :: "'tls conn_mgr \<Rightarrow> 'tls conn_mgr" where
  "packet_Close m = (if m_l m \<noteq> None then l_Close m else m)"

text \<open>\<open>Close\<close> through the interface \<open>connectionManager\<close>.\<close>

definition mgr_Close :: "'tls conn_mgr \<Rightarrow> 'tls conn_mgr" where
  "mgr_Close m = (if m_packet m then packet_Close m else stream_Close m)"

lemma mgr_Close_eq: "mgr_Close m = (if m_l m \<noteq> None then l_Close m else m)"
  by (simp add: mgr_Close_def stream_Close_def packet_Close_def)

text \<open>The parameters of \<open>nethelper.Listen\<close> that vary here.\<close>

type_synonym 'tls listen_func = "string \<Rightarrow> string \<Rightarrow> 'tls option \<Rightarrow> error + lraw"

definition stream_listen :: "'tls listen_func \<Rightarrow> 'tls conn_mgr \<Rightarrow> error option \<times> 'tls conn_mgr" where
  "stream_listen Listen m =
     (case (case m_tlsConfig m of
              None \<Rightarrow> Listen (Network (m_addr m)) (AddrString (m_addr m)) None
            | Some t \<Rightarrow> Listen (Network (m_addr m)) (AddrString (m_addr m)) (Some t)) of
        Inl err \<Rightarrow> (Some err, m)
      | Inr LListener \<Rightarrow> (None, m\<lparr>m_l := Some LListener\<rparr>)
      | Inr LOther \<Rightarrow> (Some (Errorf (''invalid '' @ go_quote (Network (m_addr m)) @ '' network listener'')), m)
      | Inr _ \<Rightarrow> (Some (Errorf (''invalid '' @ go_quote (Network (m_addr m)) @ '' network listener'')), l_Close m))"

definition packet_listen :: "'tls listen_func \<Rightarrow> 'tls conn_mgr \<Rightarrow> error option \<times> 'tls conn_mgr" where
  "packet_listen Listen m =
     (case (case m_tlsConfig m of
              None \<Rightarrow> Listen (Network (m_addr m)) (AddrString (m_addr m)) None
            | Some t \<Rightarrow> Listen (Network (m_addr m)) (AddrString (m_addr m)) (Some t)) of
        Inl err \<Rightarrow> (Some err, m)
      | Inr LOther \<Rightarrow>
          (Some (Errorf (''invalid '' @ go_quote (Network (m_addr m)) @ '' listener, no close interface'')), m)
      | Inr l \<Rightarrow> (None, m\<lparr>m_l := Some l\<rparr>))"

text \<open>
  The goroutine of one accepted connection, and how it ended; the deferred
  \<open>conn.Close\<close> runs in every case, also when it panics.
\<close>

datatype conn_end = ConnInvalid error | ConnFailed error | ConnDone | ConnPanic string

definition serve_conn ::
  "arhatgopb \<Rightarrow> (int32 \<Rightarrow> string) \<Rightarrow> (int32 \<rightharpoonup> 'v codec_iface)
     \<Rightarrow> (net_addr \<Rightarrow> 'v registration \<Rightarrow> reader \<Rightarrow> error option) \<Rightarrow> net_addr \<Rightarrow> reader \<Rightarrow> conn_end" where
  "serve_conn pb codec_String codecs handleNewConn addr conn =
     (case validateConnection pb codec_String codecs conn of
        Panic p \<Rightarrow> ConnPanic p
      | Ret (Inl err2, _) \<Rightarrow> ConnInvalid err2
      | Ret (Inr reg, conn') \<Rightarrow>
          (case handleNewConn addr reg conn' of
             Some err2 \<Rightarrow> ConnFailed err2
           | None \<Rightarrow> ConnDone))"

text \<open>
  The accept loop on the results of \<open>Accept\<close>: the connections a goroutine was started
  for, and the error the loop returned with (\<open>None\<close>: it is still accepting).
\<close>

fun accept_loop :: "string \<Rightarrow> (error + 'c) list \<Rightarrow> 'c list \<times> error option" where
  "accept_loop what [] = ([], None)"
| "accept_loop what (Inl err # rs) = ([], Some (Wrap what err))"
| "accept_loop what (Inr conn # rs) =
     (case accept_loop what rs of (cs, e) \<Rightarrow> (conn # cs, e))"

definition stream_ListenAndServe ::
  "'tls listen_func \<Rightarrow> (error + 'c) list \<Rightarrow> 'tls conn_mgr \<Rightarrow> error option \<times> 'c list \<times> 'tls conn_mgr" where
  "stream_ListenAndServe Listen accepts m =
     (case stream_listen Listen m of
        (Some err, m1) \<Rightarrow> (Some err, [], m1)
      | (None, m1) \<Rightarrow>
          (case accept_loop ''failed to accept new connection'' accepts of
             (cs, Some err) \<Rightarrow> (Some err, cs, l_Close m1)
           | (cs, None) \<Rightarrow> (None, cs, m1)))"

section \<open>Packet connections\<close>

text \<open>
  \<open>iohelper.Pipe\<close> is outside the repository: \<open>pw.Write\<close> and \<open>pw.Close\<close> act on a
  pipe of type \<open>'p\<close>. A virtual connection keeps the data of the calls of \<open>pw.Write\<close>
  that returned, with their results (\<open>pc_writes\<close>), the part of the packet log during which it was in the table, and
  the datagrams its handler wrote (\<open>pc_sent\<close>); \<open>pm_sent\<close> are all datagrams the
  manager's socket accepted, with their destinations. \<open>pm_log\<close> are the packets that
  \<open>ReadFrom\<close> delivered; \<open>pm_write\<close> is the call of \<open>pw.Write\<close> the read loop is in
  (the connection, the pooled buffer, the length of the packet).
\<close>

record 'p pipe_ops =
  p_new :: 'p
  p_Write :: "bytes \<Rightarrow> 'p \<Rightarrow> error option \<times> 'p"
  p_Close :: "'p \<Rightarrow> 'p"

datatype pc_phase = PServing | PClosed | PGone

record ('p, 'v) pkt_conn =
  pc_ra :: string
  pc_reg :: "'v registration"
  pc_pipe :: 'p
  pc_phase :: pc_phase
  pc_writes :: "(bytes \<times> error option) list"
  pc_start :: nat
  pc_stop :: "nat option"
  pc_sent :: "bytes list"

record ('p, 'v) pkt_mgr =
  connections :: "string \<rightharpoonup> nat"
  pkt_conns :: "('p, 'v) pkt_conn list"
  pm_pool :: pool
  pm_log :: "(string \<times> bytes) list"
  pm_sent :: "(string \<times> bytes) list"
  pm_write :: "(nat \<times> bytes \<times> nat) option"

definition newPktMgr :: "pool \<Rightarrow> ('p, 'v) pkt_mgr" where
  "newPktMgr pl = \<lparr>connections = Map.empty, pkt_conns = [], pm_pool = pl, pm_log = [], pm_sent = [], pm_write = None\<rparr>"

text \<open>The pooled copy of a packet of \<open>n\<close> bytes in the read buffer.\<close>

definition packet_copy :: "nat option \<Rightarrow> pool \<Rightarrow> bytes \<Rightarrow> nat \<Rightarrow> (bytes \<times> pool) outcome" where
  "packet_copy pick pl buf n =
     bind_outcome (GetBytesBuf pick pl (int n)) (\<lambda>(dat, pl'). Ret (take n buf @ drop n dat, pl'))"

text \<open>
  One iteration of the read loop, \<open>n\<close> bytes from address \<open>addr\<close> in \<open>buf\<close>, up to
  the lookup: a packet of a known address is about to be written to its pipe, another one
  is a registration. Then the call of \<open>pw.Write\<close>, which may take its time: meanwhile
  the connection's goroutine may close the pipe and delete the entry.
\<close>

definition pkt_recv ::
  "arhatgopb \<Rightarrow> (int32 \<Rightarrow> string) \<Rightarrow> (int32 \<rightharpoonup> 'v codec_iface) \<Rightarrow> 'p pipe_ops \<Rightarrow> nat option
     \<Rightarrow> string \<Rightarrow> bytes \<Rightarrow> nat \<Rightarrow> ('p, 'v) pkt_mgr \<Rightarrow> ('p, 'v) pkt_mgr outcome" where
  "pkt_recv pb codec_String codecs P pick addr buf n m =
     bind_outcome (packet_copy pick (pm_pool m) buf n) (\<lambda>(dat, pl).
       case connections m addr of
         Some i \<Rightarrow> Ret (m\<lparr>pm_pool := pl, pm_log := pm_log m @ [(addr, take n buf)], pm_write := Some (i, dat, n)\<rparr>)
       | None \<Rightarrow>
           let m1 = m\<lparr>pm_pool := PutBytesBuf dat pl, pm_log := pm_log m @ [(addr, take n buf)]\<rparr> in
           (case validateConnection pb codec_String codecs \<lparr>rd_data = take n dat, rd_err = EOF\<rparr> of
              Panic p \<Rightarrow> Panic p
            | Ret (Inl err2, _) \<Rightarrow> Ret m1
            | Ret (Inr reg, _) \<Rightarrow>
                Ret (m1\<lparr>connections := (connections m1)(addr \<mapsto> length (pkt_conns m1)),
                        pkt_conns := pkt_conns m1 @
                          [\<lparr>pc_ra = addr, pc_reg = reg, pc_pipe = p_new P, pc_phase = PServing,
                            pc_writes = [], pc_start = length (pm_log m1), pc_stop = None, pc_sent = []\<rparr>]\<rparr>)))"

definition pkt_write :: "'p pipe_ops \<Rightarrow> nat \<Rightarrow> bytes \<Rightarrow> nat \<Rightarrow> ('p, 'v) pkt_mgr \<Rightarrow> ('p, 'v) pkt_mgr" where
  "pkt_write P i dat n m =
     (let c = pkt_conns m ! i in
      case p_Write P (take n dat) (pc_pipe c) of (err2, pipe) \<Rightarrow>
        m\<lparr>pkt_conns := (pkt_conns m)[i :=
            c\<lparr>pc_pipe := (if err2 = None then pipe else p_Close P pipe),
              pc_writes := pc_writes c @ [(take n dat, err2)]\<rparr>],
          pm_pool := PutBytesBuf dat (pm_pool m), pm_write := None\<rparr>)"

text \<open>
  The deferred calls of a virtual connection's goroutine, once \<open>handleNewConn\<close>
  returned: \<open>pw.Close\<close>, then \<open>m.connections.Delete(addr)\<close>.
\<close>

definition pkt_close :: "'p pipe_ops \<Rightarrow> nat \<Rightarrow> ('p, 'v) pkt_mgr \<Rightarrow> ('p, 'v) pkt_mgr" where
  "pkt_close P i m =
     (let c = pkt_conns m ! i in
      m\<lparr>pkt_conns := (pkt_conns m)[i := c\<lparr>pc_pipe := p_Close P (pc_pipe c), pc_phase := PClosed\<rparr>]\<rparr>)"

definition pkt_delete :: "nat \<Rightarrow> ('p, 'v) pkt_mgr \<Rightarrow> ('p, 'v) pkt_mgr" where
  "pkt_delete i m =
     (let c = pkt_conns m ! i in
      m\<lparr>connections := (connections m)(pc_ra c := None),
        pkt_conns := (pkt_conns m)[i := c\<lparr>pc_phase := PGone, pc_stop := Some (length (pm_log m))\<rparr>]\<rparr>)"

text \<open>\<open>Write\<close> of a \<open>packetStream\<close>: \<open>WriteTo\<close> with the connection's remote address.\<close>

definition packetStream_Write :: "nat \<Rightarrow> bytes \<Rightarrow> ('p, 'v) pkt_mgr \<Rightarrow> ('p, 'v) pkt_mgr" where
  "packetStream_Write i dat m =
     (let c = pkt_conns m ! i in
      m\<lparr>pkt_conns := (pkt_conns m)[i := c\<lparr>pc_sent := pc_sent c @ [dat]\<rparr>],
        pm_sent := pm_sent m @ [(pc_ra c, dat)]\<rparr>)"

text \<open>
  The read loop, and the goroutines of the connections: their deferred calls, what they
  send, and what they do to their end of the pipe (\<open>pk_read\<close>).
\<close>

inductive pkt_step ::
  "arhatgopb \<Rightarrow> (int32 \<Rightarrow> string) \<Rightarrow> (int32 \<rightharpoonup> 'v codec_iface) \<Rightarrow> 'p pipe_ops
     \<Rightarrow> ('p, 'v) pkt_mgr \<Rightarrow> ('p, 'v) pkt_mgr \<Rightarrow> bool"
  for pb codec_String codecs P where
  pk_recv: "pm_write m = None \<Longrightarrow> length buf = 65535 \<Longrightarrow> n \<le> 65535 \<Longrightarrow>
     pkt_recv pb codec_String codecs P pick addr buf n m = Ret m' \<Longrightarrow>
     pkt_step pb codec_String codecs P m m'"
| pk_write: "pm_write m = Some (i, dat, n) \<Longrightarrow> pkt_step pb codec_String codecs P m (pkt_write P i dat n m)"
| pk_read: "i < length (pkt_conns m) \<Longrightarrow>
     pkt_step pb codec_String codecs P m (m\<lparr>pkt_conns := (pkt_conns m)[i := (pkt_conns m ! i)\<lparr>pc_pipe := pipe\<rparr>]\<rparr>)"
| pk_close: "i < length (pkt_conns m) \<Longrightarrow> pc_phase (pkt_conns m ! i) = PServing \<Longrightarrow>
     pkt_step pb codec_String codecs P m (pkt_close P i m)"
| pk_delete: "i < length (pkt_conns m) \<Longrightarrow> pc_phase (pkt_conns m ! i) = PClosed \<Longrightarrow>
     pkt_step pb codec_String codecs P m (pkt_delete i m)"
| pk_send: "i < length (pkt_conns m) \<Longrightarrow> pc_phase (pkt_conns m ! i) = PServing \<Longrightarrow>
     pkt_step pb codec_String codecs P m (packetStream_Write i dat m)"

definition pkt_init :: "('p, 'v) pkt_mgr \<Rightarrow> bool" where
  "pkt_init m \<longleftrightarrow> (\<exists>pl. m = newPktMgr pl)"

text \<open>
  \<open>ListenAndServe\<close> of the packet manager, on the results of \<open>Accept\<close> or
  \<open>ReadFrom\<close>: the accepted connections, or the packets its read loop handled.
\<close>

definition packet_ListenAndServe ::
  "'tls listen_func \<Rightarrow> (error + 'c) list \<Rightarrow> (error + 'r) list \<Rightarrow> 'tls conn_mgr
     \<Rightarrow> error option \<times> 'c list \<times> 'r list \<times> 'tls conn_mgr" where
  "packet_ListenAndServe Listen accepts reads m =
     (case packet_listen Listen m of
        (Some err, m1) \<Rightarrow> (Some err, [], [], m1)
      | (None, m1) \<Rightarrow>
          (case m_l m1 of
             Some LListener \<Rightarrow>
               (case accept_loop ''failed to accept new packet connection'' accepts of
                  (cs, Some err) \<Rightarrow> (Some err, cs, [], l_Close m1)
                | (cs, None) \<Rightarrow> (None, cs, [], m1))
           | Some LPacketConn \<Rightarrow>
               (case accept_loop ''failed to read packet'' reads of
                  (ps, Some err2) \<Rightarrow> (Some err2, [], ps, l_Close m1)
                | (ps, None) \<Rightarrow> (None, [], ps, m1))
           | _ \<Rightarrow> (Some (Errorf ''unexpected conn''), [], [], l_Close m1)))"

section \<open>Invariant of the demultiplexer\<close>

definition from_addr :: "string \<Rightarrow> (string \<times> bytes) list \<Rightarrow> bytes list" where
  "from_addr ra l = map snd (filter (\<lambda>p. fst p = ra) l)"

lemma from_addr_simps [simp]:
  "from_addr ra [] = []" "from_addr ra (l @ l') = from_addr ra l @ from_addr ra l'"
  "from_addr ra ((a, d) # l) = (if a = ra then d # from_addr ra l else from_addr ra l)"
  by (simp_all add: from_addr_def)

definition conn_window :: "('p, 'v) pkt_conn \<Rightarrow> (string \<times> bytes) list \<Rightarrow> (string \<times> bytes) list" where
  "conn_window c l =
     drop (pc_start c) (case pc_stop c of None \<Rightarrow> l | Some e \<Rightarrow> take e l)"

text \<open>
  A connection's writes, with the one the read loop is in, are the packets of its address
  in its window; it is in the table under its address exactly while its goroutine has not
  deleted it.
\<close>

definition pkt_pending :: "('p, 'v) pkt_mgr \<Rightarrow> nat \<Rightarrow> bytes list" where
  "pkt_pending m i = (case pm_write m of Some (j, dat, n) \<Rightarrow> if j = i then [take n dat] else [] | None \<Rightarrow> [])"

definition pkt_conn_ok :: "('p, 'v) pkt_mgr \<Rightarrow> nat \<Rightarrow> bool" where
  "pkt_conn_ok m i \<longleftrightarrow>
     (let c = pkt_conns m ! i in
      map fst (pc_writes c) @ pkt_pending m i = from_addr (pc_ra c) (conn_window c (pm_log m)) \<and>
      pc_start c \<le> length (pm_log m) \<and>
      (pc_phase c = PGone \<longleftrightarrow> pc_stop c \<noteq> None) \<and>
      (\<forall>e. pc_stop c = Some e \<longrightarrow> pc_start c \<le> e \<and> e \<le> length (pm_log m)) \<and>
      (connections m (pc_ra c) = Some i \<longleftrightarrow> pc_phase c \<noteq> PGone))"

definition pkt_inv :: "('p, 'v) pkt_mgr \<Rightarrow> bool" where
  "pkt_inv m \<longleftrightarrow>
     (\<forall>i < length (pkt_conns m). pkt_conn_ok m i) \<and>
     (\<forall>ra i. connections m ra = Some i \<longrightarrow> i < length (pkt_conns m) \<and> pc_ra (pkt_conns m ! i) = ra) \<and>
     (\<forall>i dat n. pm_write m = Some (i, dat, n) \<longrightarrow> i < length (pkt_conns m))"

lemma packet_copy_data:
  assumes "packet_copy pick pl buf n = Ret (dat, pl')" and "n \<le> length buf"
  shows "take n dat = take n buf"
  using assms by (auto simp: packet_copy_def bind_outcome_Ret_iff)

lemma packet_copy_Ret:
  assumes "n \<le> 65535"
  shows "\<exists>dat pl'. packet_copy pick pl buf n = Ret (dat, pl')"
proof -
  have "int n \<le> maxAlloc" using assms by (simp add: maxAlloc_def)
  then obtain b pl' where "GetBytesBuf pick pl (int n) = Ret (b, pl')" by (rule GetBytesBuf_small)
  then show ?thesis by (simp add: packet_copy_def)
qed

lemma conn_window_log:
  assumes "pkt_conn_ok m i"
  shows "conn_window (pkt_conns m ! i) (pm_log m @ [p]) =
         conn_window (pkt_conns m ! i) (pm_log m) @ (if pc_stop (pkt_conns m ! i) = None then [p] else [])"
  using assms by (auto simp: pkt_conn_ok_def Let_def conn_window_def split: option.splits)

lemma pkt_pending_simps [simp]:
  "pm_write m = None \<Longrightarrow> pkt_pending m i = []"
  "pkt_pending (m\<lparr>connections := t\<rparr>) i = pkt_pending m i" "pkt_pending (m\<lparr>pkt_conns := cs\<rparr>) i = pkt_pending m i"
  "pkt_pending (m\<lparr>pm_sent := snt\<rparr>) i = pkt_pending m i" "pkt_pending (m\<lparr>pm_log := l\<rparr>) i = pkt_pending m i"
  "pkt_pending (m\<lparr>pm_pool := pl\<rparr>) i = pkt_pending m i"
  "pkt_pending (m\<lparr>pm_write := Some (j, dat, n)\<rparr>) i = (if j = i then [take n dat] else [])"
  by (simp_all add: pkt_pending_def)

text \<open>A packet is logged, and about to be written to its connection if there is one.\<close>

lemma pkt_load_inv:
  assumes inv: "pkt_inv m" and tab: "connections m addr = Some j" and none: "pm_write m = None"
    and d: "take n dat = d"
    and m': "m' = m\<lparr>pm_pool := pl, pm_log := pm_log m @ [(addr, d)], pm_write := Some (j, dat, n)\<rparr>"
  shows "pkt_inv m'"
proof -
  have j: "j < length (pkt_conns m)" "pc_ra (pkt_conns m ! j) = addr"
    and ok: "\<And>i. i < length (pkt_conns m) \<Longrightarrow> pkt_conn_ok m i"
    using inv tab by (auto simp: pkt_inv_def)
  have "pc_stop (pkt_conns m ! j) = None"
    using ok [OF j(1)] tab j(2) by (auto simp: pkt_conn_ok_def Let_def)
  have "pkt_conn_ok m' i" if i: "i < length (pkt_conns m)" for i
  proof (cases "i = j")
    case True
    with ok [OF i] conn_window_log [OF ok [OF i], of "(addr, d)"] j tab none d \<open>pc_stop (pkt_conns m ! j) = None\<close>
    show ?thesis unfolding m' by (auto simp: pkt_conn_ok_def Let_def)
  next
    case False
    then have "pc_ra (pkt_conns m ! i) \<noteq> addr \<or> pc_stop (pkt_conns m ! i) \<noteq> None"
      using ok [OF i] tab by (auto simp: pkt_conn_ok_def Let_def)
    with ok [OF i] False none conn_window_log [OF ok [OF i], of "(addr, d)"] show ?thesis unfolding m'
      by (auto simp: pkt_conn_ok_def Let_def)
  qed
  with inv j(1) show ?thesis unfolding m' by (auto simp: pkt_inv_def)
qed

lemma pkt_write_conn:
  "\<exists>c. pkt_conns (pkt_write P j dat n m) = (pkt_conns m)[j := c] \<and> pm_sent (pkt_write P j dat n m) = pm_sent m \<and>
     pc_ra c = pc_ra (pkt_conns m ! j) \<and> pc_sent c = pc_sent (pkt_conns m ! j) \<and> pc_phase c = pc_phase (pkt_conns m ! j) \<and>
     map fst (pc_writes c) = map fst (pc_writes (pkt_conns m ! j)) @ [take n dat] \<and>
     pc_start c = pc_start (pkt_conns m ! j) \<and> pc_stop c = pc_stop (pkt_conns m ! j)"
proof (cases "p_Write P (take n dat) (pc_pipe (pkt_conns m ! j))")
  case (Pair err2 pipe)
  let ?c = "(pkt_conns m ! j)\<lparr>pc_pipe := (if err2 = None then pipe else p_Close P pipe),
      pc_writes := pc_writes (pkt_conns m ! j) @ [(take n dat, err2)]\<rparr>"
  show ?thesis by (rule exI [of _ ?c]) (simp add: pkt_write_def Let_def Pair)
qed

text \<open>A step that changes one connection, and what is pending for it, in neither its address nor its writes.\<close>

lemma pkt_conn_update_inv:
  assumes inv: "pkt_inv m" and i: "i < length (pkt_conns m)"
    and m': "pkt_conns m' = (pkt_conns m)[i := c]" "connections m' = connections m" "pm_log m' = pm_log m"
      "pm_write m' = pm_write m \<or> pm_write m' = None"
    and c: "pc_ra c = pc_ra (pkt_conns m ! i)" "pc_start c = pc_start (pkt_conns m ! i)" "pc_stop c = pc_stop (pkt_conns m ! i)"
      "pc_phase c = PGone \<longleftrightarrow> pc_phase (pkt_conns m ! i) = PGone"
    and w: "map fst (pc_writes c) @ pkt_pending m' i = map fst (pc_writes (pkt_conns m ! i)) @ pkt_pending m i"
      "\<And>j. j \<noteq> i \<Longrightarrow> pkt_pending m' j = pkt_pending m j"
  shows "pkt_inv m'"
proof -
  have "pkt_conn_ok m' j" if "j < length (pkt_conns m)" for j
  proof -
    have "pkt_conn_ok m j" using inv that by (simp add: pkt_inv_def)
    with i m' c w show ?thesis by (cases "j = i") (simp_all add: pkt_conn_ok_def Let_def conn_window_def)
  qed
  moreover have "pc_ra (pkt_conns m' ! j) = pc_ra (pkt_conns m ! j)" for j
    using i m'(1) c(1) by (cases "j = i") simp_all
  ultimately show ?thesis using inv m' by (auto simp: pkt_inv_def)
qed

lemma pkt_write_inv:
  assumes inv: "pkt_inv m" and w: "pm_write m = Some (j, dat, n)"
  shows "pkt_inv (pkt_write P j dat n m)"
proof -
  have j: "j < length (pkt_conns m)" using inv w by (simp add: pkt_inv_def)
  obtain c where c: "pkt_conns (pkt_write P j dat n m) = (pkt_conns m)[j := c]" "pc_ra c = pc_ra (pkt_conns m ! j)"
    "pc_phase c = pc_phase (pkt_conns m ! j)" "map fst (pc_writes c) = map fst (pc_writes (pkt_conns m ! j)) @ [take n dat]"
    "pc_start c = pc_start (pkt_conns m ! j)" "pc_stop c = pc_stop (pkt_conns m ! j)"
    using pkt_write_conn [of P j dat n m] by blast
  have rest: "connections (pkt_write P j dat n m) = connections m" "pm_log (pkt_write P j dat n m) = pm_log m"
    "pm_write (pkt_write P j dat n m) = None" by (simp_all add: pkt_write_def Let_def split: prod.splits)
  have "pkt_pending m i = (if i = j then [take n dat] else [])" for i using w by (simp add: pkt_pending_def)
  with c rest show ?thesis by (intro pkt_conn_update_inv [OF inv j c(1)]) simp_all
qed

lemma pkt_log_inv:
  assumes inv: "pkt_inv m" and tab: "connections m addr = None" and none: "pm_write m = None"
  shows "pkt_inv (m\<lparr>pm_pool := pl, pm_log := pm_log m @ [(addr, d)]\<rparr>)"
proof -
  have "pkt_conn_ok (m\<lparr>pm_pool := pl, pm_log := pm_log m @ [(addr, d)]\<rparr>) i"
    if i: "i < length (pkt_conns m)" for i
  proof -
    have ok: "pkt_conn_ok m i" using inv i by (simp add: pkt_inv_def)
    then have "pc_ra (pkt_conns m ! i) \<noteq> addr \<or> pc_stop (pkt_conns m ! i) \<noteq> None"
      using tab by (auto simp: pkt_conn_ok_def Let_def)
    with ok conn_window_log [OF ok, of "(addr, d)"] show ?thesis
      by (auto simp: pkt_conn_ok_def Let_def)
  qed
  with inv none show ?thesis by (simp add: pkt_inv_def)
qed

lemma pkt_new_inv:
  assumes inv: "pkt_inv m" and tab: "connections m addr = None" and none: "pm_write m = None"
    and c: "pc_ra c = addr" "pc_phase c = PServing" "pc_writes c = []"
      "pc_start c = length (pm_log m)" "pc_stop c = None"
  shows "pkt_inv (m\<lparr>connections := (connections m)(addr \<mapsto> length (pkt_conns m)),
                    pkt_conns := pkt_conns m @ [c]\<rparr>)" (is "pkt_inv ?m")
proof -
  have "pkt_conn_ok ?m i" if i: "i < Suc (length (pkt_conns m))" for i
  proof (cases "i = length (pkt_conns m)")
    case True
    with c none show ?thesis by (simp add: pkt_conn_ok_def Let_def conn_window_def)
  next
    case False
    with i have i': "i < length (pkt_conns m)" by simp
    with inv have ok: "pkt_conn_ok m i" by (simp add: pkt_inv_def)
    have "pkt_conns ?m ! i = pkt_conns m ! i" "pm_log ?m = pm_log m" using i' by (simp_all add: nth_append)
    moreover have "connections ?m (pc_ra (pkt_conns m ! i)) = Some i \<longleftrightarrow>
        connections m (pc_ra (pkt_conns m ! i)) = Some i" using tab i' by auto
    ultimately show ?thesis using ok none unfolding pkt_conn_ok_def Let_def by simp
  qed
  moreover have "j < length (pkt_conns ?m) \<and> pc_ra (pkt_conns ?m ! j) = ra"
    if "connections ?m ra = Some j" for ra j
    using that inv c(1) by (cases "ra = addr") (auto simp: pkt_inv_def nth_append intro: less_SucI)
  ultimately show ?thesis using none unfolding pkt_inv_def by simp
qed

lemma pkt_recv_inv:
  assumes "pkt_recv pb cs codecs P pick addr buf n m = Ret m'" and inv: "pkt_inv m" and none: "pm_write m = None"
    and n: "n \<le> length buf"
  shows "pkt_inv m'"
proof -
  from assms(1) obtain dat pl where copy: "packet_copy pick (pm_pool m) buf n = Ret (dat, pl)"
    by (auto simp: pkt_recv_def bind_outcome_Ret_iff)
  show ?thesis
  proof (cases "connections m addr")
    case (Some j)
    with assms(1) copy have m': "m' = m\<lparr>pm_pool := pl, pm_log := pm_log m @ [(addr, take n buf)], pm_write := Some (j, dat, n)\<rparr>"
      by (simp add: pkt_recv_def)
    show ?thesis by (rule pkt_load_inv [OF inv Some none packet_copy_data [OF copy n] m'])
  next
    case None
    define m1 where "m1 = m\<lparr>pm_pool := PutBytesBuf dat pl, pm_log := pm_log m @ [(addr, take n buf)]\<rparr>"
    have m1: "pkt_inv m1" "connections m1 addr = None" "pm_write m1 = None"
      unfolding m1_def using None none by (simp_all add: pkt_log_inv [OF inv])
    from assms(1) copy None
    have "m' = m1 \<or> (\<exists>reg. m' = m1\<lparr>connections := (connections m1)(addr \<mapsto> length (pkt_conns m1)),
        pkt_conns := pkt_conns m1 @ [\<lparr>pc_ra = addr, pc_reg = reg, pc_pipe = p_new P,
          pc_phase = PServing, pc_writes = [], pc_start = length (pm_log m1), pc_stop = None, pc_sent = []\<rparr>]\<rparr>)"
      by (auto simp: pkt_recv_def m1_def Let_def split: outcome.splits sum.splits prod.splits)
    then show ?thesis using m1(1) pkt_new_inv [OF m1] by auto
  qed
qed

lemma pkt_close_inv:
  assumes "i < length (pkt_conns m)" "pc_phase (pkt_conns m ! i) = PServing" and inv: "pkt_inv m"
  shows "pkt_inv (pkt_close P i m)"
  by (rule pkt_conn_update_inv [OF inv assms(1),
        of _ "(pkt_conns m ! i)\<lparr>pc_pipe := p_Close P (pc_pipe (pkt_conns m ! i)), pc_phase := PClosed\<rparr>"])
    (simp_all add: pkt_close_def Let_def assms(2))

lemma pkt_delete_inv:
  assumes i: "i < length (pkt_conns m)" "pc_phase (pkt_conns m ! i) = PClosed" and inv: "pkt_inv m"
  shows "pkt_inv (pkt_delete i m)"
proof -
  have ok: "\<And>j. j < length (pkt_conns m) \<Longrightarrow> pkt_conn_ok m j" using inv by (simp add: pkt_inv_def)
  have here: "connections m (pc_ra (pkt_conns m ! i)) = Some i" "pc_stop (pkt_conns m ! i) = None"
    using ok [OF i(1)] i(2) by (auto simp: pkt_conn_ok_def Let_def)
  have "pkt_conn_ok (pkt_delete i m) j" if "j < length (pkt_conns m)" for j
  proof (cases "j = i")
    case True
    with ok [OF that] i here show ?thesis
      by (simp add: pkt_conn_ok_def pkt_delete_def Let_def conn_window_def)
  next
    case False
    then have "pkt_conns (pkt_delete i m) ! j = pkt_conns m ! j"
      "pm_log (pkt_delete i m) = pm_log m" "pkt_pending (pkt_delete i m) j = pkt_pending m j"
      by (simp_all add: pkt_delete_def Let_def)
    moreover have "connections (pkt_delete i m) (pc_ra (pkt_conns m ! j)) = Some j \<longleftrightarrow>
        connections m (pc_ra (pkt_conns m ! j)) = Some j"
      using False here by (simp add: pkt_delete_def Let_def)
    ultimately show ?thesis using ok [OF that] unfolding pkt_conn_ok_def Let_def by simp
  qed
  with inv i show ?thesis by (auto simp: pkt_inv_def pkt_delete_def Let_def nth_list_update)
qed

lemma packetStream_Write_inv:
  assumes "i < length (pkt_conns m)" and inv: "pkt_inv m"
  shows "pkt_inv (packetStream_Write i dat m)"
  by (rule pkt_conn_update_inv [OF inv assms(1), of _ "(pkt_conns m ! i)\<lparr>pc_sent := pc_sent (pkt_conns m ! i) @ [dat]\<rparr>"])
    (simp_all add: packetStream_Write_def Let_def)

section \<open>Replies\<close>

text \<open>
  What the connections of an address wrote, one after another; and that no connection is in
  use beside a later one of its address.
\<close>

definition sent_by :: "string \<Rightarrow> ('p, 'v) pkt_conn list \<Rightarrow> bytes list" where
  "sent_by ra cs = concat (map pc_sent (filter (\<lambda>c. pc_ra c = ra) cs))"

definition pkt_replies :: "('p, 'v) pkt_mgr \<Rightarrow> bool" where
  "pkt_replies m \<longleftrightarrow>
     (\<forall>ra. from_addr ra (pm_sent m) = sent_by ra (pkt_conns m)) \<and>
     (\<forall>j < length (pkt_conns m). \<forall>i < j.
        pc_ra (pkt_conns m ! i) = pc_ra (pkt_conns m ! j) \<longrightarrow> pc_phase (pkt_conns m ! i) = PGone)"

lemma sent_by_simps [simp]:
  "sent_by ra [] = []" "sent_by ra (cs @ cs') = sent_by ra cs @ sent_by ra cs'"
  "sent_by ra (c # cs) = (if pc_ra c = ra then pc_sent c @ sent_by ra cs else sent_by ra cs)"
  by (simp_all add: sent_by_def)

lemma sent_by_update:
  assumes "i < length cs" and "pc_ra c = pc_ra (cs ! i)" and "pc_sent c = pc_sent (cs ! i)"
  shows "sent_by ra (cs[i := c]) = sent_by ra cs"
proof -
  have "cs = take i cs @ cs ! i # drop (Suc i) cs" by (rule id_take_nth_drop [OF assms(1)])
  then have "sent_by ra cs = sent_by ra (take i cs @ cs ! i # drop (Suc i) cs)" by (rule arg_cong)
  with assms show ?thesis by (simp add: upd_conv_take_nth_drop)
qed

lemma sent_by_write:
  assumes i: "i < length cs" and last: "\<And>j. i < j \<Longrightarrow> j < length cs \<Longrightarrow> pc_ra (cs ! j) \<noteq> pc_ra (cs ! i)"
  shows "sent_by ra (cs[i := (cs ! i)\<lparr>pc_sent := pc_sent (cs ! i) @ [dat]\<rparr>]) =
         sent_by ra cs @ (if pc_ra (cs ! i) = ra then [dat] else [])"
proof -
  have rest: "sent_by (pc_ra (cs ! i)) (drop (Suc i) cs) = []"
    using last by (auto simp: sent_by_def filter_empty_conv in_set_conv_nth)
  have "cs = take i cs @ cs ! i # drop (Suc i) cs" by (rule id_take_nth_drop [OF i])
  then have "sent_by ra cs = sent_by ra (take i cs @ cs ! i # drop (Suc i) cs)" by (rule arg_cong)
  with rest show ?thesis by (auto simp: upd_conv_take_nth_drop [OF i])
qed

text \<open>A step that changes one connection in neither its address nor what it sent.\<close>

lemma pkt_replies_update:
  assumes inv: "pkt_replies m" and i: "i < length (pkt_conns m)"
    and m': "pkt_conns m' = (pkt_conns m)[i := c]" "pm_sent m' = pm_sent m"
    and c: "pc_ra c = pc_ra (pkt_conns m ! i)" "pc_sent c = pc_sent (pkt_conns m ! i)"
      "pc_phase (pkt_conns m ! i) = PGone \<Longrightarrow> pc_phase c = PGone"
  shows "pkt_replies m'"
proof -
  have "pc_ra ((pkt_conns m)[i := c] ! j) = pc_ra (pkt_conns m ! j)"
    and "pc_phase (pkt_conns m ! j) = PGone \<Longrightarrow> pc_phase ((pkt_conns m)[i := c] ! j) = PGone" for j
    using i c by (cases "j = i"; simp)+
  with inv show ?thesis unfolding pkt_replies_def m' sent_by_update [OF i c(1,2)] by simp
qed

lemma packetStream_Write_replies:
  assumes inv: "pkt_replies m" and i: "i < length (pkt_conns m)" "pc_phase (pkt_conns m ! i) = PServing"
  shows "pkt_replies (packetStream_Write i dat m)"
proof -
  have "pc_ra (pkt_conns m ! j) \<noteq> pc_ra (pkt_conns m ! i)" if "i < j" "j < length (pkt_conns m)" for j
    using inv i that unfolding pkt_replies_def by (metis pc_phase.distinct(3))
  note wr = sent_by_write [OF i(1) this]
  have "from_addr ra (pm_sent (packetStream_Write i dat m)) = sent_by ra (pkt_conns (packetStream_Write i dat m))" for ra
    using inv by (simp add: packetStream_Write_def Let_def pkt_replies_def wr)
  moreover have "pc_ra (pkt_conns (packetStream_Write i dat m) ! j) = pc_ra (pkt_conns m ! j)"
    "pc_phase (pkt_conns (packetStream_Write i dat m) ! j) = pc_phase (pkt_conns m ! j)" for j
    using i(1) by (cases "j = i"; simp add: packetStream_Write_def Let_def)+
  ultimately show ?thesis using inv unfolding pkt_replies_def by (simp add: packetStream_Write_def Let_def)
qed

lemma pkt_recv_replies:
  assumes step: "pkt_recv pb cs codecs P pick addr buf n m = Ret m'" and inv: "pkt_inv m" and rep: "pkt_replies m"
  shows "pkt_replies m'"
proof (cases "connections m addr")
  case (Some j)
  with step have "pkt_conns m' = pkt_conns m" "pm_sent m' = pm_sent m"
    by (auto simp: pkt_recv_def bind_outcome_Ret_iff Let_def)
  with rep show ?thesis by (simp add: pkt_replies_def)
next
  case None
  from step obtain dat pl where copy: "packet_copy pick (pm_pool m) buf n = Ret (dat, pl)"
    by (auto simp: pkt_recv_def bind_outcome_Ret_iff)
  with None step consider "pkt_conns m' = pkt_conns m" "pm_sent m' = pm_sent m"
    | c where "pkt_conns m' = pkt_conns m @ [c]" "pm_sent m' = pm_sent m" "pc_ra c = addr" "pc_sent c = []"
    by (fastforce simp: pkt_recv_def Let_def split: outcome.splits sum.splits prod.splits)
  then show ?thesis
  proof cases
    case 1
    with rep show ?thesis by (simp add: pkt_replies_def)
  next
    case (2 c)
    have "pc_phase (pkt_conns m ! i) = PGone" if "i < length (pkt_conns m)" "pc_ra (pkt_conns m ! i) = addr" for i
    proof -
      have "pkt_conn_ok m i" using inv that(1) by (simp add: pkt_inv_def)
      then have "connections m (pc_ra (pkt_conns m ! i)) = Some i \<longleftrightarrow> pc_phase (pkt_conns m ! i) \<noteq> PGone"
        by (simp add: pkt_conn_ok_def Let_def)
      with that(2) None show ?thesis by simp
    qed
    with rep 2 show ?thesis by (auto simp: pkt_replies_def nth_append less_Suc_eq)
  qed
qed

lemma pkt_step_inv:
  assumes "pkt_step pb codec_String codecs P m m'" and inv: "pkt_inv m"
  shows "pkt_inv m'"
  using assms(1)
proof cases
  case (pk_read i pipe)
  then show ?thesis by (intro pkt_conn_update_inv [OF inv pk_read(2), of _ "(pkt_conns m ! i)\<lparr>pc_pipe := pipe\<rparr>"]) simp_all
qed (use inv in \<open>auto intro: pkt_recv_inv pkt_write_inv pkt_close_inv pkt_delete_inv packetStream_Write_inv\<close>)

lemma pkt_step_replies:
  assumes "pkt_step pb codec_String codecs P m m'" and inv: "pkt_inv m" and rep: "pkt_replies m"
  shows "pkt_replies m'"
  using assms(1)
proof cases
  case (pk_write j dat n)
  then have "j < length (pkt_conns m)" using inv by (simp add: pkt_inv_def)
  with pk_write pkt_write_conn [of P j dat n m] show ?thesis by (auto intro: pkt_replies_update [OF rep])
next
  case (pk_read i pipe)
  show ?thesis by (rule pkt_replies_update [OF rep pk_read(2), of _ "(pkt_conns m ! i)\<lparr>pc_pipe := pipe\<rparr>"]) (simp_all add: pk_read)
next
  case (pk_close i)
  let ?c = "(pkt_conns m ! i)\<lparr>pc_pipe := p_Close P (pc_pipe (pkt_conns m ! i)), pc_phase := PClosed\<rparr>"
  show ?thesis by (rule pkt_replies_update [OF rep, of i _ ?c]) (use pk_close in \<open>simp_all add: pkt_close_def Let_def\<close>)
next
  case (pk_delete i)
  let ?c = "(pkt_conns m ! i)\<lparr>pc_phase := PGone, pc_stop := Some (length (pm_log m))\<rparr>"
  show ?thesis by (rule pkt_replies_update [OF rep, of i _ ?c]) (use pk_delete in \<open>simp_all add: pkt_delete_def Let_def\<close>)
qed (use inv rep in \<open>auto intro: pkt_recv_replies packetStream_Write_replies\<close>)

lemma pkt_init_inv: "pkt_init m \<Longrightarrow> pkt_inv m \<and> pkt_replies m"
  by (auto simp: pkt_init_def newPktMgr_def pkt_inv_def pkt_replies_def)

interpretation pkts: invariant_system pkt_init "pkt_step pb codec_String codecs P" "\<lambda>m. pkt_inv m \<and> pkt_replies m"
  for pb codec_String codecs P
  by unfold_locales (auto dest: pkt_init_inv intro: pkt_step_inv pkt_step_replies)

section \<open>Properties\<close>

text \<open>
  C14. The packet manager keeps peers apart: whatever packets \<open>ReadFrom\<close> delivers, however
  long writes to a pipe take and whenever the connections' goroutines end, the calls of
  \<open>Write\<close> on a virtual connection's pipe (those that returned, with or without an error,
  and the one the read loop may be in) are for exactly the packets that arrived from its own
  address after its registration packet and before it left the table, in order and byte for
  byte, although each passes through a pooled buffer; no address has two connections in the
  table; and the datagrams sent to an address are what its connections wrote, one after
  another.
\<close>

theorem packets_demultiplexed:
  assumes "reach pkt_init (pkt_step pb codec_String codecs P) m"
    and "i < length (pkt_conns m)"
  shows "map fst (pc_writes (pkt_conns m ! i)) @ pkt_pending m i =
           from_addr (pc_ra (pkt_conns m ! i)) (conn_window (pkt_conns m ! i) (pm_log m)) \<and>
         (\<forall>j < length (pkt_conns m). pc_phase (pkt_conns m ! i) \<noteq> PGone \<longrightarrow>
            pc_phase (pkt_conns m ! j) \<noteq> PGone \<longrightarrow>
            pc_ra (pkt_conns m ! j) = pc_ra (pkt_conns m ! i) \<longrightarrow> j = i) \<and>
         from_addr ra (pm_sent m) = sent_by ra (pkt_conns m)"
proof -
  have inv: "pkt_inv m" and rep: "pkt_replies m" using pkts.inv_reach [OF assms(1)] by simp_all
  then have ok: "\<And>j. j < length (pkt_conns m) \<Longrightarrow> pkt_conn_ok m j" by (simp add: pkt_inv_def)
  show ?thesis
  proof (intro conjI allI impI)
    show "map fst (pc_writes (pkt_conns m ! i)) @ pkt_pending m i =
        from_addr (pc_ra (pkt_conns m ! i)) (conn_window (pkt_conns m ! i) (pm_log m))"
      using ok [OF assms(2)] by (simp add: pkt_conn_ok_def Let_def)
  next
    fix j
    assume "j < length (pkt_conns m)" "pc_phase (pkt_conns m ! i) \<noteq> PGone"
      "pc_phase (pkt_conns m ! j) \<noteq> PGone" "pc_ra (pkt_conns m ! j) = pc_ra (pkt_conns m ! i)"
    with ok [of i] ok [of j] assms(2) show "j = i" by (simp add: pkt_conn_ok_def Let_def)
  qed (use rep in \<open>simp add: pkt_replies_def\<close>)
qed

text \<open>A codec whose messages are single bytes, and a pipe that keeps what is written.\<close>

definition codec_example :: "unit codec_iface" where
  "codec_example =
     \<lparr>cd_Type = 1,
      cd_Encode = (\<lambda>m. Inr (slice_bytes (msg_Payload m))),
      cd_Decode = (\<lambda>r. case rd_data r of
          [] \<Rightarrow> Ret (Inl (rd_err r), r)
        | b # bs \<Rightarrow> Ret (Inr \<lparr>msg_Kind = 2, msg_Id = 0, msg_Ack = 0, msg_Payload = Some [b]\<rparr>, r\<lparr>rd_data := bs\<rparr>)),
      cd_Marshal = (\<lambda>b. Inr [7]),
      cd_UnmarshalReg = (\<lambda>s. if s = Some [7] then Inr (''ext'', 5, 1) else Inl (ExtErr ''bad json''))\<rparr>"

definition pipe_example :: "bytes pipe_ops" where
  "pipe_example = \<lparr>p_new = [], p_Write = (\<lambda>d p. (None, p @ d)), p_Close = (\<lambda>p. p)\<rparr>"

definition pkt_buf :: "byte \<Rightarrow> bytes" where
  "pkt_buf b = b # replicate 65534 0"

definition pkt_example :: "bytes list \<Rightarrow> bytes list \<Rightarrow> (nat \<times> bytes \<times> nat) option \<Rightarrow> (bytes, unit) pkt_mgr" where
  "pkt_example ws log w =
     \<lparr>connections = [''10.0.0.1:9'' \<mapsto> 0],
      pkt_conns = [\<lparr>pc_ra = ''10.0.0.1:9'', pc_reg = (5, ''ext'', codec_example), pc_pipe = concat ws,
        pc_phase = PServing, pc_writes = map (\<lambda>d. (d, None)) ws, pc_start = 1, pc_stop = None, pc_sent = []\<rparr>],
      pm_pool = replicate (Suc (length ws)) (7 # replicate 31 0),
      pm_log = (''10.0.0.1:9'', [7]) # map (\<lambda>w. (''10.0.0.1:9'', w)) log, pm_sent = [], pm_write = w\<rparr>"

theorem packets_demultiplexed_witness:
  "reach pkt_init (pkt_step pb_example (\<lambda>_. ''json'') [1 \<mapsto> codec_example] pipe_example) (pkt_example [[7]] [[7]] None) \<and>
   map fst (pc_writes (pkt_conns (pkt_example [[7]] [[7]] None) ! 0)) = [[7]]"
proof -
  let ?step = "pkt_step pb_example (\<lambda>_. ''json'') [1 \<mapsto> codec_example] pipe_example"
  let ?w = "pkt_example [] [[7]] (Some (0, 7 # replicate 31 0, 1))"
  have "reach pkt_init ?step (newPktMgr [])" by (rule reach_init) (auto simp: pkt_init_def)
  moreover have "?step (newPktMgr []) (pkt_example [] [] None)"
    by (rule pk_recv [of _ "pkt_buf 7" 1 _ _ _ _ None "''10.0.0.1:9''"])
      (simp_all add: pkt_buf_def pkt_recv_def packet_copy_def GetBytesBuf_def pool_get_def new_buf_def
        grow_buf_def newPktMgr_def Let_def validateConnection_def Get_def pb_example_def codec_example_def
        pkt_example_def pipe_example_def PutBytesBuf_def)
  moreover have "?step (pkt_example [] [] None) ?w"
    by (rule pk_recv [of _ "pkt_buf 7" 1 _ _ _ _ None "''10.0.0.1:9''"])
      (simp_all add: pkt_buf_def pkt_recv_def packet_copy_def GetBytesBuf_def pool_get_def new_buf_def
        grow_buf_def Let_def pkt_example_def)
  moreover have "?step ?w (pkt_example [[7]] [[7]] None)"
    using pk_write [of ?w 0 "7 # replicate 31 0" 1 pb_example "\<lambda>_. ''json''" "[1 \<mapsto> codec_example]" pipe_example]
    by (simp add: pkt_write_def Let_def pkt_example_def pipe_example_def PutBytesBuf_def)
  ultimately have r: "reach pkt_init ?step (pkt_example [[7]] [[7]] None)" by (meson reach_step)
  from packets_demultiplexed [OF r, of 0] r show ?thesis by (simp add: pkt_example_def conn_window_def pkt_pending_def)
qed

definition accepted_before_error :: "(error + 'c) list \<Rightarrow> 'c list" where
  "accepted_before_error rs = map projr (takeWhile (\<lambda>r. \<not> isl r) rs)"

lemma accept_loop_prefix: "fst (accept_loop what rs) = accepted_before_error rs"
  by (induction what rs rule: accept_loop.induct)
    (auto simp: accepted_before_error_def split: prod.splits)

text \<open>
  No connection manager leaks a listener: when its \<open>ListenAndServe\<close> returns,
  everything closable that \<open>nethelper.Listen\<close> handed out was closed by it once, and it
  started a goroutine for exactly the connections accepted before the first error.
\<close>

theorem listeners_closed:
  assumes "Listen (Network (m_addr m)) (AddrString (m_addr m)) (m_tlsConfig m) = Inr l" and "l \<noteq> LOther"
  shows "(\<forall>err cs m'. stream_ListenAndServe Listen accepts m = (Some err, cs, m') \<longrightarrow>
           m_closes m' = Suc (m_closes m) \<and> cs = (if l = LListener then accepted_before_error accepts else [])) \<and>
         (\<forall>err cs ps m'. packet_ListenAndServe Listen accepts reads m = (Some err, cs, ps, m') \<longrightarrow>
           m_closes m' = Suc (m_closes m) \<and> cs = (if l = LListener then accepted_before_error accepts else []) \<and>
           ps = (if l = LPacketConn then accepted_before_error reads else []))"
proof -
  have listen: "(case m_tlsConfig m of
       None \<Rightarrow> Listen (Network (m_addr m)) (AddrString (m_addr m)) None
     | Some t \<Rightarrow> Listen (Network (m_addr m)) (AddrString (m_addr m)) (Some t)) = Inr l"
    using assms(1) by (cases "m_tlsConfig m") simp_all
  show ?thesis
  proof (intro conjI allI impI)
    fix err cs m'
    assume "stream_ListenAndServe Listen accepts m = (Some err, cs, m')"
    then show "m_closes m' = Suc (m_closes m)"
      and "cs = (if l = LListener then accepted_before_error accepts else [])"
      using assms(2) accept_loop_prefix [of "''failed to accept new connection''" accepts]
      unfolding stream_ListenAndServe_def stream_listen_def listen
      by (auto simp: l_Close_def split: lraw.splits option.splits prod.splits)
  next
    fix err cs ps m'
    assume "packet_ListenAndServe Listen accepts reads m = (Some err, cs, ps, m')"
    then show "m_closes m' = Suc (m_closes m)"
      and "cs = (if l = LListener then accepted_before_error accepts else [])"
      and "ps = (if l = LPacketConn then accepted_before_error reads else [])"
      using assms(2) accept_loop_prefix [of "''failed to accept new packet connection''" accepts]
        accept_loop_prefix [of "''failed to read packet''" reads]
      unfolding packet_ListenAndServe_def packet_listen_def listen
      by (auto simp: l_Close_def split: lraw.splits option.splits prod.splits)
  qed
qed

theorem listeners_closed_witness:
  "\<exists>m'. packet_ListenAndServe (\<lambda>_ _ _. Inr LPacketConn) [] [Inr 4, Inr 2, Inl EOF, Inr (9 :: nat)]
      (newPacketConnectionManager \<lparr>Network = ''udp'', AddrString = '':1''\<rparr> (None :: unit option)) =
      (Some (Wrap ''failed to read packet'' EOF), [] :: nat list, [4, 2], m') \<and> m_closes m' = 1"
proof -
  let ?m = "newPacketConnectionManager \<lparr>Network = ''udp'', AddrString = '':1''\<rparr> (None :: unit option)"
  let ?rs = "[Inr 4, Inr 2, Inl EOF, Inr (9 :: nat)]"
  obtain ps m' where run: "packet_ListenAndServe (\<lambda>_ _ _. Inr LPacketConn) [] ?rs ?m =
      (Some (Wrap ''failed to read packet'' EOF), [] :: nat list, ps, m')"
    by (simp add: packet_ListenAndServe_def packet_listen_def newPacketConnectionManager_def)
  with listeners_closed [of "\<lambda>_ _ _. Inr LPacketConn" ?m LPacketConn "[] :: (error + nat) list" ?rs]
  have "m_closes m' = Suc (m_closes ?m)" "ps = accepted_before_error ?rs" by simp_all
  with run show ?thesis by (simp add: accepted_before_error_def newPacketConnectionManager_def)
qed

end
