(* ===== verification/Server.thy ===== *)
theory Server
  imports Conn
begin

text \<open>
  \<open>src/server/server.go\<close>: the construction of a server from its endpoint
  configuration, the table of extension managers that \<open>Handle\<close> fills and that
  \<open>handleNewConn\<close> reads, and the life cycle of the connection managers.
\<close>

section \<open>Configuration\<close>

text \<open>A \<open>time.Duration\<close> in nanoseconds; the code only compares durations.\<close>

type_synonym duration = int

definition Millisecond :: duration where
  "Millisecond = 1000000"

definition Minute :: duration where
  "Minute = 60000000000"

record 'tls EndpointConfig =
  Listen_url :: string
  TLS :: "'tls option"
  KeepaliveInterval :: duration
  MessageTimeout :: duration

record URL =
  Scheme :: string
  Host :: string
  Path :: string

text \<open>
  URL parsing, name resolution, the operating system's name and the pipe addresses of
  \<open>arhat.dev/pkg/pipenet\<close>.
\<close>

record netenv =
  url_Parse :: "string \<Rightarrow> error + URL"
  ResolveTCPAddr :: "string \<Rightarrow> string \<Rightarrow> error + net_addr"
  ResolveUDPAddr :: "string \<Rightarrow> string \<Rightarrow> error + net_addr"
  ResolveUnixAddr :: "string \<Rightarrow> string \<Rightarrow> error + net_addr"
  GOOS :: string
  PipeAddr :: "string \<Rightarrow> net_addr"

definition addr_key :: "net_addr \<Rightarrow> string" where
  "addr_key addr = Network addr @ ''://'' @ AddrString addr"

text \<open>The switch on the scheme: the address and whether it is a packet endpoint.\<close>

definition pipe_path :: "netenv \<Rightarrow> URL \<Rightarrow> string" where
  "pipe_path N u =
     (if GOOS N = ''windows'' then [CHR 0x5C, CHR 0x5C] @ ''.'' @ [CHR 0x5C] @ ''pipe'' @ [CHR 0x5C] @ Host u @ Path u
      else Path u)"

definition resolve_listen :: "netenv \<Rightarrow> URL \<Rightarrow> error + bool \<times> net_addr" where
  "resolve_listen N u =
     (let s = str_lower (Scheme u);
          fin = (\<lambda>packet r. case r of
              Inl err \<Rightarrow> Inl (Wrap (''failed to resolve '' @ Scheme u @ '' listen address'') err)
            | Inr addr \<Rightarrow> Inr (packet, addr))
      in
      if s \<in> {''tcp'', ''tcp4'', ''tcp6''} then fin False (ResolveTCPAddr N s (Host u))
      else if s \<in> {''udp'', ''udp4'', ''udp6''} then fin True (ResolveUDPAddr N s (Host u))
      else if s = ''unix'' then fin False (ResolveUnixAddr N s (Path u))
      else if s = ''pipe'' then fin False (Inr (PipeAddr N (pipe_path N u)))
      else Inl (Errorf (''unsupported protocol '' @ go_quote (Scheme u))))"

section \<open>The server\<close>

text \<open>
  Extension managers are shared by reference: \<open>ext_mgrs\<close> lists those \<open>Handle\<close>
  created (by the factory they hold) and the table maps to positions in it.
\<close>

record ('tls, 'f) Server =
  connectionConfig :: "string \<rightharpoonup> 'tls EndpointConfig"
  connectionManagers :: "'tls conn_mgr list"
  extensionManagers :: "int32 \<times> string \<rightharpoonup> nat"
  ext_mgrs :: "'f list"

definition add_endpoint ::
  "netenv \<Rightarrow> 'tls EndpointConfig \<Rightarrow> ('tls, 'f) Server \<Rightarrow> error + ('tls, 'f) Server" where
  "add_endpoint N ep srv =
     (case url_Parse N (Listen_url ep) of
        Inl err \<Rightarrow> Inl (Wrap ''invalid listen url'' err)
      | Inr u \<Rightarrow>
          (case resolve_listen N u of
             Inl err \<Rightarrow> Inl err
           | Inr (packet, addr) \<Rightarrow>
               Inr (srv\<lparr>connectionConfig := (connectionConfig srv)(addr_key addr \<mapsto> ep),
                        connectionManagers := connectionManagers srv @
                          [(if packet then newPacketConnectionManager else newStreamConnectionManager) addr (TLS ep)]\<rparr>)))"

fun add_endpoints ::
  "netenv \<Rightarrow> 'tls EndpointConfig list \<Rightarrow> ('tls, 'f) Server \<Rightarrow> error + ('tls, 'f) Server" where
  "add_endpoints N [] srv = Inr srv"
| "add_endpoints N (ep # eps) srv =
     (case add_endpoint N ep srv of Inl err \<Rightarrow> Inl err | Inr srv' \<Rightarrow> add_endpoints N eps srv')"

definition empty_server :: "('tls, 'f) Server" where
  "empty_server =
     \<lparr>connectionConfig = Map.empty, connectionManagers = [], extensionManagers = Map.empty, ext_mgrs = []\<rparr>"

definition NewServer :: "netenv \<Rightarrow> 'tls EndpointConfig list \<Rightarrow> error + ('tls, 'f) Server" where
  "NewServer N endpoints =
     (if endpoints = [] then Inl (Errorf ''must provide at least one listen url'')
      else add_endpoints N endpoints empty_server)"

section \<open>Handlers\<close>

text \<open>
  \<open>Handle\<close>: the loop stores the new manager under each name and returns from the
  whole function at an empty one; without names it takes over the kind.
\<close>

fun register_names :: "int32 \<Rightarrow> nat \<Rightarrow> string list \<Rightarrow> (int32 \<times> string \<rightharpoonup> nat) \<Rightarrow> (int32 \<times> string \<rightharpoonup> nat)" where
  "register_names kind mgr [] t = t"
| "register_names kind mgr (name # names) t =
     (if name = '''' then t else register_names kind mgr names (t((kind, name) \<mapsto> mgr)))"

definition remove_kind :: "int32 \<Rightarrow> (int32 \<times> string \<rightharpoonup> nat) \<Rightarrow> (int32 \<times> string \<rightharpoonup> nat)" where
  "remove_kind kind t = (\<lambda>k. if fst k = kind then None else t k)"

definition Handle :: "int32 \<Rightarrow> 'f \<Rightarrow> string list \<Rightarrow> ('tls, 'f) Server \<Rightarrow> ('tls, 'f) Server" where
  "Handle kind handleFactory extensions s =
     (let mgr = length (ext_mgrs s);
          t = register_names kind mgr extensions (extensionManagers s) in
      s\<lparr>ext_mgrs := ext_mgrs s @ [handleFactory],
        extensionManagers :=
          (if extensions = [] then (remove_kind kind t)((kind, '''') \<mapsto> mgr) else t)\<rparr>)"

text \<open>
  \<open>handleNewConn\<close>; \<open>HandleStream\<close> of the chosen manager is its continuation, and
  \<open>kind_String\<close> is the generated \<open>String\<close> method.
\<close>

definition find_manager :: "int32 \<Rightarrow> string \<Rightarrow> ('tls, 'f) Server \<Rightarrow> nat option" where
  "find_manager kind name s =
     (case extensionManagers s (kind, name) of
        Some mgr \<Rightarrow> Some mgr
      | None \<Rightarrow> extensionManagers s (kind, ''''))"

definition clamp_duration :: "duration \<Rightarrow> duration" where
  "clamp_duration d =
     (let d1 = (if d = 0 then Minute else d) in if d1 < Millisecond then Millisecond else d1)"

definition handleNewConn ::
  "(int32 \<Rightarrow> string) \<Rightarrow> (nat \<Rightarrow> string \<Rightarrow> 'c \<Rightarrow> duration \<Rightarrow> duration \<Rightarrow> 'conn \<Rightarrow> error option)
     \<Rightarrow> ('tls, 'f) Server \<Rightarrow> net_addr \<Rightarrow> int32 \<Rightarrow> string \<Rightarrow> 'c \<Rightarrow> 'conn \<Rightarrow> error option" where
  "handleNewConn kind_String HandleStream s listenAddr kind name codec conn =
     (case find_manager kind name s of
        None \<Rightarrow> Some (Errorf (''no handler for '' @ kind_String kind))
      | Some mgr \<Rightarrow>
          (case connectionConfig s (addr_key listenAddr) of
             None \<Rightarrow> Some (Errorf ''endpoint config not found'')
           | Some ec \<Rightarrow>
               HandleStream mgr name codec (clamp_duration (KeepaliveInterval ec))
                 (clamp_duration (MessageTimeout ec)) conn))"

section \<open>Serving\<close>

definition Server_Close :: "('tls, 'f) Server \<Rightarrow> ('tls, 'f) Server" where
  "Server_Close s = s\<lparr>connectionManagers := map mgr_Close (connectionManagers s)\<rparr>"

text \<open>
  \<open>ListenAndServe\<close> once every manager's \<open>ListenAndServe\<close> has returned: the error of
  the one that failed first (\<open>ends\<close> is the order in which they returned, with their
  errors), after which all managers are closed.
\<close>

definition Server_ListenAndServe_end ::
  "error option list \<Rightarrow> ('tls, 'f) Server \<Rightarrow> error option \<times> ('tls, 'f) Server" where
  "Server_ListenAndServe_end ends s =
     ((case filter (\<lambda>e. e \<noteq> None) ends of [] \<Rightarrow> None | e # _ \<Rightarrow> e), Server_Close s)"

section \<open>Lemmas\<close>

lemma register_names_apply:
  "register_names kind mgr names t (k, n) =
     (if k = kind \<and> n \<in> set (takeWhile (\<lambda>n. n \<noteq> '''') names) then Some mgr else t (k, n))"
  by (induction names arbitrary: t) auto

lemma remove_kind_apply [simp]: "remove_kind kind t k = (if fst k = kind then None else t k)"
  by (simp add: remove_kind_def)

lemma clamp_duration_ge: "Millisecond \<le> clamp_duration d"
  by (simp add: clamp_duration_def Let_def)

text \<open>What a registration covers: a general one every name, a specific one its names.\<close>

definition covers :: "int32 \<times> string list \<Rightarrow> int32 \<Rightarrow> string \<Rightarrow> bool" where
  "covers call kind name \<longleftrightarrow>
     fst call = kind \<and> (snd call = [] \<or> name \<in> set (takeWhile (\<lambda>n. n \<noteq> '''') (snd call)))"

lemma not_in_takeWhile_self: "x \<notin> set (takeWhile (\<lambda>n. n \<noteq> x) xs)"
  by (metis set_takeWhileD)

lemma find_manager_Handle:
  "find_manager kind name (Handle k f names s) =
     (if covers (k, names) kind name then Some (length (ext_mgrs s)) else find_manager kind name s)"
  by (auto simp: find_manager_def Handle_def Let_def register_names_apply covers_def
      not_in_takeWhile_self split: option.splits)

fun handle_all :: "(int32 \<times> string list \<times> 'f) list \<Rightarrow> ('tls, 'f) Server \<Rightarrow> ('tls, 'f) Server" where
  "handle_all [] s = s"
| "handle_all ((k, names, f) # calls) s = handle_all calls (Handle k f names s)"

lemma handle_all_append: "handle_all (xs @ ys) s = handle_all ys (handle_all xs s)"
  by (induction xs s rule: handle_all.induct) auto

lemma handle_all_other:
  "\<forall>c \<in> set calls. \<not> covers (fst c, fst (snd c)) kind name \<Longrightarrow>
     find_manager kind name (handle_all calls s) = find_manager kind name s"
  by (induction calls s rule: handle_all.induct) (auto simp: find_manager_Handle)

lemma handle_all_mgrs: "ext_mgrs (handle_all calls s) = ext_mgrs s @ map (\<lambda>c. snd (snd c)) calls"
  by (induction calls s rule: handle_all.induct) (auto simp: Handle_def Let_def)

lemma handle_all_conns [simp]:
  "connectionConfig (handle_all calls s) = connectionConfig s"
  "connectionManagers (handle_all calls s) = connectionManagers s"
  by (induction calls s rule: handle_all.induct) (auto simp: Handle_def Let_def)

text \<open>The address an endpoint listens on, when its URL is valid and resolves.\<close>

definition endpoint_addr :: "netenv \<Rightarrow> 'tls EndpointConfig \<Rightarrow> (bool \<times> net_addr) option" where
  "endpoint_addr N ep =
     (case url_Parse N (Listen_url ep) of
        Inl _ \<Rightarrow> None
      | Inr u \<Rightarrow> (case resolve_listen N u of Inl _ \<Rightarrow> None | Inr r \<Rightarrow> Some r))"

definition listens_on :: "netenv \<Rightarrow> string \<Rightarrow> 'tls EndpointConfig \<Rightarrow> bool" where
  "listens_on N key ep \<longleftrightarrow> (\<exists>p addr. endpoint_addr N ep = Some (p, addr) \<and> addr_key addr = key)"

lemma add_endpoint_Inr:
  "add_endpoint N ep srv = Inr srv' \<longleftrightarrow>
     (\<exists>p addr. endpoint_addr N ep = Some (p, addr) \<and>
        srv' = srv\<lparr>connectionConfig := (connectionConfig srv)(addr_key addr \<mapsto> ep),
                   connectionManagers := connectionManagers srv @
                     [(if p then newPacketConnectionManager else newStreamConnectionManager) addr (TLS ep)]\<rparr>)"
  by (auto simp: add_endpoint_def endpoint_addr_def split: sum.splits)

lemma add_endpoint_eq:
  "endpoint_addr N ep = Some (p, addr) \<Longrightarrow> add_endpoint N ep srv =
     Inr (srv\<lparr>connectionConfig := (connectionConfig srv)(addr_key addr \<mapsto> ep),
              connectionManagers := connectionManagers srv @
                [(if p then newPacketConnectionManager else newStreamConnectionManager) addr (TLS ep)]\<rparr>)"
  by (simp add: add_endpoint_Inr)

lemma conn_mgr_sel [simp]:
  "m_addr ((if p then newPacketConnectionManager else newStreamConnectionManager) addr t) = addr"
  "m_packet ((if p then newPacketConnectionManager else newStreamConnectionManager) addr t) = p"
  by (simp_all add: newPacketConnectionManager_def newStreamConnectionManager_def)

lemma add_endpoints_mgrs:
  "add_endpoints N eps srv = Inr srv' \<Longrightarrow>
     map (\<lambda>m. Some (m_packet m, m_addr m)) (connectionManagers srv') =
     map (\<lambda>m. Some (m_packet m, m_addr m)) (connectionManagers srv) @ map (endpoint_addr N) eps"
  by (induction N eps srv rule: add_endpoints.induct) (auto simp: add_endpoint_Inr split: sum.splits)

lemma add_endpoints_ok:
  "(\<exists>srv'. add_endpoints N eps srv = Inr srv') \<longleftrightarrow> (\<forall>ep \<in> set eps. endpoint_addr N ep \<noteq> None)"
  by (induction eps arbitrary: srv)
    (auto simp: add_endpoint_def endpoint_addr_def split: sum.splits)

lemma add_endpoints_config:
  "add_endpoints N eps srv = Inr srv' \<Longrightarrow>
     connectionConfig srv' key =
       (case filter (listens_on N key) eps of [] \<Rightarrow> connectionConfig srv key | e # es \<Rightarrow> Some (last (e # es)))"
proof (induction N eps srv rule: add_endpoints.induct)
  case (2 N ep eps srv)
  then obtain p addr where ep: "endpoint_addr N ep = Some (p, addr)"
    by (auto simp: add_endpoint_Inr split: sum.splits)
  with 2 show ?case
    by (auto simp: add_endpoint_Inr listens_on_def split: sum.splits list.splits)
qed simp

lemma own_config:
  assumes "NewServer N eps = Inr srv" and "m \<in> set (connectionManagers srv)"
  shows "connectionConfig srv (addr_key (m_addr m)) = Some (last (filter (listens_on N (addr_key (m_addr m))) eps)) \<and>
         last (filter (listens_on N (addr_key (m_addr m))) eps) \<in> set eps"
proof -
  let ?on = "filter (listens_on N (addr_key (m_addr m))) eps"
  from assms(1) have ne: "add_endpoints N eps empty_server = Inr srv"
    by (simp add: NewServer_def split: if_splits)
  have "Some (m_packet m, m_addr m) \<in> set (map (endpoint_addr N) eps)"
    using add_endpoints_mgrs [OF ne, symmetric] assms(2) by (auto simp: empty_server_def simp del: map_map)
  then obtain ep where "ep \<in> set eps" "endpoint_addr N ep = Some (m_packet m, m_addr m)" by auto
  then have on: "?on \<noteq> []" by (auto simp: listens_on_def filter_empty_conv)
  then have "connectionConfig srv (addr_key (m_addr m)) = Some (last ?on)"
    using add_endpoints_config [OF ne, of "addr_key (m_addr m)"] by (simp split: list.splits)
  moreover have "last ?on \<in> set eps" using last_in_set [OF on] by simp
  ultimately show ?thesis by simp
qed

lemma clamp_duration_eq: "clamp_duration d = (if d = 0 then Minute else max Millisecond d)"
  by (simp add: clamp_duration_def Millisecond_def Minute_def Let_def)

section \<open>Properties\<close>

text \<open>
  C23. The latest registration that covers an extension serves it: after any sequence of
  \<open>Handle\<close> calls, a connection of kind \<open>kind\<close> and name \<open>name\<close> goes to the
  handler of the last call that was general for the kind or listed the name (before the
  first empty name of its list), however specific and general calls were mixed before.
\<close>

theorem latest_registration_wins:
  assumes "covers (k, names) kind name"
    and "\<forall>c \<in> set later. \<not> covers (fst c, fst (snd c)) kind name"
  shows "\<exists>mgr. find_manager kind name (handle_all (earlier @ (k, names, f) # later) s) = Some mgr \<and>
               ext_mgrs (handle_all (earlier @ (k, names, f) # later) s) ! mgr = f"
proof -
  let ?s = "handle_all (earlier @ (k, names, f) # later) s"
  let ?before = "ext_mgrs s @ map (\<lambda>c. snd (snd c)) earlier"
  have "find_manager kind name ?s = Some (length ?before)"
    using assms by (simp add: handle_all_append handle_all_other find_manager_Handle handle_all_mgrs)
  moreover have "ext_mgrs ?s = ?before @ f # map (\<lambda>c. snd (snd c)) later"
    using handle_all_mgrs [of "earlier @ (k, names, f) # later" s] by simp
  ultimately show ?thesis using nth_append_length [of ?before f] by metis
qed

theorem latest_registration_wins_witness:
  "\<exists>mgr. find_manager 5 ''a'' (handle_all [(5, [''a''], ''old''), (5, [], ''general''), (5, [''b''], ''other'')]
      (empty_server :: (unit, string) Server)) = Some mgr \<and>
    ext_mgrs (handle_all [(5, [''a''], ''old''), (5, [], ''general''), (5, [''b''], ''other'')]
      (empty_server :: (unit, string) Server)) ! mgr
      = ''general''"
  using latest_registration_wins [of 5 "[]" 5 "''a''" "[(5, [''b''], ''other'')]" "[(5, [''a''], ''old'')]"
      "''general''" "empty_server :: (unit, string) Server"]
  by (simp add: covers_def)

text \<open>
  \<open>NewServer\<close> succeeds exactly when there is an endpoint and every endpoint's URL
  parses, has a supported scheme and resolves; it then has one connection manager per
  endpoint, in order, of the transport and on the address the endpoint names.
\<close>

theorem NewServer_endpoints:
  "((\<exists>srv :: ('tls, 'f) Server. NewServer N eps = Inr srv) \<longleftrightarrow> eps \<noteq> [] \<and> (\<forall>ep \<in> set eps. endpoint_addr N ep \<noteq> None)) \<and>
   (\<forall>srv :: ('tls, 'f) Server. NewServer N eps = Inr srv \<longrightarrow>
      map (\<lambda>m. Some (m_packet m, m_addr m)) (connectionManagers srv) = map (endpoint_addr N) eps)"
  using add_endpoints_ok [of N eps "empty_server :: ('tls, 'f) Server"]
    add_endpoints_mgrs [of N eps "empty_server :: ('tls, 'f) Server"]
  by (auto simp: NewServer_def empty_server_def split: if_splits)

definition netenv_example :: netenv where
  "netenv_example =
     \<lparr>url_Parse = (\<lambda>s. if s = '''' then Inl (ExtErr ''parse'') else Inr \<lparr>Scheme = ''TCP'', Host = s, Path = ''''\<rparr>),
      ResolveTCPAddr = (\<lambda>n h. Inr \<lparr>Network = ''tcp'', AddrString = h\<rparr>),
      ResolveUDPAddr = (\<lambda>n h. Inr \<lparr>Network = ''udp'', AddrString = h\<rparr>),
      ResolveUnixAddr = (\<lambda>n h. Inr \<lparr>Network = ''unix'', AddrString = h\<rparr>),
      GOOS = ''linux'', PipeAddr = (\<lambda>p. \<lparr>Network = ''pipe'', AddrString = p\<rparr>)\<rparr>"

definition ep_example :: "unit EndpointConfig" where
  "ep_example = \<lparr>Listen_url = ''localhost:1'', TLS = None, KeepaliveInterval = 0, MessageTimeout = -5\<rparr>"

lemma lower_TCP: "str_lower ''TCP'' = ''tcp''"
  by code_simp

lemma endpoint_addr_example:
  "endpoint_addr netenv_example ep_example = Some (False, \<lparr>Network = ''tcp'', AddrString = ''localhost:1''\<rparr>)"
  by (simp add: endpoint_addr_def netenv_example_def ep_example_def resolve_listen_def lower_TCP Let_def)

theorem NewServer_endpoints_witness:
  "\<exists>srv. NewServer netenv_example [ep_example, ep_example] = Inr srv \<and>
     map m_addr (connectionManagers (srv :: (unit, unit) Server)) =
       replicate 2 \<lparr>Network = ''tcp'', AddrString = ''localhost:1''\<rparr>"
proof -
  obtain srv :: "(unit, unit) Server" where srv: "NewServer netenv_example [ep_example, ep_example] = Inr srv"
    using NewServer_endpoints [of netenv_example "[ep_example, ep_example]"] endpoint_addr_example by auto
  then have "map (\<lambda>m. Some (m_packet m, m_addr m)) (connectionManagers srv) =
      map (endpoint_addr netenv_example) [ep_example, ep_example]"
    using NewServer_endpoints [of netenv_example "[ep_example, ep_example]"] by blast
  with srv show ?thesis by (auto simp: endpoint_addr_example numeral_2_eq_2)
qed

text \<open>
  A connection accepted by one of the server's own managers always finds its
  endpoint's configuration: with a handler registered, \<open>handleNewConn\<close> ends in
  \<open>HandleStream\<close> of that handler, with the configured keepalive interval and message
  timeout of the last endpoint on that address, one minute where 0 was configured and
  never less than a millisecond.
\<close>

lemma own_connections_served:
  assumes "NewServer N eps = Inr srv" and "m \<in> set (connectionManagers (handle_all calls srv))"
    and "find_manager kind name (handle_all calls srv) = Some mgr"
  shows "\<exists>ep keepalive timeout.
           last (filter (listens_on N (addr_key (m_addr m))) eps) = ep \<and> ep \<in> set eps \<and>
           handleNewConn ks HandleStream (handle_all calls srv) (m_addr m) kind name codec conn =
             HandleStream mgr name codec keepalive timeout conn \<and>
           keepalive = (if KeepaliveInterval ep = 0 then Minute else max Millisecond (KeepaliveInterval ep)) \<and>
           timeout = (if MessageTimeout ep = 0 then Minute else max Millisecond (MessageTimeout ep)) \<and>
           Millisecond \<le> keepalive \<and> Millisecond \<le> timeout"
  using own_config [OF assms(1)] assms(2,3)
  by (auto simp: handleNewConn_def clamp_duration_eq Millisecond_def Minute_def)

end
