(* ===== verification/Serving.thy ===== *)
theory Serving
  imports Server
begin

text \<open>
  The concurrent life of a server (\<open>src/server/server.go\<close>): \<open>ListenAndServe\<close> runs
  every connection manager in its own goroutine and waits for all of them, while other
  goroutines call \<open>Close\<close> and \<open>Handle\<close> and while connections are dispatched. The
  managers' own code is that of \<open>Conn\<close>; here it is cut at the calls that other
  goroutines can observe.
\<close>

section \<open>Dispatch beside registrations\<close>

text \<open>
  \<open>handleNewConn\<close> reads the table twice, each time under its own read lock, so
  \<open>Handle\<close> calls may come between: \<open>s1\<close> is the server at the first lookup,
  \<open>s2\<close> at the second. The endpoint configuration is not written after
  \<open>NewServer\<close>.
\<close>

definition lookup_manager :: "int32 \<Rightarrow> string \<Rightarrow> ('tls, 'f) Server \<Rightarrow> ('tls, 'f) Server \<Rightarrow> nat option" where
  "lookup_manager kind name s1 s2 =
     (case extensionManagers s1 (kind, name) of
        Some mgr \<Rightarrow> Some mgr
      | None \<Rightarrow> extensionManagers s2 (kind, ''''))"

definition handleNewConn_conc ::
  "(int32 \<Rightarrow> string) \<Rightarrow> (nat \<Rightarrow> string \<Rightarrow> 'c \<Rightarrow> duration \<Rightarrow> duration \<Rightarrow> 'conn \<Rightarrow> error option)
     \<Rightarrow> ('tls, 'f) Server \<Rightarrow> ('tls, 'f) Server \<Rightarrow> net_addr \<Rightarrow> int32 \<Rightarrow> string \<Rightarrow> 'c \<Rightarrow> 'conn \<Rightarrow> error option" where
  "handleNewConn_conc kind_String HandleStream s1 s2 listenAddr kind name codec conn =
     (case lookup_manager kind name s1 s2 of
        None \<Rightarrow> Some (Errorf (''no handler for '' @ kind_String kind))
      | Some mgr \<Rightarrow>
          (case connectionConfig s2 (addr_key listenAddr) of
             None \<Rightarrow> Some (Errorf ''endpoint config not found'')
           | Some ec \<Rightarrow>
               HandleStream mgr name codec (clamp_duration (KeepaliveInterval ec))
                 (clamp_duration (MessageTimeout ec)) conn))"

section \<open>The managers' goroutines\<close>

definition mgr_listen :: "'tls listen_func \<Rightarrow> 'tls conn_mgr \<Rightarrow> error option \<times> 'tls conn_mgr" where
  "mgr_listen Listen m = (if m_packet m then packet_listen Listen m else stream_listen Listen m)"

text \<open>What the loop of a manager says when \<open>Accept\<close> or \<open>ReadFrom\<close> fails, and the type switch of the packet manager.\<close>

definition serve_what :: "'tls conn_mgr \<Rightarrow> string" where
  "serve_what m =
     (if \<not> m_packet m then ''failed to accept new connection''
      else if m_l m = Some LListener then ''failed to accept new packet connection''
      else ''failed to read packet'')"

definition serves :: "'tls conn_mgr \<Rightarrow> bool" where
  "serves m \<longleftrightarrow> m_packet m \<longrightarrow> m_l m = Some LListener \<or> m_l m = Some LPacketConn"

text \<open>
  A manager's goroutine has not run its listen step, is in its loop (there at \<open>Accept\<close> or
  \<open>ReadFrom\<close>, or in \<open>pw.Write\<close> with a packet for a virtual connection), or has returned
  with an error; \<open>ListenAndServe\<close> of the server waits, is at its closing loop (before the
  manager of that index), or has returned.
\<close>

datatype mgr_phase = MStarting | MServing | MWriting | MEnded error

datatype main_pc = Waiting | Closing nat | Returned "error option"

text \<open>
  \<open>sv_results\<close> are the results of \<open>Accept\<close> or \<open>ReadFrom\<close> each manager got,
  \<open>sv_order\<close> the managers that returned in their order (of which the errgroup keeps
  the first), and \<open>sv_closers\<close> the running calls of \<open>Close\<close> by the index of the
  manager they come to next.
\<close>

record ('tls, 'f) serving =
  sv_srv :: "('tls, 'f) Server"
  sv_phase :: "mgr_phase list"
  sv_results :: "(error + unit) list list"
  sv_order :: "(nat \<times> error) list"
  sv_main :: main_pc
  sv_closers :: "nat list"

abbreviation sv_mgr :: "('tls, 'f) serving \<Rightarrow> nat \<Rightarrow> 'tls conn_mgr" where
  "sv_mgr s i \<equiv> connectionManagers (sv_srv s) ! i"

abbreviation sv_n :: "('tls, 'f) serving \<Rightarrow> nat" where
  "sv_n s \<equiv> length (connectionManagers (sv_srv s))"

definition set_mgr :: "nat \<Rightarrow> 'tls conn_mgr \<Rightarrow> ('tls, 'f) Server \<Rightarrow> ('tls, 'f) Server" where
  "set_mgr i m srv = srv\<lparr>connectionManagers := (connectionManagers srv)[i := m]\<rparr>"

text \<open>\<open>ListenAndServe\<close> of a manager returns.\<close>

definition mgr_end :: "nat \<Rightarrow> error \<Rightarrow> 'tls conn_mgr \<Rightarrow> ('tls, 'f) serving \<Rightarrow> ('tls, 'f) serving" where
  "mgr_end i err m s =
     s\<lparr>sv_srv := set_mgr i m (sv_srv s), sv_phase := (sv_phase s)[i := MEnded err],
       sv_order := sv_order s @ [(i, err)]\<rparr>"

definition group_err :: "(nat \<times> error) list \<Rightarrow> error option" where
  "group_err ends = (case ends of [] \<Rightarrow> None | (i, err) # _ \<Rightarrow> Some err)"

definition Server_Start :: "('tls, 'f) Server \<Rightarrow> ('tls, 'f) serving" where
  "Server_Start srv =
     \<lparr>sv_srv = srv, sv_phase = replicate (length (connectionManagers srv)) MStarting,
      sv_results = replicate (length (connectionManagers srv)) [],
      sv_order = [], sv_main = Waiting, sv_closers = []\<rparr>"

text \<open>
  One step of one goroutine. \<open>Listen i\<close> is what \<open>nethelper.Listen\<close> answers to the
  manager \<open>i\<close>; a closed listener accepts no connection and delivers no packet.
\<close>

inductive serve_step :: "(nat \<Rightarrow> 'tls listen_func) \<Rightarrow> ('tls, 'f) serving \<Rightarrow> ('tls, 'f) serving \<Rightarrow> bool"
  for Listen where
  sv_listen: "i < sv_n s \<Longrightarrow> sv_phase s ! i = MStarting \<Longrightarrow> mgr_listen (Listen i) (sv_mgr s i) = (None, m) \<Longrightarrow>
     serve_step Listen s (s\<lparr>sv_srv := set_mgr i m (sv_srv s), sv_phase := (sv_phase s)[i := MServing]\<rparr>)"
| sv_listen_err: "i < sv_n s \<Longrightarrow> sv_phase s ! i = MStarting \<Longrightarrow>
     mgr_listen (Listen i) (sv_mgr s i) = (Some err, m) \<Longrightarrow> serve_step Listen s (mgr_end i err m s)"
| sv_unexpected: "i < sv_n s \<Longrightarrow> sv_phase s ! i = MServing \<Longrightarrow> \<not> serves (sv_mgr s i) \<Longrightarrow>
     serve_step Listen s (mgr_end i (Errorf ''unexpected conn'') (l_Close (sv_mgr s i)) s)"
| sv_accept: "i < sv_n s \<Longrightarrow> sv_phase s ! i = MServing \<Longrightarrow> serves (sv_mgr s i) \<Longrightarrow> m_closes (sv_mgr s i) = 0 \<Longrightarrow>
     serve_step Listen s (s\<lparr>sv_results := (sv_results s)[i := sv_results s ! i @ [Inr ()]]\<rparr>)"
| sv_packet: "i < sv_n s \<Longrightarrow> sv_phase s ! i = MServing \<Longrightarrow> m_packet (sv_mgr s i) \<Longrightarrow> m_l (sv_mgr s i) = Some LPacketConn \<Longrightarrow>
     m_closes (sv_mgr s i) = 0 \<Longrightarrow>
     serve_step Listen s (s\<lparr>sv_results := (sv_results s)[i := sv_results s ! i @ [Inr ()]], sv_phase := (sv_phase s)[i := MWriting]\<rparr>)"
| sv_accept_err: "i < sv_n s \<Longrightarrow> sv_phase s ! i = MServing \<Longrightarrow> serves (sv_mgr s i) \<Longrightarrow>
     serve_step Listen s
       (mgr_end i (Wrap (serve_what (sv_mgr s i)) err) (l_Close (sv_mgr s i))
          (s\<lparr>sv_results := (sv_results s)[i := sv_results s ! i @ [Inl err]]\<rparr>))"
| sv_wait: "sv_main s = Waiting \<Longrightarrow> length (sv_order s) = sv_n s \<Longrightarrow> serve_step Listen s (s\<lparr>sv_main := Closing 0\<rparr>)"
| sv_closing: "sv_main s = Closing k \<Longrightarrow> k < sv_n s \<Longrightarrow>
     serve_step Listen s (s\<lparr>sv_srv := set_mgr k (mgr_Close (sv_mgr s k)) (sv_srv s), sv_main := Closing (Suc k)\<rparr>)"
| sv_return: "sv_main s = Closing k \<Longrightarrow> k = sv_n s \<Longrightarrow>
     serve_step Listen s (s\<lparr>sv_main := Returned (group_err (sv_order s))\<rparr>)"
| sv_close: "c < length (sv_closers s) \<Longrightarrow> sv_closers s ! c = k \<Longrightarrow> k < sv_n s \<Longrightarrow>
     serve_step Listen s (s\<lparr>sv_srv := set_mgr k (mgr_Close (sv_mgr s k)) (sv_srv s),
                            sv_closers := (sv_closers s)[c := Suc k]\<rparr>)"

text \<open>
  \<open>pw.Write\<close> returns when the other end of the pipe has read the data or is closed,
  which is up to the goroutine of that virtual connection.
\<close>

definition pipe_step :: "('tls, 'f) serving \<Rightarrow> ('tls, 'f) serving \<Rightarrow> bool" where
  "pipe_step s t \<longleftrightarrow>
     (\<exists>i < sv_n s. sv_phase s ! i = MWriting \<and> t = s\<lparr>sv_phase := (sv_phase s)[i := MServing]\<rparr>)"

text \<open>Beside them, anyone may call \<open>Close\<close> or \<open>Handle\<close>.\<close>

inductive sv_step :: "(nat \<Rightarrow> 'tls listen_func) \<Rightarrow> ('tls, 'f) serving \<Rightarrow> ('tls, 'f) serving \<Rightarrow> bool"
  for Listen where
  sv_run: "serve_step Listen s t \<Longrightarrow> sv_step Listen s t"
| sv_pipe: "pipe_step s t \<Longrightarrow> sv_step Listen s t"
| sv_call_Close: "sv_step Listen s (s\<lparr>sv_closers := sv_closers s @ [0]\<rparr>)"
| sv_call_Handle: "sv_step Listen s (s\<lparr>sv_srv := Handle kind f names (sv_srv s)\<rparr>)"

definition fresh_mgr :: "'tls conn_mgr \<Rightarrow> 'tls conn_mgr" where
  "fresh_mgr m = m\<lparr>m_l := None, m_closes := 0\<rparr>"

definition sv_init :: "('tls, 'f) serving \<Rightarrow> bool" where
  "sv_init s \<longleftrightarrow> (\<exists>srv. s = Server_Start srv \<and> (\<forall>m \<in> set (connectionManagers srv). m = fresh_mgr m))"

section \<open>One manager\<close>

text \<open>The error a manager's \<open>ListenAndServe\<close> returns with, as a function of what its calls answered.\<close>

definition mgr_ListenAndServe :: "'tls listen_func \<Rightarrow> (error + unit) list \<Rightarrow> 'tls conn_mgr \<Rightarrow> error option" where
  "mgr_ListenAndServe Listen rs m =
     (if m_packet m then fst (packet_ListenAndServe Listen rs rs m) else fst (stream_ListenAndServe Listen rs m))"

fun mgr_inv :: "'tls listen_func \<Rightarrow> mgr_phase \<Rightarrow> (error + unit) list \<Rightarrow> 'tls conn_mgr \<Rightarrow> bool" where
  "mgr_inv Listen MStarting rs m \<longleftrightarrow> m = fresh_mgr m \<and> rs = []"
| "mgr_inv Listen MServing rs m \<longleftrightarrow>
     mgr_listen Listen (fresh_mgr m) = (None, (fresh_mgr m)\<lparr>m_l := m_l m\<rparr>) \<and> m_l m \<noteq> None \<and> (\<forall>r \<in> set rs. \<not> isl r)"
| "mgr_inv Listen MWriting rs m \<longleftrightarrow>
     mgr_listen Listen (fresh_mgr m) = (None, (fresh_mgr m)\<lparr>m_l := m_l m\<rparr>) \<and> m_l m \<noteq> None \<and> (\<forall>r \<in> set rs. \<not> isl r)"
| "mgr_inv Listen (MEnded err) rs m \<longleftrightarrow>
     mgr_ListenAndServe Listen rs (fresh_mgr m) = Some err \<and> (m_l m \<noteq> None \<longrightarrow> 0 < m_closes m)"

lemma fresh_mgr_sel [simp]:
  "m_packet (fresh_mgr m) = m_packet m" "m_addr (fresh_mgr m) = m_addr m"
  "m_tlsConfig (fresh_mgr m) = m_tlsConfig m" "m_l (fresh_mgr m) = None" "m_closes (fresh_mgr m) = 0"
  by (simp_all add: fresh_mgr_def)

lemma fresh_l_Close [simp]: "fresh_mgr (l_Close m) = fresh_mgr m" "m_l (l_Close m) = m_l m"
  "m_closes (l_Close m) = Suc (m_closes m)"
  by (simp_all add: fresh_mgr_def l_Close_def)

lemma fresh_mgr_Close [simp]: "fresh_mgr (mgr_Close m) = fresh_mgr m" "m_l (mgr_Close m) = m_l m"
  "m_closes (mgr_Close m) = (if m_l m = None then m_closes m else Suc (m_closes m))"
  by (simp_all add: mgr_Close_eq)

lemma mgr_listen_fresh:
  "mgr_listen Listen m = (e, m') \<Longrightarrow> fresh_mgr m' = fresh_mgr m"
  by (auto simp: mgr_listen_def stream_listen_def packet_listen_def fresh_mgr_def l_Close_def
      split: if_splits sum.splits lraw.splits)

lemma mgr_listen_ok:
  assumes "m = fresh_mgr m" and "mgr_listen Listen m = (None, m')"
  shows "mgr_inv Listen MServing [] m'"
proof -
  have "m' = m\<lparr>m_l := m_l m'\<rparr>" "m_l m' \<noteq> None"
    using assms(2) by (auto simp: mgr_listen_def stream_listen_def packet_listen_def
        split: if_splits sum.splits lraw.splits)
  moreover have "fresh_mgr m' = m" using assms mgr_listen_fresh by metis
  ultimately show ?thesis using assms(2) by simp
qed

lemma mgr_listen_failed:
  assumes "m = fresh_mgr m" and "mgr_listen Listen m = (Some err, m')"
  shows "mgr_inv Listen (MEnded err) [] m'"
proof -
  have "m_l m' = None"
    using assms fresh_mgr_sel(4) [of m] by (auto simp: mgr_listen_def stream_listen_def packet_listen_def l_Close_def
        split: if_splits sum.splits lraw.splits)
  moreover have "fresh_mgr m' = m" using assms mgr_listen_fresh by metis
  ultimately show ?thesis using assms(2)
    by (auto simp: mgr_listen_def mgr_ListenAndServe_def stream_ListenAndServe_def packet_ListenAndServe_def
        split: if_splits)
qed

lemma accept_loop_err:
  "(\<forall>r \<in> set rs. \<not> isl r) \<Longrightarrow> accept_loop what (rs @ [Inl err]) = (map projr rs, Some (Wrap what err))"
proof (induction rs)
  case (Cons r rs)
  then show ?case by (cases r) (auto split: prod.splits)
qed simp

lemma mgr_loop_failed:
  assumes "mgr_inv Listen MServing rs m" and "serves m"
  shows "mgr_inv Listen (MEnded (Wrap (serve_what m) err)) (rs @ [Inl err]) (l_Close m)"
proof -
  have loop: "\<And>what. accept_loop what (rs @ [Inl err]) = (map projr rs, Some (Wrap what err))"
    using assms(1) by (simp add: accept_loop_err)
  have listen: "mgr_listen Listen (fresh_mgr m) = (None, (fresh_mgr m)\<lparr>m_l := m_l m\<rparr>)" "m_l m \<noteq> None"
    using assms(1) by simp_all
  have "mgr_ListenAndServe Listen (rs @ [Inl err]) (fresh_mgr m) = Some (Wrap (serve_what m) err)"
  proof (cases "m_packet m")
    case True
    with listen assms(2) show ?thesis
      by (auto simp: mgr_listen_def mgr_ListenAndServe_def packet_ListenAndServe_def serve_what_def serves_def loop)
  next
    case False
    with listen show ?thesis
      by (simp add: mgr_listen_def mgr_ListenAndServe_def stream_ListenAndServe_def serve_what_def loop)
  qed
  then show ?thesis by simp
qed

lemma mgr_unexpected:
  assumes "mgr_inv Listen MServing rs m" and "\<not> serves m"
  shows "mgr_inv Listen (MEnded (Errorf ''unexpected conn'')) rs (l_Close m)"
  using assms by (auto simp: mgr_listen_def mgr_ListenAndServe_def packet_ListenAndServe_def serves_def
      split: option.splits lraw.splits)

lemma mgr_Close_inv: "mgr_inv Listen ph rs m \<Longrightarrow> mgr_inv Listen ph rs (mgr_Close m)"
proof (cases ph)
  case MStarting
  moreover assume "mgr_inv Listen ph rs m"
  ultimately have "m_l m = None" using fresh_mgr_sel(4) [of m] by simp
  then have "mgr_Close m = m" by (simp add: mgr_Close_eq)
  with \<open>mgr_inv Listen ph rs m\<close> show ?thesis by simp
qed auto

section \<open>The whole server\<close>

definition sv_inv :: "(nat \<Rightarrow> 'tls listen_func) \<Rightarrow> ('tls, 'f) serving \<Rightarrow> bool" where
  "sv_inv Listen s \<longleftrightarrow>
     length (sv_phase s) = sv_n s \<and> length (sv_results s) = sv_n s \<and>
     (\<forall>i < sv_n s. mgr_inv (Listen i) (sv_phase s ! i) (sv_results s ! i) (sv_mgr s i)) \<and>
     distinct (map fst (sv_order s)) \<and>
     (\<forall>i err. (i, err) \<in> set (sv_order s) \<longleftrightarrow> i < sv_n s \<and> sv_phase s ! i = MEnded err) \<and>
     (sv_main s \<noteq> Waiting \<longrightarrow> length (sv_order s) = sv_n s) \<and>
     (\<forall>k. sv_main s = Closing k \<longrightarrow> k \<le> sv_n s) \<and>
     (\<forall>err. sv_main s = Returned err \<longrightarrow> err = group_err (sv_order s)) \<and>
     (\<forall>c \<in> set (sv_closers s). c \<le> sv_n s)"

lemma set_mgr_sel [simp]:
  "connectionManagers (set_mgr i m srv) = (connectionManagers srv)[i := m]"
  by (simp add: set_mgr_def)

lemma Handle_mgrs [simp]: "connectionManagers (Handle kind f names srv) = connectionManagers srv"
  by (simp add: Handle_def Let_def)

lemma sv_ended:
  assumes inv: "sv_inv Listen s" and all: "length (sv_order s) = sv_n s" and i: "i < sv_n s"
  shows "\<exists>err. sv_phase s ! i = MEnded err"
proof -
  have "fst ` set (sv_order s) \<subseteq> {..<sv_n s}" using inv by (auto simp: sv_inv_def)
  moreover have "card (fst ` set (sv_order s)) = card {..<sv_n s}"
    using inv all distinct_card [of "map fst (sv_order s)"] by (simp add: sv_inv_def)
  ultimately have "fst ` set (sv_order s) = {..<sv_n s}" by (intro card_subset_eq) simp_all
  with i have "i \<in> fst ` set (sv_order s)" by simp
  with inv show ?thesis by (auto simp: sv_inv_def)
qed

lemma mgr_end_inv:
  assumes inv: "sv_inv Listen s" and i: "i < sv_n s" "\<forall>err. sv_phase s ! i \<noteq> MEnded err"
    and m: "mgr_inv (Listen i) (MEnded err) rs m"
  shows "sv_inv Listen (mgr_end i err m (s\<lparr>sv_results := (sv_results s)[i := rs]\<rparr>))"
proof -
  have "length (sv_order s) \<noteq> sv_n s" using sv_ended [OF inv _ i(1)] i(2) by blast
  with inv have wait: "sv_main s = Waiting" by (auto simp: sv_inv_def)
  have "i \<notin> fst ` set (sv_order s)" using inv i by (auto simp: sv_inv_def)
  with inv i m wait show ?thesis by (auto simp: sv_inv_def mgr_end_def nth_list_update)
qed

lemma mgr_update_inv:
  assumes "sv_inv Listen s" and "i < sv_n s"
    and "mgr_inv (Listen i) (sv_phase s ! i) (sv_results s ! i) (sv_mgr s i) \<Longrightarrow> mgr_inv (Listen i) (sv_phase s ! i) rs m"
  shows "sv_inv Listen (s\<lparr>sv_srv := set_mgr i m (sv_srv s), sv_results := (sv_results s)[i := rs]\<rparr>)"
  using assms by (auto simp: sv_inv_def nth_list_update)

lemma mgr_end_inv_same:
  assumes "sv_inv Listen s" and "i < sv_n s" and "\<forall>err. sv_phase s ! i \<noteq> MEnded err"
    and "mgr_inv (Listen i) (MEnded err) (sv_results s ! i) m"
  shows "sv_inv Listen (mgr_end i err m s)"
  using mgr_end_inv [OF assms] by simp

lemma mgr_close_inv:
  assumes "sv_inv Listen s" and "i < sv_n s"
  shows "sv_inv Listen (s\<lparr>sv_srv := set_mgr i (mgr_Close (sv_mgr s i)) (sv_srv s)\<rparr>)"
  using mgr_update_inv [OF assms, of "sv_results s ! i" "mgr_Close (sv_mgr s i)", OF mgr_Close_inv] by simp

text \<open>A manager in its loop goes between waiting for a packet and writing one.\<close>

lemma mgr_loop_inv:
  assumes inv: "sv_inv Listen s" and i: "i < sv_n s" and ph: "sv_phase s ! i \<in> {MServing, MWriting}" "ph \<in> {MServing, MWriting}"
    and rs: "\<forall>r \<in> set (sv_results s ! i). \<not> isl r \<Longrightarrow> \<forall>r \<in> set rs. \<not> isl r"
  shows "sv_inv Listen (s\<lparr>sv_results := (sv_results s)[i := rs], sv_phase := (sv_phase s)[i := ph]\<rparr>)"
proof -
  have "mgr_inv (Listen i) (sv_phase s ! i) (sv_results s ! i) (sv_mgr s i)" using inv i by (simp add: sv_inv_def)
  then have "mgr_inv (Listen i) ph rs (sv_mgr s i)" using ph rs by auto
  moreover have "sv_phase s ! i \<noteq> MEnded err" "ph \<noteq> MEnded err" for err using ph by auto
  ultimately show ?thesis using inv i by (auto simp: sv_inv_def nth_list_update)
qed

lemma serve_step_inv:
  assumes "serve_step Listen s t" and inv: "sv_inv Listen s"
  shows "sv_inv Listen t"
  using assms(1)
proof cases
  case (sv_listen i m)
  then have start: "sv_mgr s i = fresh_mgr (sv_mgr s i)" "sv_results s ! i = []"
    using inv by (auto simp: sv_inv_def)
  have "mgr_inv (Listen i) MServing [] m" using mgr_listen_ok [OF start(1) sv_listen(4)] .
  with sv_listen inv start(2) show ?thesis by (auto simp: sv_inv_def nth_list_update)
next
  case (sv_listen_err i err m)
  then have start: "sv_mgr s i = fresh_mgr (sv_mgr s i)" "sv_results s ! i = []"
    using inv by (auto simp: sv_inv_def)
  with sv_listen_err mgr_listen_failed [OF start(1) sv_listen_err(4)]
  show ?thesis by (auto intro: mgr_end_inv_same [OF inv])
next
  case (sv_unexpected i)
  then have "mgr_inv (Listen i) MServing (sv_results s ! i) (sv_mgr s i)" using inv by (auto simp: sv_inv_def)
  from mgr_unexpected [OF this sv_unexpected(4)] sv_unexpected
  show ?thesis by (auto intro: mgr_end_inv_same [OF inv])
next
  case (sv_accept i)
  then show ?thesis using mgr_update_inv [OF inv sv_accept(2), of "sv_results s ! i @ [Inr ()]" "sv_mgr s i"]
    by (simp add: set_mgr_def)
next
  case (sv_packet i)
  then show ?thesis by (auto intro!: mgr_loop_inv [OF inv])
next
  case (sv_accept_err i err)
  then have "mgr_inv (Listen i) MServing (sv_results s ! i) (sv_mgr s i)" using inv by (auto simp: sv_inv_def)
  from mgr_loop_failed [OF this sv_accept_err(4)] sv_accept_err
  show ?thesis by (auto intro: mgr_end_inv [OF inv])
next
  case (sv_closing k)
  with mgr_close_inv [OF inv sv_closing(3)] show ?thesis by (simp add: sv_inv_def)
next
  case (sv_close c k)
  with mgr_close_inv [OF inv sv_close(4)] show ?thesis
    by (auto simp: sv_inv_def dest!: set_update_subset_insert [THEN subsetD])
qed (use inv in \<open>auto simp: sv_inv_def\<close>)

lemma pipe_step_inv:
  assumes "pipe_step s t" and inv: "sv_inv Listen s"
  shows "sv_inv Listen t"
proof -
  from assms(1) obtain i where "i < sv_n s" "sv_phase s ! i = MWriting" "t = s\<lparr>sv_phase := (sv_phase s)[i := MServing]\<rparr>"
    by (auto simp: pipe_step_def)
  then show ?thesis using mgr_loop_inv [OF inv, of i MServing "sv_results s ! i"] by simp
qed

interpretation svs: invariant_system sv_init "sv_step Listen" "sv_inv Listen"
  for Listen
proof
  fix s t :: "('a, 'b) serving"
  show "sv_init s \<Longrightarrow> sv_inv Listen s" by (auto simp: sv_init_def sv_inv_def Server_Start_def)
  show "sv_step Listen s t \<Longrightarrow> sv_inv Listen s \<Longrightarrow> sv_inv Listen t"
    by (erule sv_step.cases) (auto intro: serve_step_inv pipe_step_inv, auto simp: sv_inv_def)
qed

section \<open>Closing\<close>

text \<open>A call of \<open>Close\<close> that ran to its end.\<close>

definition after_Close :: "('tls, 'f) serving \<Rightarrow> ('tls, 'f) serving" where
  "after_Close s = s\<lparr>sv_srv := Server_Close (sv_srv s), sv_closers := sv_closers s @ [sv_n s]\<rparr>"

lemma Server_Close_mgrs [simp]: "connectionManagers (Server_Close srv) = map mgr_Close (connectionManagers srv)"
  by (simp add: Server_Close_def)

lemma list_update_prefix:
  "k < length xs \<Longrightarrow> (map f (take k xs) @ drop k xs)[k := f (xs ! k)] = map f (take (Suc k) xs) @ drop (Suc k) xs"
  by (simp add: list_update_append take_Suc_conv_app_nth Cons_nth_drop_Suc [symmetric])

text \<open>The state when the call has closed the first \<open>k\<close> managers.\<close>

definition during_Close :: "nat \<Rightarrow> ('tls, 'f) serving \<Rightarrow> ('tls, 'f) serving" where
  "during_Close k s =
     s\<lparr>sv_srv := (sv_srv s)\<lparr>connectionManagers :=
          map mgr_Close (take k (connectionManagers (sv_srv s))) @ drop k (connectionManagers (sv_srv s))\<rparr>,
       sv_closers := sv_closers s @ [k]\<rparr>"

lemma during_Close_step:
  assumes "k < sv_n s"
  shows "serve_step Listen (during_Close k s) (during_Close (Suc k) s)"
proof -
  let ?d = "during_Close k s"
  have "sv_mgr ?d k = sv_mgr s k" using assms by (simp add: during_Close_def nth_append)
  then have "during_Close (Suc k) s =
      ?d\<lparr>sv_srv := set_mgr k (mgr_Close (sv_mgr ?d k)) (sv_srv ?d),
         sv_closers := (sv_closers ?d)[length (sv_closers s) := Suc k]\<rparr>"
    using assms list_update_prefix [of k "connectionManagers (sv_srv s)" mgr_Close]
    by (simp add: during_Close_def set_mgr_def)
  moreover have "serve_step Listen ?d
      (?d\<lparr>sv_srv := set_mgr k (mgr_Close (sv_mgr ?d k)) (sv_srv ?d),
          sv_closers := (sv_closers ?d)[length (sv_closers s) := Suc k]\<rparr>)"
    using assms by (intro sv_close) (simp_all add: during_Close_def)
  ultimately show ?thesis by simp
qed

lemma after_Close_reached: "(sv_step Listen)\<^sup>*\<^sup>* s (after_Close s)"
proof -
  have "k \<le> sv_n s \<Longrightarrow> (sv_step Listen)\<^sup>*\<^sup>* s (during_Close k s)" for k
  proof (induction k)
    case 0
    have "during_Close 0 s = s\<lparr>sv_closers := sv_closers s @ [0]\<rparr>" by (simp add: during_Close_def)
    then show ?case using sv_call_Close [of Listen s] by (metis r_into_rtranclp)
  next
    case (Suc k)
    then show ?case using during_Close_step [of k s Listen]
      by (meson Suc_le_lessD less_imp_le rtranclp.rtrancl_into_rtrancl sv_run)
  qed
  from this [of "sv_n s"] show ?thesis by (simp add: during_Close_def after_Close_def Server_Close_def)
qed

text \<open>The steps left when no manager can start or accept any more.\<close>

definition mgr_left :: "mgr_phase \<Rightarrow> nat" where
  "mgr_left ph = (case ph of MStarting \<Rightarrow> 2 | MServing \<Rightarrow> 1 | MWriting \<Rightarrow> 2 | MEnded _ \<Rightarrow> 0)"

fun main_left :: "nat \<Rightarrow> main_pc \<Rightarrow> nat" where
  "main_left n Waiting = n + 2"
| "main_left n (Closing k) = n + 1 - k"
| "main_left n (Returned _) = 0"

definition sv_left :: "('tls, 'f) serving \<Rightarrow> nat" where
  "sv_left s = sum_list (map mgr_left (sv_phase s)) + sum_list (map (\<lambda>c. sv_n s - c) (sv_closers s)) +
     main_left (sv_n s) (sv_main s)"

definition all_closed :: "('tls, 'f) serving \<Rightarrow> bool" where
  "all_closed s \<longleftrightarrow>
     (\<forall>i < sv_n s. sv_phase s ! i \<noteq> MStarting \<and> (sv_phase s ! i = MServing \<or> sv_phase s ! i = MWriting \<longrightarrow> 0 < m_closes (sv_mgr s i)))"

lemma sum_list_update_less:
  fixes f :: "'a \<Rightarrow> nat"
  assumes "i < length xs" and "f y < f (xs ! i)"
  shows "sum_list (map f (xs[i := y])) < sum_list (map f xs)"
  using assms by (induction xs arbitrary: i) (auto split: nat.splits)

lemma all_closed_end:
  assumes "all_closed s" and "i < sv_n s" and "sv_phase s ! i = MServing" and "length (sv_phase s) = sv_n s"
  shows "all_closed (mgr_end i err m s) \<and> sv_left (mgr_end i err m s) < sv_left s"
  using assms sum_list_update_less [of i "sv_phase s" mgr_left "MEnded err"]
  by (auto simp: all_closed_def sv_left_def mgr_end_def mgr_left_def nth_list_update)

lemma all_closed_step:
  assumes "serve_step Listen s t" and inv: "sv_inv Listen s" and "all_closed s"
  shows "all_closed t \<and> sv_left t < sv_left s"
  using assms(1)
proof cases
  case (sv_unexpected i)
  with all_closed_end [OF assms(3)] inv show ?thesis by (auto simp: sv_inv_def)
next
  case (sv_accept_err i err)
  let ?s = "s\<lparr>sv_results := (sv_results s)[i := sv_results s ! i @ [Inl err]]\<rparr>"
  have "all_closed ?s" "sv_left ?s = sv_left s" using assms(3) by (simp_all add: all_closed_def sv_left_def)
  with sv_accept_err all_closed_end [of ?s i] inv show ?thesis by (auto simp: sv_inv_def)
next
  case (sv_close c k)
  then show ?thesis using assms(3) sum_list_update_less [of c "sv_closers s" "\<lambda>c. sv_n s - c" "Suc k"]
    by (auto simp: all_closed_def sv_left_def nth_list_update)
qed (use assms(3) in \<open>auto simp: all_closed_def sv_left_def nth_list_update\<close>)

lemma all_closed_pipe:
  assumes "pipe_step s t" and inv: "sv_inv Listen s" and "all_closed s"
  shows "all_closed t \<and> sv_left t < sv_left s"
proof -
  from assms(1) obtain i where i: "i < sv_n s" "sv_phase s ! i = MWriting" "t = s\<lparr>sv_phase := (sv_phase s)[i := MServing]\<rparr>"
    by (auto simp: pipe_step_def)
  then have len: "i < length (sv_phase s)" "length (sv_phase s) = sv_n s" using inv by (simp_all add: sv_inv_def)
  from sum_list_update_less [OF len(1), of mgr_left MServing] i len(2) assms(3) show ?thesis
    by (auto simp: all_closed_def sv_left_def mgr_left_def nth_list_update)
qed

lemma all_closed_stuck:
  assumes inv: "sv_inv Listen s" and "all_closed s" and stuck: "\<nexists>t. serve_step Listen s t"
    and writing: "\<forall>i < sv_n s. sv_phase s ! i \<noteq> MWriting"
  shows "\<exists>err. sv_main s = Returned err"
proof -
  have "sv_phase s ! i \<noteq> MServing" if i: "i < sv_n s" for i
    using stuck sv_unexpected [OF i] sv_accept_err [OF i] by blast
  then have ended: "\<exists>err. sv_phase s ! i = MEnded err" if "i < sv_n s" for i
    using assms(2) writing that unfolding all_closed_def by (metis mgr_phase.exhaust)
  have "{..<sv_n s} \<subseteq> fst ` set (sv_order s)"
  proof
    fix i assume "i \<in> {..<sv_n s}"
    then obtain err where "(i, err) \<in> set (sv_order s)" using ended [of i] inv by (auto simp: sv_inv_def)
    then show "i \<in> fst ` set (sv_order s)" by force
  qed
  moreover have "fst ` set (sv_order s) \<subseteq> {..<sv_n s}" using inv by (auto simp: sv_inv_def)
  ultimately have "set (map fst (sv_order s)) = {..<sv_n s}" by auto
  moreover have "distinct (map fst (sv_order s))" using inv by (simp add: sv_inv_def)
  ultimately have "length (sv_order s) = sv_n s" using distinct_card by fastforce
  then have "sv_main s \<noteq> Waiting" using stuck sv_wait by blast
  moreover have "sv_main s \<noteq> Closing k" for k
    using stuck sv_closing [of s k Listen] sv_return [of s k Listen] inv by (auto simp: sv_inv_def le_less)
  ultimately show ?thesis by (cases "sv_main s") auto
qed

text \<open>The goroutines of the server with the pipes they write to.\<close>

definition goroutines_step :: "(nat \<Rightarrow> 'tls listen_func) \<Rightarrow> ('tls, 'f) serving \<Rightarrow> ('tls, 'f) serving \<Rightarrow> bool" where
  "goroutines_step Listen s t \<longleftrightarrow> serve_step Listen s t \<or> pipe_step s t"

lemma all_closed_run:
  "(goroutines_step Listen ^^ k) s t \<Longrightarrow> sv_inv Listen s \<Longrightarrow> all_closed s \<Longrightarrow>
     sv_inv Listen t \<and> all_closed t \<and> k + sv_left t \<le> sv_left s"
proof (induction k arbitrary: t)
  case (Suc k)
  then obtain u where u: "(goroutines_step Listen ^^ k) s u" "serve_step Listen u t \<or> pipe_step u t"
    by (metis goroutines_step_def relpowp_Suc_E)
  from Suc.IH [OF u(1) Suc.prems(2,3)] have "sv_inv Listen u" "all_closed u" "k + sv_left u \<le> sv_left s" by auto
  with u(2) all_closed_step [of Listen u t] serve_step_inv [of Listen u t] all_closed_pipe [of u t Listen] pipe_step_inv [of u t Listen]
  show ?case by fastforce
qed simp

section \<open>Properties\<close>

text \<open>
  C15. \<open>ListenAndServe\<close> of a server returns only after every connection manager's has
  returned, whatever calls of \<open>Close\<close> and \<open>Handle\<close> ran beside it: each manager
  then ended with exactly the error its own \<open>ListenAndServe\<close> computes from what
  \<open>Listen\<close> and its \<open>Accept\<close> or \<open>ReadFrom\<close> calls answered, every listener that
  was opened has been closed, and the error returned is that of the manager that ended
  first, so it is not \<open>nil\<close>.
\<close>

theorem server_returns_after_all:
  assumes "reach sv_init (sv_step Listen) s" and "sv_main s = Returned err"
  shows "(\<forall>i < sv_n s. \<exists>e. sv_phase s ! i = MEnded e \<and>
            mgr_ListenAndServe (Listen i) (sv_results s ! i) (fresh_mgr (sv_mgr s i)) = Some e \<and>
            (m_l (sv_mgr s i) \<noteq> None \<longrightarrow> 0 < m_closes (sv_mgr s i))) \<and>
         (0 < sv_n s \<longrightarrow> (\<exists>i e. hd (sv_order s) = (i, e) \<and> i < sv_n s \<and> sv_phase s ! i = MEnded e \<and> err = Some e))"
proof -
  have inv: "sv_inv Listen s" by (rule svs.inv_reach [OF assms(1)])
  then have all: "length (sv_order s) = sv_n s" and err: "err = group_err (sv_order s)"
    using assms(2) by (auto simp: sv_inv_def)
  have "\<exists>e. sv_phase s ! i = MEnded e \<and>
      mgr_ListenAndServe (Listen i) (sv_results s ! i) (fresh_mgr (sv_mgr s i)) = Some e \<and>
      (m_l (sv_mgr s i) \<noteq> None \<longrightarrow> 0 < m_closes (sv_mgr s i))" if i: "i < sv_n s" for i
  proof -
    obtain e where "sv_phase s ! i = MEnded e" using sv_ended [OF inv all i] by blast
    moreover have "mgr_inv (Listen i) (sv_phase s ! i) (sv_results s ! i) (sv_mgr s i)"
      using inv i by (simp add: sv_inv_def)
    ultimately show ?thesis by simp
  qed
  moreover have "\<exists>i e. hd (sv_order s) = (i, e) \<and> i < sv_n s \<and> sv_phase s ! i = MEnded e \<and> err = Some e"
    if "0 < sv_n s"
  proof -
    obtain i e rest where order: "sv_order s = (i, e) # rest" using all \<open>0 < sv_n s\<close> by (cases "sv_order s") auto
    then have "(i, e) \<in> set (sv_order s)" by simp
    with inv order err show ?thesis by (auto simp: sv_inv_def group_err_def)
  qed
  ultimately show ?thesis by blast
qed

definition srv_example :: "(unit, unit) Server" where
  "srv_example = empty_server\<lparr>connectionManagers :=
     [newStreamConnectionManager \<lparr>Network = ''tcp'', AddrString = ''localhost:1''\<rparr> None]\<rparr>"

lemma srv_example_start: "reach sv_init (sv_step Listen) (Server_Start srv_example)"
  by (rule reach_init) (auto simp: sv_init_def srv_example_def newStreamConnectionManager_def fresh_mgr_def)

text \<open>A server whose only endpoint cannot be listened on.\<close>

definition failed_start :: "main_pc \<Rightarrow> (unit, unit) serving" where
  "failed_start pc = (Server_Start srv_example)
     \<lparr>sv_phase := [MEnded (ExtErr ''in use'')], sv_order := [(0, ExtErr ''in use'')], sv_main := pc\<rparr>"

theorem server_returns_after_all_witness:
  "reach sv_init (sv_step (\<lambda>_ _ _ _. Inl (ExtErr ''in use''))) (failed_start (Returned (Some (ExtErr ''in use'')))) \<and>
   mgr_ListenAndServe (\<lambda>_ _ _. Inl (ExtErr ''in use'')) []
     (fresh_mgr (sv_mgr (failed_start (Returned (Some (ExtErr ''in use'')))) 0)) = Some (ExtErr ''in use'')"
proof -
  let ?step = "sv_step (\<lambda>_ _ _ _. Inl (ExtErr ''in use'')) :: (unit, unit) serving \<Rightarrow> _"
  have "serve_step (\<lambda>_ _ _ _. Inl (ExtErr ''in use'')) (Server_Start srv_example)
      (mgr_end 0 (ExtErr ''in use'') (sv_mgr (Server_Start srv_example) 0) (Server_Start srv_example))"
    by (rule sv_listen_err) (simp_all add: Server_Start_def srv_example_def mgr_listen_def stream_listen_def
        newStreamConnectionManager_def)
  then have "?step (Server_Start srv_example) (failed_start Waiting)"
    by (intro sv_run) (simp add: mgr_end_def failed_start_def Server_Start_def srv_example_def set_mgr_def)
  moreover have "?step (failed_start Waiting) (failed_start (Closing 0))"
    using sv_run [OF sv_wait [of "failed_start Waiting"]]
    by (simp add: failed_start_def Server_Start_def srv_example_def)
  moreover have "?step (failed_start (Closing 0)) (failed_start (Closing 1))"
    using sv_run [OF sv_closing [of "failed_start (Closing 0)" 0]]
    by (simp add: failed_start_def Server_Start_def srv_example_def set_mgr_def mgr_Close_eq newStreamConnectionManager_def)
  moreover have "?step (failed_start (Closing 1)) (failed_start (Returned (Some (ExtErr ''in use''))))"
    using sv_run [OF sv_return [of "failed_start (Closing 1)" 1]]
    by (simp add: failed_start_def Server_Start_def srv_example_def group_err_def)
  ultimately have r: "reach sv_init ?step (failed_start (Returned (Some (ExtErr ''in use''))))"
    using srv_example_start by (meson reach_step)
  from server_returns_after_all [OF r, of "Some (ExtErr ''in use'')"] r show ?thesis
    by (simp add: failed_start_def Server_Start_def srv_example_def)
qed

lemma after_Close_closed:
  assumes inv: "sv_inv Listen s" and "\<forall>i < sv_n s. sv_phase s ! i \<noteq> MStarting"
  shows "all_closed (after_Close s)"
  unfolding all_closed_def
proof (intro allI impI conjI)
  fix i assume "i < sv_n (after_Close s)"
  then have i: "i < sv_n s" by (simp add: after_Close_def)
  then have m: "mgr_inv (Listen i) (sv_phase s ! i) (sv_results s ! i) (sv_mgr s i)"
    using inv by (simp add: sv_inv_def)
  show "sv_phase (after_Close s) ! i \<noteq> MStarting" using assms(2) i by (simp add: after_Close_def)
  assume "sv_phase (after_Close s) ! i = MServing \<or> sv_phase (after_Close s) ! i = MWriting"
  with m i show "0 < m_closes (sv_mgr (after_Close s) i)" by (auto simp: after_Close_def)
qed

text \<open>
  C19. \<open>Close\<close> stops a server whose managers have all got past opening their listener,
  unless a packet manager hangs in a write: the call can run to its end, and from there
  every run of the goroutines takes at most \<open>sv_left\<close> steps (nothing is accepted any more)
  and comes to a halt only with \<open>ListenAndServe\<close> returned, or with a packet manager still
  in \<open>pw.Write\<close> to a virtual connection whose goroutine does not read; this write is not
  ended by \<open>Close\<close>, and \<open>ListenAndServe\<close> waits for it.
\<close>

theorem close_stops_server:
  assumes "reach sv_init (sv_step Listen) s" and "\<forall>i < sv_n s. sv_phase s ! i \<noteq> MStarting"
  shows "reach sv_init (sv_step Listen) (after_Close s) \<and>
         (\<forall>k t. (goroutines_step Listen ^^ k) (after_Close s) t \<longrightarrow>
            k \<le> sv_left (after_Close s) \<and>
            ((\<nexists>u. serve_step Listen t u) \<longrightarrow>
               (\<exists>err. sv_main t = Returned err) \<or> (\<exists>i < sv_n t. sv_phase t ! i = MWriting)) \<and>
            ((\<exists>i < sv_n t. sv_phase t ! i = MWriting) \<longrightarrow> sv_main t = Waiting))"
proof (intro conjI allI impI)
  show r: "reach sv_init (sv_step Listen) (after_Close s)"
    by (rule svs.reach_rtranclp [OF after_Close_reached assms(1)])
  have inv: "sv_inv Listen (after_Close s)" by (rule svs.inv_reach [OF r])
  have closed: "all_closed (after_Close s)"
    by (rule after_Close_closed [OF svs.inv_reach [OF assms(1)] assms(2)])
  fix k t
  assume "(goroutines_step Listen ^^ k) (after_Close s) t"
  from all_closed_run [OF this inv closed] have t: "sv_inv Listen t" "all_closed t" "k + sv_left t \<le> sv_left (after_Close s)"
    by auto
  then show "k \<le> sv_left (after_Close s)" by simp
  show "(\<exists>err. sv_main t = Returned err) \<or> (\<exists>i < sv_n t. sv_phase t ! i = MWriting)" if "\<nexists>u. serve_step Listen t u"
    using all_closed_stuck [OF t(1,2) that] by blast
  show "sv_main t = Waiting" if "\<exists>i < sv_n t. sv_phase t ! i = MWriting"
    using that sv_ended [OF t(1)] t(1) unfolding sv_inv_def by (metis mgr_phase.distinct(11))
qed

text \<open>The example server with its endpoint opened.\<close>

definition listening :: "nat list \<Rightarrow> (unit, unit) serving" where
  "listening closers = (Server_Start (srv_example\<lparr>connectionManagers :=
      [(newStreamConnectionManager \<lparr>Network = ''tcp'', AddrString = ''localhost:1''\<rparr> None)\<lparr>m_l := Some LListener\<rparr>]\<rparr>))
     \<lparr>sv_phase := [MServing], sv_closers := closers\<rparr>"

lemma listening_step:
  "sv_step (\<lambda>_ _ _ _. Inr LListener) ((Server_Start srv_example)\<lparr>sv_closers := cs\<rparr>) (listening cs)"
proof -
  let ?s = "(Server_Start srv_example)\<lparr>sv_closers := cs\<rparr>"
  have "serve_step (\<lambda>_ _ _ _. Inr LListener) ?s
      (?s\<lparr>sv_srv := set_mgr 0 ((sv_mgr ?s 0)\<lparr>m_l := Some LListener\<rparr>) (sv_srv ?s), sv_phase := (sv_phase ?s)[0 := MServing]\<rparr>)"
    by (rule sv_listen) (simp_all add: Server_Start_def srv_example_def mgr_listen_def stream_listen_def
        newStreamConnectionManager_def)
  then show ?thesis
    by (intro sv_run) (simp add: listening_def Server_Start_def srv_example_def set_mgr_def)
qed

lemma listening_reach: "reach sv_init (sv_step (\<lambda>_ _ _ _. Inr LListener)) (listening [])"
proof -
  have "sv_step (\<lambda>_ _ _ _. Inr LListener) (Server_Start srv_example) (listening [])"
    using listening_step [of "[]"] by (simp add: Server_Start_def)
  then show ?thesis by (rule reach_step [OF srv_example_start])
qed

theorem close_stops_server_witness:
  "reach sv_init (sv_step (\<lambda>_ _ _ _. Inr LListener)) (after_Close (listening [])) \<and>
   sv_left (after_Close (listening [])) = 4 \<and>
   \<not> (\<exists>t. (goroutines_step (\<lambda>_ _ _ _. Inr LListener) ^^ 5) (after_Close (listening [])) t)"
proof -
  have n: "sv_left (after_Close (listening [])) = 4"
    by (simp add: after_Close_def listening_def Server_Start_def srv_example_def sv_left_def mgr_left_def)
  have "\<forall>i < sv_n (listening []). sv_phase (listening []) ! i \<noteq> MStarting"
    by (simp add: listening_def Server_Start_def)
  note stop = close_stops_server [OF listening_reach this]
  have "\<not> (goroutines_step (\<lambda>_ _ _ _. Inr LListener) ^^ 5) (after_Close (listening [])) t" for t
  proof
    assume "(goroutines_step (\<lambda>_ _ _ _. Inr LListener) ^^ 5) (after_Close (listening [])) t"
    with stop have "5 \<le> sv_left (after_Close (listening []))" by blast
    with n show False by simp
  qed
  with stop n show ?thesis by blast
qed

text \<open>
  C35. A call of \<open>Close\<close> that finds a manager before it has opened its listener is
  lost for that manager: after the whole call the manager still opens its listener and
  serves, its listener not closed by anyone.
\<close>

theorem close_before_listen_lost:
  assumes "reach sv_init (sv_step Listen) s" and "i < sv_n s" and "sv_phase s ! i = MStarting"
    and "fst (mgr_listen (Listen i) (sv_mgr s i)) = None"
  shows "\<exists>t. sv_step Listen (after_Close s) t \<and> sv_closers t = sv_closers s @ [sv_n s] \<and>
             sv_phase t ! i = MServing \<and> m_l (sv_mgr t i) \<noteq> None \<and> m_closes (sv_mgr t i) = 0"
proof -
  have inv: "sv_inv Listen s" by (rule svs.inv_reach [OF assms(1)])
  then have fresh: "sv_mgr s i = fresh_mgr (sv_mgr s i)" using assms(2,3) by (auto simp: sv_inv_def)
  then have none: "m_l (sv_mgr s i) = None" "m_closes (sv_mgr s i) = 0" using fresh_mgr_sel(4,5) by metis+
  let ?c = "after_Close s"
  have same: "sv_mgr ?c i = sv_mgr s i" using none assms(2) by (simp add: after_Close_def mgr_Close_eq)
  obtain m where m: "mgr_listen (Listen i) (sv_mgr ?c i) = (None, m)" using assms(4) same by (metis prod.collapse)
  have "m_l m \<noteq> None \<and> m_closes m = 0"
    using m none unfolding same by (auto simp: mgr_listen_def stream_listen_def packet_listen_def
        split: if_splits sum.splits lraw.splits)
  moreover have "sv_step Listen ?c (?c\<lparr>sv_srv := set_mgr i m (sv_srv ?c), sv_phase := (sv_phase ?c)[i := MServing]\<rparr>)"
    using assms(2,3) m by (intro sv_run sv_listen) (simp_all add: after_Close_def)
  moreover have "length (sv_phase s) = sv_n s" using inv by (simp add: sv_inv_def)
  ultimately show ?thesis using assms(2)
    by (intro exI [of _ "?c\<lparr>sv_srv := set_mgr i m (sv_srv ?c), sv_phase := (sv_phase ?c)[i := MServing]\<rparr>"])
      (simp add: after_Close_def)
qed

theorem close_before_listen_lost_witness:
  "\<exists>t. sv_step (\<lambda>_ _ _ _. Inr LListener) (after_Close (Server_Start srv_example)) t \<and>
       sv_closers t = [1] \<and> m_closes (sv_mgr t 0) = 0 \<and> sv_phase t ! 0 = MServing"
  using close_before_listen_lost [OF srv_example_start, of 0 "\<lambda>_ _ _ _. Inr LListener"]
  by (auto simp: Server_Start_def srv_example_def mgr_listen_def stream_listen_def newStreamConnectionManager_def)

lemma Handle_general:
  "extensionManagers (Handle k f names s) (kind, '''') =
     (if k = kind \<and> names = [] then Some (length (ext_mgrs s)) else extensionManagers s (kind, ''''))"
  by (auto simp: Handle_def Let_def register_names_apply not_in_takeWhile_self)

text \<open>The entry of a kind is unchanged or the one that was found just after some call.\<close>

lemma general_entry:
  "extensionManagers (handle_all calls s) (kind, '''') = extensionManagers s (kind, '''') \<or>
   (\<exists>xs ys. calls = xs @ ys \<and>
      find_manager kind name (handle_all xs s) = extensionManagers (handle_all calls s) (kind, ''''))"
proof (induction calls rule: rev_induct)
  case (snoc c calls)
  obtain k names f where c: "c = (k, names, f)" by (cases c)
  show ?case
  proof (cases "k = kind \<and> names = []")
    case True
    then have "find_manager kind name (handle_all (calls @ [c]) s) =
        extensionManagers (handle_all (calls @ [c]) s) (kind, '''')"
      by (simp add: c handle_all_append find_manager_Handle Handle_general covers_def)
    then show ?thesis by (intro disjI2 exI [of _ "calls @ [c]"] exI [of _ "[]"]) simp
  next
    case False
    then have "extensionManagers (handle_all (calls @ [c]) s) (kind, '''') =
        extensionManagers (handle_all calls s) (kind, '''')"
      by (auto simp: c handle_all_append Handle_general)
    with snoc.IH show ?thesis by (metis append.assoc)
  qed
qed simp

text \<open>
  C22. Dispatch is atomic although it reads the table of extension managers twice: whatever
  \<open>Handle\<close> calls run between the two lookups, a new connection is treated exactly as
  if the whole of \<open>handleNewConn\<close> had run at one moment, after some of those calls.
\<close>

theorem dispatch_linearizable:
  "\<exists>xs ys. calls = xs @ ys \<and>
     handleNewConn_conc ks HandleStream s (handle_all calls s) addr kind name codec conn =
     handleNewConn ks HandleStream (handle_all xs s) addr kind name codec conn"
proof -
  have "\<exists>xs ys. calls = xs @ ys \<and> lookup_manager kind name s (handle_all calls s) = find_manager kind name (handle_all xs s)"
  proof (cases "extensionManagers s (kind, name)")
    case None
    then have look: "lookup_manager kind name s (handle_all calls s) = extensionManagers (handle_all calls s) (kind, '''')"
      by (simp add: lookup_manager_def)
    have "find_manager kind name s = extensionManagers s (kind, '''')" using None by (simp add: find_manager_def)
    then show ?thesis using general_entry [of calls s kind name] look
      by (metis append_Nil handle_all.simps(1))
  next
    case (Some mgr)
    then have "lookup_manager kind name s (handle_all calls s) = find_manager kind name (handle_all [] s)"
      by (simp add: lookup_manager_def find_manager_def)
    then show ?thesis by (metis append_Nil)
  qed
  then obtain xs ys where xs: "calls = xs @ ys"
    and look: "lookup_manager kind name s (handle_all calls s) = find_manager kind name (handle_all xs s)" by blast
  have "handleNewConn_conc ks HandleStream s (handle_all calls s) addr kind name codec conn =
      handleNewConn ks HandleStream (handle_all xs s) addr kind name codec conn"
    by (simp only: handleNewConn_conc_def handleNewConn_def look handle_all_conns)
  with xs show ?thesis by blast
qed

end
