(* ===== verification/Extension.thy ===== *)
theory Extension
  imports Msg_Wait Codec
begin

text \<open>
  \<open>src/server/extension.go\<close>: the extension manager. \<open>HandleStream\<close> registers the
  extension's name and runs four goroutines (writer, timer, handler, reader) that share
  the table \<open>msgWait\<close> of commands waiting for a response with the callers of
  \<open>sendCmd\<close>. They are a transition system, one step per operation on shared state.
  The operations of a \<open>msgWaitValue\<close> are single steps here, except that the reader
  keeps the slot's lock while it waits in the select of \<open>send\<close>: \<open>Msg_Wait\<close> shows
  that the lock makes them exclusive. The timeout queue of \<open>arhat.dev/pkg/queue\<close> is
  represented by what it may do: deliver any key that was offered, at any time.
\<close>

section \<open>Registered names\<close>

record ExtensionManager =
  registeredExtensions :: "string set"

definition NewExtensionManager :: ExtensionManager where
  "NewExtensionManager = \<lparr>registeredExtensions = {}\<rparr>"

text \<open>The registration at the start of \<open>HandleStream\<close>, and the deferred removal.\<close>

definition ext_quote :: "string \<Rightarrow> string" where
  "ext_quote name = CHR 0x22 # name @ [CHR 0x22]"

definition ext_register :: "string \<Rightarrow> ExtensionManager \<Rightarrow> error + ExtensionManager" where
  "ext_register name m =
     (if name \<in> registeredExtensions m then
        Inl (Wrap ''failed to register extension''
               (Errorf (''extension '' @ ext_quote name @ '' already registered'')))
      else Inr (m\<lparr>registeredExtensions := insert name (registeredExtensions m)\<rparr>))"

definition ext_unregister :: "string \<Rightarrow> ExtensionManager \<Rightarrow> ExtensionManager" where
  "ext_unregister name m = m\<lparr>registeredExtensions := registeredExtensions m - {name}\<rparr>"

text \<open>What \<open>HandleStream\<close> makes of the group's first error.\<close>

definition stream_result :: "error option \<Rightarrow> error option" where
  "stream_result err = (if err \<noteq> None \<and> err \<noteq> Some EOF then err else None)"

section \<open>The goroutines of a stream\<close>

type_synonym msgWaitKey = "u64 \<times> u64"

definition cmd_key :: "Cmd \<Rightarrow> msgWaitKey" where
  "cmd_key cmd = (cmd_Id cmd, cmd_Seq cmd)"

definition msg_key :: "Msg \<Rightarrow> msgWaitKey" where
  "msg_key msg = (msg_Id msg, msg_Ack msg)"

text \<open>
  A call of \<open>sendCmd\<close>: before \<open>OfferWithDelay\<close>; at the select on \<open>cmdWriteCh\<close>
  (with the slot when it waits for a response); at the select on the slot; in the deferred
  function before \<open>waitV.close\<close> and before \<open>msgWait.Delete\<close>; returned.
\<close>

datatype call_pc =
    CIdle
  | COffer Cmd nat
  | CSend Cmd "nat option"
  | CWait Cmd nat
  | CDefer Cmd nat "error + Msg option"
  | CDelete Cmd nat "error + Msg option"
  | CRet Cmd "error + Msg option"

text \<open>
  The reader is in \<open>Decode\<close>, has a message, is about to take the lock of a slot in
  \<open>send\<close>, is at the select of \<open>send\<close> with the lock held, or is gone.
\<close>

datatype rd_pc = RDecode | RGot Msg | RSend nat Msg | RSelect nat Msg | RExit

text \<open>
  The timer goroutine is at its select, has a fired key with the slot it loaded, is before
  deleting it, at the select on \<open>keepaliveCh\<close>, in the range over the table (with the keys
  still to visit), before its deletions, in the deferred function, or gone.
\<close>

datatype tm_pc =
    TLoop
  | TFire msgWaitKey "nat option"
  | TDel msgWaitKey
  | TKeep
  | TRange "msgWaitKey set"
  | TRangeDel msgWaitKey "msgWaitKey set"
  | TClosing
  | TExit

text \<open>
  A slot is listed with the key it was created for. \<open>ext_in\<close> are the messages that
  arrived and are not decoded yet, \<open>stream_end\<close> is the error \<open>Decode\<close> meets after
  them, \<open>ext_out\<close> what the writer encoded, \<open>oob\<close> what went to the out-of-band handler.
\<close>

record ext_stream =
  msgWait :: "msgWaitKey \<rightharpoonup> nat"
  slots :: "(msgWaitKey \<times> msgWaitValue) list"
  offered :: "msgWaitKey set"
  cmdWriteCh :: "Cmd chan"
  keepaliveCh :: "unit chan"
  calls :: "nat \<Rightarrow> call_pc"
  rd :: rd_pc
  tm :: tm_pc
  wr_exit :: bool
  h_exit :: bool
  ectx_closed :: bool
  wg_err :: "error option"
  parent_done :: bool
  ext_in :: "Msg list"
  stream_end :: "error option"
  ext_out :: "Cmd list"
  oob :: "Msg list"

definition ext_start :: ext_stream where
  "ext_start =
     \<lparr>msgWait = Map.empty, slots = [], offered = {}, cmdWriteCh = make_chan 1, keepaliveCh = make_chan 1,
      calls = (\<lambda>_. CIdle), rd = RDecode, tm = TLoop, wr_exit = False, h_exit = False,
      ectx_closed = False, wg_err = None,
      parent_done = False, ext_in = [], stream_end = None, ext_out = [], oob = []\<rparr>"

text \<open>\<open>ctx\<close> of the group is done once a goroutine returned or the parent is done.\<close>

definition ext_done :: "ext_stream \<Rightarrow> bool" where
  "ext_done s \<longleftrightarrow> wg_err s \<noteq> None \<or> parent_done s"

definition wg_return :: "error \<Rightarrow> ext_stream \<Rightarrow> ext_stream" where
  "wg_return e s = s\<lparr>wg_err := (case wg_err s of None \<Rightarrow> Some e | Some x \<Rightarrow> Some x)\<rparr>"

text \<open>
  The \<open>Context\<close> of the \<open>ExtensionContext\<close> given to the handler is a child of it, which
  \<open>Close\<close> of the \<open>ExtensionContext\<close> cancels (\<open>ectx_closed\<close>).
\<close>

definition ectx_Close :: "ext_stream \<Rightarrow> ext_stream" where
  [simp]: "ectx_Close s = s\<lparr>ectx_closed := True\<rparr>"

definition ectx_done :: "ext_stream \<Rightarrow> bool" where
  "ectx_done s \<longleftrightarrow> ext_done s \<or> ectx_closed s"

text \<open>\<open>wg.Wait\<close> returns when all four goroutines have.\<close>

definition ext_returned :: "ext_stream \<Rightarrow> bool" where
  "ext_returned s \<longleftrightarrow> wr_exit s \<and> h_exit s \<and> rd s = RExit \<and> tm s = TExit"

definition slot_close :: "msgWaitValue \<Rightarrow> msgWaitValue" where
  "slot_close v =
     (if mw_closed v = 0 then v\<lparr>mw_closed := 1, mw_msgCh := (mw_msgCh v)\<lparr>ch_closed := True\<rparr>\<rparr> else v)"

definition upd_slot :: "nat \<Rightarrow> (msgWaitValue \<Rightarrow> msgWaitValue) \<Rightarrow> ext_stream \<Rightarrow> ext_stream" where
  "upd_slot i f s = s\<lparr>slots := (slots s)[i := (fst (slots s ! i), f (snd (slots s ! i)))]\<rparr>"

definition close_slot :: "nat option \<Rightarrow> ext_stream \<Rightarrow> ext_stream" where
  "close_slot v s = (case v of None \<Rightarrow> s | Some i \<Rightarrow> upd_slot i slot_close s)"

abbreviation slot_ch :: "ext_stream \<Rightarrow> nat \<Rightarrow> Msg chan" where
  "slot_ch s i \<equiv> mw_msgCh (snd (slots s ! i))"

definition slot_locked :: "ext_stream \<Rightarrow> nat \<Rightarrow> bool" where
  "slot_locked s i \<longleftrightarrow> (\<exists>msg. rd s = RSelect i msg)"

abbreviation set_call :: "nat \<Rightarrow> call_pc \<Rightarrow> ext_stream \<Rightarrow> ext_stream" where
  "set_call t pc s \<equiv> s\<lparr>calls := (calls s)(t := pc)\<rparr>"

text \<open>Steps of a caller of \<open>sendCmd\<close>; \<open>err\<close> in a cancelled select is \<open>ctx.Err()\<close>.\<close>

inductive call_step :: "ext_stream \<Rightarrow> ext_stream \<Rightarrow> bool" where
  c_nowait: "calls s t = CIdle \<Longrightarrow> call_step s (set_call t (CSend cmd None) s)"
| c_dup: "calls s t = CIdle \<Longrightarrow> msgWait s (cmd_key cmd) = Some i \<Longrightarrow>
     call_step s (set_call t (CRet cmd (Inl (Errorf ''cmd sent before, no response yet'')))
       (s\<lparr>slots := slots s @ [(cmd_key cmd, slot_close newMsgWaitValue)]\<rparr>))"
| c_store: "calls s t = CIdle \<Longrightarrow> msgWait s (cmd_key cmd) = None \<Longrightarrow>
     call_step s (set_call t (COffer cmd (length (slots s)))
       (s\<lparr>slots := slots s @ [(cmd_key cmd, newMsgWaitValue)],
          msgWait := (msgWait s)(cmd_key cmd \<mapsto> length (slots s))\<rparr>))"
| c_offer: "calls s t = COffer cmd i \<Longrightarrow>
     call_step s (set_call t (CSend cmd (Some i)) (s\<lparr>offered := insert (cmd_key cmd) (offered s)\<rparr>))"
| c_send_done: "calls s t = CSend cmd w \<Longrightarrow> ext_done s \<Longrightarrow>
     call_step s (set_call t (case w of None \<Rightarrow> CRet cmd (Inl err) | Some i \<Rightarrow> CDefer cmd i (Inl err)) s)"
| c_send: "calls s t = CSend cmd w \<Longrightarrow> send_ready (cmdWriteCh s) \<Longrightarrow>
     chan_send cmd (cmdWriteCh s) = Ret ch \<Longrightarrow>
     call_step s (set_call t (case w of None \<Rightarrow> CRet cmd (Inr None) | Some i \<Rightarrow> CWait cmd i)
       (s\<lparr>cmdWriteCh := ch\<rparr>))"
| c_wait_done: "calls s t = CWait cmd i \<Longrightarrow> ext_done s \<Longrightarrow>
     call_step s (set_call t (CDefer cmd i (Inl err)) s)"
| c_wait_msg: "calls s t = CWait cmd i \<Longrightarrow> chan_recv (slot_ch s i) = (Some msg, ch) \<Longrightarrow>
     call_step s (set_call t (CDefer cmd i (Inr (Some msg))) (upd_slot i (\<lambda>v. v\<lparr>mw_msgCh := ch\<rparr>) s))"
| c_wait_timeout: "calls s t = CWait cmd i \<Longrightarrow> recv_ready (slot_ch s i) \<Longrightarrow>
     chan_recv (slot_ch s i) = (None, ch) \<Longrightarrow>
     call_step s (set_call t (CDefer cmd i (Inl (Errorf ''timeout''))) s)"
| c_close: "calls s t = CDefer cmd i r \<Longrightarrow> \<not> slot_locked s i \<Longrightarrow>
     call_step s (set_call t (CDelete cmd i r) (close_slot (Some i) s))"
| c_delete: "calls s t = CDelete cmd i r \<Longrightarrow>
     call_step s (set_call t (CRet cmd r) (s\<lparr>msgWait := (msgWait s)(cmd_key cmd := None)\<rparr>))"

text \<open>Steps of the reader: \<open>Decode\<close>, the select on \<open>ctx\<close>, and \<open>onMsgRecv\<close>.\<close>

inductive reader_step :: "ext_stream \<Rightarrow> ext_stream \<Rightarrow> bool" where
  r_msg: "rd s = RDecode \<Longrightarrow> ext_in s = msg # ms \<Longrightarrow>
     reader_step s (s\<lparr>rd := RGot msg, ext_in := ms\<rparr>)"
| r_err: "rd s = RDecode \<Longrightarrow> ext_in s = [] \<Longrightarrow> stream_end s = Some err2 \<Longrightarrow>
     reader_step s ((wg_return (if err2 = EOF then EOF
        else Wrap ''failed to decode extension message'' err2) s)\<lparr>rd := RExit\<rparr>)"
| r_done: "rd s = RGot msg \<Longrightarrow> ext_done s \<Longrightarrow> reader_step s ((wg_return EOF s)\<lparr>rd := RExit\<rparr>)"
| r_oob: "rd s = RGot msg \<Longrightarrow> \<not> ext_done s \<Longrightarrow> msgWait s (msg_key msg) = None \<Longrightarrow>
     reader_step s (s\<lparr>rd := RDecode, oob := oob s @ [msg]\<rparr>)"
| r_load: "rd s = RGot msg \<Longrightarrow> \<not> ext_done s \<Longrightarrow> msgWait s (msg_key msg) = Some i \<Longrightarrow>
     reader_step s (s\<lparr>rd := RSend i msg\<rparr>)"
| r_send_closed: "rd s = RSend i msg \<Longrightarrow> mw_closed (snd (slots s ! i)) = 1 \<Longrightarrow>
     reader_step s (s\<lparr>rd := RDecode\<rparr>)"
| r_lock: "rd s = RSend i msg \<Longrightarrow> mw_closed (snd (slots s ! i)) \<noteq> 1 \<Longrightarrow>
     reader_step s (s\<lparr>rd := RSelect i msg\<rparr>)"
| r_send_cancel: "rd s = RSelect i msg \<Longrightarrow> ext_done s \<Longrightarrow> reader_step s (s\<lparr>rd := RDecode\<rparr>)"
| r_send: "rd s = RSelect i msg \<Longrightarrow> send_ready (slot_ch s i) \<Longrightarrow>
     chan_send msg (slot_ch s i) = Ret ch \<Longrightarrow>
     reader_step s ((upd_slot i (\<lambda>v. v\<lparr>mw_msgCh := ch\<rparr>) s)\<lparr>rd := RDecode\<rparr>)"

text \<open>
  Steps of the timer goroutine. \<open>msgWait.Range\<close> visits each of the keys that the table
  had when it began and that are still there when their turn comes.
\<close>

inductive timer_step :: "ext_stream \<Rightarrow> ext_stream \<Rightarrow> bool" where
  t_fire: "tm s = TLoop \<Longrightarrow> k \<in> offered s \<Longrightarrow> timer_step s (s\<lparr>tm := TFire k (msgWait s k)\<rparr>)"
| t_close: "tm s = TFire k v \<Longrightarrow> (\<And>i. v = Some i \<Longrightarrow> \<not> slot_locked s i) \<Longrightarrow>
     timer_step s ((close_slot v s)\<lparr>tm := TDel k\<rparr>)"
| t_del: "tm s = TDel k \<Longrightarrow> timer_step s (s\<lparr>tm := TLoop, msgWait := (msgWait s)(k := None)\<rparr>)"
| t_keep: "tm s = TLoop \<Longrightarrow> timer_step s (s\<lparr>tm := TKeep\<rparr>)"
| t_keep_send: "tm s = TKeep \<Longrightarrow> send_ready (keepaliveCh s) \<Longrightarrow> chan_send () (keepaliveCh s) = Ret ch \<Longrightarrow>
     timer_step s (s\<lparr>tm := TLoop, keepaliveCh := ch\<rparr>)"
| t_keep_done: "tm s = TKeep \<Longrightarrow> ext_done s \<Longrightarrow> timer_step s (s\<lparr>tm := TLoop\<rparr>)"
| t_done: "tm s = TLoop \<Longrightarrow> ext_done s \<Longrightarrow> timer_step s (s\<lparr>tm := TRange (dom (msgWait s))\<rparr>)"
| t_range: "tm s = TRange ks \<Longrightarrow> k \<in> ks \<Longrightarrow> msgWait s k = Some i \<Longrightarrow> \<not> slot_locked s i \<Longrightarrow>
     timer_step s ((close_slot (Some i) s)\<lparr>tm := TRangeDel k (ks - {k})\<rparr>)"
| t_range_del: "tm s = TRangeDel k ks \<Longrightarrow>
     timer_step s (s\<lparr>tm := TRange ks, msgWait := (msgWait s)(k := None)\<rparr>)"
| t_range_end: "tm s = TRange ks \<Longrightarrow> (\<forall>k \<in> ks. msgWait s k = None) \<Longrightarrow> chan_close (keepaliveCh s) = Ret ch \<Longrightarrow>
     timer_step s (s\<lparr>tm := TClosing, keepaliveCh := ch\<rparr>)"
| t_exit: "tm s = TClosing \<Longrightarrow> timer_step s ((wg_return EOF s)\<lparr>tm := TExit\<rparr>)"

text \<open>
  Steps of the writer (\<open>Encode\<close> succeeds or fails), and of the handler beside its
  calls of \<open>sendCmd\<close>: it closes its \<open>ExtensionContext\<close>, and returns.
\<close>

inductive writer_step :: "arhatgopb \<Rightarrow> ext_stream \<Rightarrow> ext_stream \<Rightarrow> bool" for pb where
  w_ping: "\<not> wr_exit s \<Longrightarrow> chan_recv (keepaliveCh s) = (Some u, ch) \<Longrightarrow>
     writer_step pb s (s\<lparr>keepaliveCh := ch, ext_out := ext_out s @
       [\<lparr>cmd_Kind = CMD_PING pb, cmd_Id = 0, cmd_Seq = 0, cmd_Payload = None\<rparr>]\<rparr>)"
| w_ping_err: "\<not> wr_exit s \<Longrightarrow> chan_recv (keepaliveCh s) = (Some u, ch) \<Longrightarrow>
     writer_step pb s ((wg_return ErrUnexpectedEOF s)\<lparr>keepaliveCh := ch, wr_exit := True\<rparr>)"
| w_closed: "\<not> wr_exit s \<Longrightarrow> recv_ready (keepaliveCh s) \<Longrightarrow> chan_recv (keepaliveCh s) = (None, ch) \<Longrightarrow>
     writer_step pb s ((wg_return ErrUnexpectedEOF s)\<lparr>wr_exit := True\<rparr>)"
| w_cmd: "\<not> wr_exit s \<Longrightarrow> chan_recv (cmdWriteCh s) = (Some cmd, ch) \<Longrightarrow>
     writer_step pb s (s\<lparr>cmdWriteCh := ch, ext_out := ext_out s @ [cmd]\<rparr>)"
| w_cmd_err: "\<not> wr_exit s \<Longrightarrow> chan_recv (cmdWriteCh s) = (Some cmd, ch) \<Longrightarrow>
     writer_step pb s ((wg_return (Wrap ''failed to encode extension command'' err2) s)
       \<lparr>cmdWriteCh := ch, wr_exit := True\<rparr>)"
| h_Close: "\<not> h_exit s \<Longrightarrow> writer_step pb s (ectx_Close s)"
| h_return: "\<not> h_exit s \<Longrightarrow> writer_step pb s ((wg_return EOF s)\<lparr>h_exit := True\<rparr>)"

text \<open>What the process itself does, and what its environment (peer, parent context) does.\<close>

inductive own_step :: "arhatgopb \<Rightarrow> ext_stream \<Rightarrow> ext_stream \<Rightarrow> bool" for pb where
  own_call: "call_step s s' \<Longrightarrow> own_step pb s s'"
| own_reader: "reader_step s s' \<Longrightarrow> own_step pb s s'"
| own_timer: "timer_step s s' \<Longrightarrow> own_step pb s s'"
| own_writer: "writer_step pb s s' \<Longrightarrow> own_step pb s s'"

inductive ext_step :: "arhatgopb \<Rightarrow> ext_stream \<Rightarrow> ext_stream \<Rightarrow> bool" for pb where
  ext_own: "own_step pb s s' \<Longrightarrow> ext_step pb s s'"
| peer_msg: "stream_end s = None \<Longrightarrow> ext_step pb s (s\<lparr>ext_in := ext_in s @ [msg]\<rparr>)"
| peer_end: "stream_end s = None \<Longrightarrow> ext_step pb s (s\<lparr>stream_end := Some err\<rparr>)"
| parent_cancel: "ext_step pb s (s\<lparr>parent_done := True\<rparr>)"

definition ext_init :: "ext_stream \<Rightarrow> bool" where
  "ext_init s \<longleftrightarrow> s = ext_start"

section \<open>Invariant\<close>

text \<open>
  The table maps a key to a slot made for it; a slot holds only messages with its key; a
  caller, the reader and the timer refer to slots with the right key.
\<close>

definition call_ok :: "ext_stream \<Rightarrow> call_pc \<Rightarrow> bool" where
  "call_ok s pc =
     (let mine = (\<lambda>cmd i. i < length (slots s) \<and> fst (slots s ! i) = cmd_key cmd);
          res = (\<lambda>cmd r. \<forall>msg. r = Inr (Some msg) \<longrightarrow> msg_key msg = cmd_key cmd) in
      case pc of
        CIdle \<Rightarrow> True
      | COffer cmd i \<Rightarrow> mine cmd i
      | CSend cmd w \<Rightarrow> (case w of None \<Rightarrow> True | Some i \<Rightarrow> mine cmd i)
      | CWait cmd i \<Rightarrow> mine cmd i
      | CDefer cmd i r \<Rightarrow> mine cmd i \<and> res cmd r
      | CDelete cmd i r \<Rightarrow> mine cmd i \<and> res cmd r
      | CRet cmd r \<Rightarrow> res cmd r)"

definition rd_ok :: "ext_stream \<Rightarrow> bool" where
  "rd_ok s =
     (case rd s of
        RSend i msg \<Rightarrow> i < length (slots s) \<and> fst (slots s ! i) = msg_key msg
      | RSelect i msg \<Rightarrow> i < length (slots s) \<and> fst (slots s ! i) = msg_key msg
      | _ \<Rightarrow> True)"

definition slots_ok :: "ext_stream \<Rightarrow> bool" where
  "slots_ok s \<longleftrightarrow>
     (\<forall>k i. msgWait s k = Some i \<longrightarrow> i < length (slots s) \<and> fst (slots s ! i) = k) \<and>
     (\<forall>i < length (slots s). \<forall>msg \<in> set (ch_buf (slot_ch s i)). msg_key msg = fst (slots s ! i))"

definition ext_inv :: "ext_stream \<Rightarrow> bool" where
  "ext_inv s \<longleftrightarrow> slots_ok s \<and> rd_ok s \<and> (\<forall>t. call_ok s (calls s t))"

text \<open>Growing the slot list or changing slots in place keeps what was known of them.\<close>

definition slots_ext :: "ext_stream \<Rightarrow> ext_stream \<Rightarrow> bool" where
  "slots_ext s s' \<longleftrightarrow>
     length (slots s) \<le> length (slots s') \<and> (\<forall>i < length (slots s). fst (slots s' ! i) = fst (slots s ! i))"

lemma call_ok_ext: "slots_ext s s' \<Longrightarrow> call_ok s pc \<Longrightarrow> call_ok s' pc"
  by (auto simp: slots_ext_def call_ok_def Let_def split: call_pc.splits option.splits)

lemma fst_upd_slot [simp]: "fst ((slots (upd_slot i f s)) ! j) = fst (slots s ! j)"
  by (cases "i < length (slots s)"; cases "i = j") (simp_all add: upd_slot_def list_update_beyond)

lemma upd_slot_sel [simp]:
  "length (slots (upd_slot i f s)) = length (slots s)" "msgWait (upd_slot i f s) = msgWait s"
  "rd (upd_slot i f s) = rd s" "calls (upd_slot i f s) = calls s" "offered (upd_slot i f s) = offered s"
  "tm (upd_slot i f s) = tm s" "keepaliveCh (upd_slot i f s) = keepaliveCh s"
  by (simp_all add: upd_slot_def)

lemma close_slot_sel [simp]:
  "length (slots (close_slot v s)) = length (slots s)" "msgWait (close_slot v s) = msgWait s"
  "rd (close_slot v s) = rd s" "calls (close_slot v s) = calls s" "offered (close_slot v s) = offered s"
  "fst (slots (close_slot v s) ! j) = fst (slots s ! j)"
  by (simp_all add: close_slot_def split: option.splits)

lemma wg_return_sel [simp]:
  "slots (wg_return e s) = slots s" "msgWait (wg_return e s) = msgWait s" "rd (wg_return e s) = rd s"
  "calls (wg_return e s) = calls s" "tm (wg_return e s) = tm s" "ext_in (wg_return e s) = ext_in s"
  "stream_end (wg_return e s) = stream_end s" "wg_err (wg_return e s) \<noteq> None"
  by (simp_all add: wg_return_def split: option.splits)

lemma slots_extI:
  "slots s' = slots s \<Longrightarrow> slots_ext s s'" "slots s' = slots s @ xs \<Longrightarrow> slots_ext s s'"
  "slots s' = slots (upd_slot i f s) \<Longrightarrow> slots_ext s s'" "slots s' = slots (close_slot v s) \<Longrightarrow> slots_ext s s'"
  by (auto simp: slots_ext_def nth_append)

lemma slots_ok_upd:
  assumes "slots_ok s" and "\<And>msg. msg \<in> set (ch_buf (mw_msgCh (f (snd (slots s ! i))))) \<Longrightarrow> msg_key msg = fst (slots s ! i)"
  shows "slots_ok (upd_slot i f s)"
proof -
  have "msg_key msg = fst (slots s ! j)"
    if j: "j < length (slots s)" and "msg \<in> set (ch_buf (slot_ch (upd_slot i f s) j))" for j msg
    using that assms by (cases "i = j") (auto simp: slots_ok_def upd_slot_def)
  with assms(1) show ?thesis by (auto simp: slots_ok_def)
qed

lemma slot_close_buf [simp]: "ch_buf (mw_msgCh (slot_close v)) = ch_buf (mw_msgCh v)"
  by (simp add: slot_close_def)

lemma slots_ok_close:
  assumes "slots_ok s"
  shows "slots_ok (close_slot v s)"
proof (cases v)
  case (Some i)
  show ?thesis
  proof (cases "i < length (slots s)")
    case True
    with assms Some show ?thesis
      by (simp add: close_slot_def) (rule slots_ok_upd, auto simp: slots_ok_def)
  next
    case False
    then have "close_slot v s = s" by (simp add: Some close_slot_def upd_slot_def list_update_beyond)
    with assms show ?thesis by simp
  qed
qed (simp add: assms close_slot_def)

lemma slots_ok_new:
  assumes "slots_ok s" and "ch_buf (mw_msgCh v) = []"
  shows "slots_ok (s\<lparr>slots := slots s @ [(k, v)]\<rparr>)"
    and "slots_ok (s\<lparr>slots := slots s @ [(k, v)], msgWait := (msgWait s)(k \<mapsto> length (slots s))\<rparr>)"
  using assms by (auto simp: slots_ok_def nth_append less_Suc_eq split: if_splits)

lemma slots_ok_cong: "slots_ok s \<Longrightarrow> slots s' = slots s \<Longrightarrow> msgWait s' = msgWait s \<Longrightarrow> slots_ok s'"
  by (simp add: slots_ok_def)

lemma slots_ok_delete: "slots_ok s \<Longrightarrow> slots s' = slots s \<Longrightarrow> msgWait s' = (msgWait s)(k := None) \<Longrightarrow> slots_ok s'"
  by (auto simp: slots_ok_def split: if_splits)

lemma rd_ok_ext: "rd_ok s \<Longrightarrow> slots_ext s s' \<Longrightarrow> rd s' = rd s \<Longrightarrow> rd_ok s'"
  by (auto simp: rd_ok_def slots_ext_def split: rd_pc.splits)

lemma set_call_inv:
  assumes "ext_inv s" "slots_ext s s'" "slots_ok s'" "rd s' = rd s" "calls s' = (calls s)(t := pc)" "call_ok s' pc"
  shows "ext_inv s'"
  using assms call_ok_ext [OF assms(2)] rd_ok_ext [OF _ assms(2)] by (auto simp: ext_inv_def)

lemma keep_calls_inv:
  assumes "ext_inv s" "slots_ext s s'" "slots_ok s'" "calls s' = calls s" "rd_ok s'"
  shows "ext_inv s'"
  using assms call_ok_ext [OF assms(2)] by (auto simp: ext_inv_def)

lemma call_ok_simps [simp]:
  "call_ok s CIdle"
  "call_ok s (COffer cmd i) \<longleftrightarrow> i < length (slots s) \<and> fst (slots s ! i) = cmd_key cmd"
  "call_ok s (CSend cmd None)"
  "call_ok s (CSend cmd (Some i)) \<longleftrightarrow> i < length (slots s) \<and> fst (slots s ! i) = cmd_key cmd"
  "call_ok s (CWait cmd i) \<longleftrightarrow> i < length (slots s) \<and> fst (slots s ! i) = cmd_key cmd"
  "call_ok s (CDefer cmd i r) \<longleftrightarrow> i < length (slots s) \<and> fst (slots s ! i) = cmd_key cmd \<and>
     (\<forall>msg. r = Inr (Some msg) \<longrightarrow> msg_key msg = cmd_key cmd)"
  "call_ok s (CDelete cmd i r) \<longleftrightarrow> i < length (slots s) \<and> fst (slots s ! i) = cmd_key cmd \<and>
     (\<forall>msg. r = Inr (Some msg) \<longrightarrow> msg_key msg = cmd_key cmd)"
  "call_ok s (CRet cmd r) \<longleftrightarrow> (\<forall>msg. r = Inr (Some msg) \<longrightarrow> msg_key msg = cmd_key cmd)"
  by (simp_all add: call_ok_def)

lemma ext_invD:
  "ext_inv s \<Longrightarrow> slots_ok s" "ext_inv s \<Longrightarrow> rd_ok s"
  "ext_inv s \<Longrightarrow> calls s t = pc \<Longrightarrow> call_ok s pc"
  by (auto simp: ext_inv_def)

lemma slot_recv_key:
  assumes "slots_ok s" "i < length (slots s)" "chan_recv (slot_ch s i) = (Some msg, ch)"
  shows "msg_key msg = fst (slots s ! i)" "set (ch_buf ch) \<subseteq> set (ch_buf (slot_ch s i))"
proof -
  from assms(3) obtain ms where ms: "ch_buf (slot_ch s i) = msg # ms" "ch = (slot_ch s i)\<lparr>ch_buf := ms\<rparr>"
    by (auto simp: chan_recv_def split: list.splits)
  with assms(1,2) show "msg_key msg = fst (slots s ! i)" by (simp add: slots_ok_def)
  from ms show "set (ch_buf ch) \<subseteq> set (ch_buf (slot_ch s i))" by auto
qed

text \<open>A call moves to \<open>pc\<close> in a state whose slots are those known, or more.\<close>

lemma move_call_inv:
  assumes "ext_inv s" "slots_ok s1" "slots_ext s s1" "rd s1 = rd s" "calls s1 = calls s" "call_ok s1 pc"
  shows "ext_inv (set_call t pc s1)"
proof (rule set_call_inv [OF assms(1), where t = t and pc = pc])
  have "slots_ext s1 (set_call t pc s1)" by (rule slots_extI(1)) simp
  then show "call_ok (set_call t pc s1) pc" using assms(6) by (rule call_ok_ext)
qed (use assms(2-5) in \<open>auto simp: slots_ext_def slots_ok_def\<close>)

lemma move_call_same:
  assumes "ext_inv s" "slots s1 = slots s" "msgWait s1 = msgWait s" "rd s1 = rd s" "calls s1 = calls s" "call_ok s pc"
  shows "ext_inv (set_call t pc s1)"
proof (rule move_call_inv [OF assms(1) slots_ok_cong [OF ext_invD(1) [OF assms(1)] assms(2,3)]])
  show "slots_ext s s1" by (rule slots_extI(1) [OF assms(2)])
  then show "call_ok s1 pc" using assms(6) by (rule call_ok_ext)
qed (rule assms(4,5))+

lemma call_step_inv:
  assumes "call_step s s'" and inv: "ext_inv s"
  shows "ext_inv s'"
proof -
  have ok: "slots_ok s" by (rule ext_invD(1) [OF inv])
  have c: "\<And>t pc. calls s t = pc \<Longrightarrow> call_ok s pc" by (rule ext_invD(3) [OF inv])
  have fresh: "ch_buf (mw_msgCh newMsgWaitValue) = []" by (simp add: newMsgWaitValue_def make_chan_def)
  note move = move_call_inv [OF inv] and same = move_call_same [OF inv]
  show ?thesis using assms(1)
  proof cases
    case (c_dup t cmd i)
    show ?thesis unfolding c_dup(1) by (rule move [OF slots_ok_new(1) [OF ok]]) (auto intro: slots_extI simp: fresh)
  next
    case (c_store t cmd)
    show ?thesis unfolding c_store(1)
      by (rule move [OF slots_ok_new(2) [OF ok]]) (auto intro: slots_extI simp: fresh nth_append)
  next
    case (c_wait_msg t cmd i msg ch)
    have i: "i < length (slots s)" "fst (slots s ! i) = cmd_key cmd" using c [OF c_wait_msg(2)] by auto
    note k = slot_recv_key [OF ok i(1) c_wait_msg(3)]
    have "slots_ok (upd_slot i (\<lambda>v. v\<lparr>mw_msgCh := ch\<rparr>) s)"
      using k(2) ok i(1) by (intro slots_ok_upd) (auto simp: slots_ok_def)
    then show ?thesis unfolding c_wait_msg(1) by (rule move) (auto intro: slots_extI simp: i k)
  next
    case (c_nowait t cmd)
    show ?thesis unfolding c_nowait(1) by (rule same) (use c [OF c_nowait(2)] in \<open>auto split: option.splits\<close>)
  next
    case (c_offer t cmd i)
    show ?thesis unfolding c_offer(1) by (rule same) (use c [OF c_offer(2)] in \<open>auto split: option.splits\<close>)
  next
    case (c_send_done t cmd w err)
    show ?thesis unfolding c_send_done(1) by (rule same) (use c [OF c_send_done(2)] in \<open>auto split: option.splits\<close>)
  next
    case (c_send t cmd w ch)
    show ?thesis unfolding c_send(1) by (rule same) (use c [OF c_send(2)] in \<open>auto split: option.splits\<close>)
  next
    case (c_wait_done t cmd i err)
    show ?thesis unfolding c_wait_done(1) by (rule same) (use c [OF c_wait_done(2)] in \<open>auto split: option.splits\<close>)
  next
    case (c_wait_timeout t cmd i ch)
    show ?thesis unfolding c_wait_timeout(1) by (rule same) (use c [OF c_wait_timeout(2)] in \<open>auto split: option.splits\<close>)
  next
    case (c_close t cmd i r)
    show ?thesis unfolding c_close(1)
      by (rule move [OF slots_ok_close [OF ok]]) (use c [OF c_close(2)] in \<open>auto intro: slots_extI\<close>)
  next
    case (c_delete t cmd i r)
    show ?thesis unfolding c_delete(1)
      by (rule move [OF slots_ok_delete [OF ok]]) (use c [OF c_delete(2)] in \<open>auto intro: slots_extI\<close>)
  qed
qed

lemma reader_step_inv:
  assumes "reader_step s s'" "ext_inv s"
  shows "ext_inv s'"
proof -
  have ok: "slots_ok s" and rok: "rd_ok s" using ext_invD [OF assms(2)] by blast+
  note keep = slots_extI(1) slots_ok_cong [OF ok]
  from assms(1) have "slots_ext s s' \<and> slots_ok s' \<and> calls s' = calls s \<and> rd_ok s'"
  proof cases
    case (r_load msg i)
    with ok have "i < length (slots s) \<and> fst (slots s ! i) = msg_key msg" unfolding slots_ok_def by blast
    with r_load show ?thesis by (auto intro: keep simp: rd_ok_def)
  next
    case (r_lock i msg)
    with rok show ?thesis by (auto intro: keep simp: rd_ok_def)
  next
    case (r_send i msg ch)
    with rok have i: "i < length (slots s)" "fst (slots s ! i) = msg_key msg" by (auto simp: rd_ok_def)
    have "ch_buf ch = ch_buf (slot_ch s i) @ [msg]" using r_send by (auto simp: chan_send_def split: if_splits)
    then have "slots_ok (upd_slot i (\<lambda>v. v\<lparr>mw_msgCh := ch\<rparr>) s)"
      using ok i by (intro slots_ok_upd) (auto simp: slots_ok_def)
    then have "slots_ok s'" by (rule slots_ok_cong) (simp_all add: r_send)
    with r_send show ?thesis by (auto intro: slots_extI(3) simp: rd_ok_def)
  qed (auto intro: keep simp: rd_ok_def)
  then show ?thesis using keep_calls_inv [OF assms(2)] by blast
qed

lemma keep_rd_inv:
  assumes "ext_inv s" "slots_ext s s'" "slots_ok s'" "calls s' = calls s" "rd s' = rd s"
  shows "ext_inv s'"
  using keep_calls_inv [OF assms(1-4)] rd_ok_ext [OF ext_invD(2) [OF assms(1)] assms(2,5)] by blast

lemma timer_step_inv:
  assumes "timer_step s s'" "ext_inv s"
  shows "ext_inv s'"
proof -
  have ok: "slots_ok s" by (rule ext_invD(1) [OF assms(2)])
  from assms(1) have "slots_ext s s' \<and> slots_ok s' \<and> calls s' = calls s \<and> rd s' = rd s"
    by cases (auto intro: slots_extI slots_ok_cong [OF ok] slots_ok_cong [OF slots_ok_close [OF ok]]
        slots_ok_delete [OF ok])
  then show ?thesis using keep_rd_inv [OF assms(2)] by blast
qed

lemma writer_step_inv:
  assumes "writer_step pb s s'" "ext_inv s"
  shows "ext_inv s'"
proof -
  have ok: "slots_ok s" by (rule ext_invD(1) [OF assms(2)])
  from assms(1) have "slots_ext s s' \<and> slots_ok s' \<and> calls s' = calls s \<and> rd s' = rd s"
    by cases (auto intro: slots_extI slots_ok_cong [OF ok])
  then show ?thesis using keep_rd_inv [OF assms(2)] by blast
qed

lemma ext_step_inv:
  assumes "ext_step pb s s'" "ext_inv s"
  shows "ext_inv s'"
  using assms(1)
proof cases
  case ext_own
  then show ?thesis using assms(2)
    by cases (blast intro: call_step_inv reader_step_inv timer_step_inv writer_step_inv)+
next
  case (peer_msg msg)
  have "slots_ok s'" by (rule slots_ok_cong [OF ext_invD(1) [OF assms(2)]]) (simp_all add: peer_msg)
  with peer_msg show ?thesis by (intro keep_rd_inv [OF assms(2)]) (auto intro: slots_extI)
next
  case (peer_end err)
  have "slots_ok s'" by (rule slots_ok_cong [OF ext_invD(1) [OF assms(2)]]) (simp_all add: peer_end)
  with peer_end show ?thesis by (intro keep_rd_inv [OF assms(2)]) (auto intro: slots_extI)
next
  case parent_cancel
  have "slots_ok s'" by (rule slots_ok_cong [OF ext_invD(1) [OF assms(2)]]) (simp_all add: parent_cancel)
  with parent_cancel show ?thesis by (intro keep_rd_inv [OF assms(2)]) (auto intro: slots_extI)
qed

interpretation exts: invariant_system ext_init "ext_step pb" ext_inv for pb
proof
  fix s s' :: ext_stream
  show "ext_init s \<Longrightarrow> ext_inv s"
    by (simp add: ext_init_def ext_start_def ext_inv_def slots_ok_def rd_ok_def)
  show "ext_step pb s s' \<Longrightarrow> ext_inv s \<Longrightarrow> ext_inv s'" by (rule ext_step_inv)
qed

section \<open>The manager's names as a registry\<close>

definition ext_add :: "string \<Rightarrow> ExtensionManager \<Rightarrow> ExtensionManager option" where
  "ext_add name m = (case ext_register name m of Inl _ \<Rightarrow> None | Inr m' \<Rightarrow> Some m')"

interpretation extr: keyed_registry "\<lambda>m name. name \<in> registeredExtensions m" ext_add ext_unregister
  by unfold_locales (auto simp: ext_add_def ext_register_def ext_unregister_def fun_eq_iff)

section \<open>Example runs\<close>

lemma reach_call: "reach ext_init (ext_step pb) s \<Longrightarrow> call_step s s' \<Longrightarrow> reach ext_init (ext_step pb) s'"
  by (blast intro: reach_step ext_own own_call)

lemma reach_reader: "reach ext_init (ext_step pb) s \<Longrightarrow> reader_step s s' \<Longrightarrow> reach ext_init (ext_step pb) s'"
  by (blast intro: reach_step ext_own own_reader)

lemma reach_timer: "reach ext_init (ext_step pb) s \<Longrightarrow> timer_step s s' \<Longrightarrow> reach ext_init (ext_step pb) s'"
  by (blast intro: reach_step ext_own own_timer)

lemma reach_writer: "reach ext_init (ext_step pb) s \<Longrightarrow> writer_step pb s s' \<Longrightarrow> reach ext_init (ext_step pb) s'"
  by (blast intro: reach_step ext_own own_writer)

lemma reach_start: "reach ext_init (ext_step pb) ext_start"
  by (rule reach_init) (simp add: ext_init_def)

text \<open>A state with two callers and nothing ended.\<close>

definition ext_at ::
  "(msgWaitKey \<rightharpoonup> nat) \<Rightarrow> (msgWaitKey \<times> msgWaitValue) list \<Rightarrow> msgWaitKey set \<Rightarrow> Cmd list \<Rightarrow> call_pc \<Rightarrow> call_pc
     \<Rightarrow> rd_pc \<Rightarrow> tm_pc \<Rightarrow> Msg list \<Rightarrow> Cmd list \<Rightarrow> ext_stream" where
  "ext_at mwt sl off q a b r t inp out =
     ext_start\<lparr>msgWait := mwt, slots := sl, offered := off, cmdWriteCh := \<lparr>ch_cap = 1, ch_buf = q, ch_closed = False\<rparr>,
       calls := (\<lambda>_. CIdle)(0 := a, 1 := b), rd := r, tm := t, ext_in := inp, ext_out := out\<rparr>"

lemma ext_at_start: "ext_at Map.empty [] {} [] CIdle CIdle RDecode TLoop [] [] = ext_start"
  by (simp add: ext_at_def ext_start_def make_chan_def fun_eq_iff)

lemma ext_at_sel [simp]:
  "msgWait (ext_at mwt sl off q a b r t inp out) = mwt" "slots (ext_at mwt sl off q a b r t inp out) = sl"
  "offered (ext_at mwt sl off q a b r t inp out) = off" "calls (ext_at mwt sl off q a b r t inp out) 0 = a"
  "cmdWriteCh (ext_at mwt sl off q a b r t inp out) = \<lparr>ch_cap = Suc 0, ch_buf = q, ch_closed = False\<rparr>"
  "calls (ext_at mwt sl off q a b r t inp out) (Suc 0) = b" "rd (ext_at mwt sl off q a b r t inp out) = r"
  "tm (ext_at mwt sl off q a b r t inp out) = t" "ext_in (ext_at mwt sl off q a b r t inp out) = inp"
  "ext_out (ext_at mwt sl off q a b r t inp out) = out" "\<not> wr_exit (ext_at mwt sl off q a b r t inp out)"
  "\<not> ext_done (ext_at mwt sl off q a b r t inp out)" "stream_end (ext_at mwt sl off q a b r t inp out) = None"
  by (simp_all add: ext_at_def ext_start_def ext_done_def)

lemma ext_at_oob [simp]: "oob (ext_at mwt sl off q a b r t inp out) = []"
  by (simp add: ext_at_def ext_start_def)

lemma ext_at_upd [simp]:
  "(ext_at mwt sl off q a b r t inp out)\<lparr>msgWait := mwt'\<rparr> = ext_at mwt' sl off q a b r t inp out"
  "(ext_at mwt sl off q a b r t inp out)\<lparr>slots := sl'\<rparr> = ext_at mwt sl' off q a b r t inp out"
  "(ext_at mwt sl off q a b r t inp out)\<lparr>offered := off'\<rparr> = ext_at mwt sl off' q a b r t inp out"
  "(ext_at mwt sl off q a b r t inp out)\<lparr>cmdWriteCh := \<lparr>ch_cap = Suc 0, ch_buf = q', ch_closed = False\<rparr>\<rparr>
     = ext_at mwt sl off q' a b r t inp out"
  "(ext_at mwt sl off q a b r t inp out)\<lparr>rd := r'\<rparr> = ext_at mwt sl off q a b r' t inp out"
  "(ext_at mwt sl off q a b r t inp out)\<lparr>tm := t'\<rparr> = ext_at mwt sl off q a b r t' inp out"
  "(ext_at mwt sl off q a b r t inp out)\<lparr>ext_in := inp'\<rparr> = ext_at mwt sl off q a b r t inp' out"
  "(ext_at mwt sl off q a b r t inp out)\<lparr>ext_out := out'\<rparr> = ext_at mwt sl off q a b r t inp out'"
  "(ext_at mwt sl off q a b r t inp out)\<lparr>calls := (calls (ext_at mwt' sl' off' q' a' b' r' t' inp' out'))(0 := x)\<rparr>
     = ext_at mwt sl off q x b' r t inp out"
  "(ext_at mwt sl off q a b r t inp out)\<lparr>calls := (calls (ext_at mwt' sl' off' q' a' b' r' t' inp' out'))(Suc 0 := x)\<rparr>
     = ext_at mwt sl off q a' x r t inp out"
  by (simp_all add: ext_at_def ext_start_def fun_upd_twist)

definition wait_cmd :: Cmd where
  "wait_cmd = \<lparr>cmd_Kind = 7, cmd_Id = 3, cmd_Seq = 4, cmd_Payload = None\<rparr>"

definition slot_open :: "Msg list \<Rightarrow> msgWaitValue" where
  "slot_open buf = \<lparr>mw_msgCh = \<lparr>ch_cap = Suc 0, ch_buf = buf, ch_closed = False\<rparr>, mw_closed = 0, mw_working = 0\<rparr>"

definition slot_shut :: msgWaitValue where
  "slot_shut = \<lparr>mw_msgCh = \<lparr>ch_cap = Suc 0, ch_buf = [], ch_closed = True\<rparr>, mw_closed = 1, mw_working = 0\<rparr>"

lemma slot_simps [simp]:
  "newMsgWaitValue = slot_open []" "slot_close (slot_open []) = slot_shut" "slot_close slot_shut = slot_shut"
  "mw_msgCh (slot_open buf) = \<lparr>ch_cap = Suc 0, ch_buf = buf, ch_closed = False\<rparr>" "mw_closed (slot_open buf) = 0"
  "mw_msgCh slot_shut = \<lparr>ch_cap = Suc 0, ch_buf = [], ch_closed = True\<rparr>"
  "(slot_open buf)\<lparr>mw_msgCh := \<lparr>ch_cap = Suc 0, ch_buf = buf', ch_closed = False\<rparr>\<rparr> = slot_open buf'"
  by (simp_all add: newMsgWaitValue_def make_chan_def slot_open_def slot_shut_def slot_close_def)

lemmas ext_run_simps = slot_locked_def send_ready_def chan_send_def chan_recv_def recv_ready_def close_slot_def upd_slot_def

text \<open>A caller stores its slot, arms the timer and queues its command.\<close>

abbreviation one_slot :: "Cmd \<Rightarrow> msgWaitValue \<Rightarrow> Cmd list \<Rightarrow> call_pc \<Rightarrow> rd_pc \<Rightarrow> Msg list \<Rightarrow> Cmd list \<Rightarrow> ext_stream" where
  "one_slot cmd v q a r inp out \<equiv>
     ext_at [cmd_key cmd \<mapsto> 0] [(cmd_key cmd, v)] {cmd_key cmd} q a CIdle r TLoop inp out"

lemma call_waiting: "call_step\<^sup>*\<^sup>* ext_start (one_slot cmd (slot_open []) [cmd] (CWait cmd 0) RDecode [] [])"
proof -
  let ?k = "cmd_key cmd"
  let ?s0 = "ext_at Map.empty [] {} [] CIdle CIdle RDecode TLoop [] []"
  let ?s1 = "ext_at [?k \<mapsto> 0] [(?k, slot_open [])] {} [] (COffer cmd 0) CIdle RDecode TLoop [] []"
  let ?s2 = "one_slot cmd (slot_open []) [] (CSend cmd (Some 0)) RDecode [] []"
  have "call_step ?s0 ?s1" using c_store [of ?s0 0 cmd] by (simp add: ext_run_simps)
  moreover have "call_step ?s1 ?s2" using c_offer [of ?s1 0 cmd 0] by (simp add: ext_run_simps)
  moreover have "call_step ?s2 (one_slot cmd (slot_open []) [cmd] (CWait cmd 0) RDecode [] [])"
    using c_send [of ?s2 0 cmd "Some 0"] by (simp add: ext_run_simps)
  ultimately show ?thesis unfolding ext_at_start by (meson converse_rtranclp_into_rtranclp rtranclp.rtrancl_refl)
qed

text \<open>The reader gets a message for a slot and reaches its select, and delivers it when the slot is empty.\<close>

lemma reader_select:
  assumes "msg_key msg = cmd_key cmd"
  shows "reader_step\<^sup>*\<^sup>* (one_slot cmd (slot_open buf) q a RDecode [msg] out) (one_slot cmd (slot_open buf) q a (RSelect 0 msg) [] out)"
proof -
  let ?at = "\<lambda>r inp. one_slot cmd (slot_open buf) q a r inp out"
  have "reader_step (?at RDecode [msg]) (?at (RGot msg) [])" using r_msg [of "?at RDecode [msg]" msg "[]"] by simp
  moreover have "reader_step (?at (RGot msg) []) (?at (RSend 0 msg) [])"
    using r_load [of "?at (RGot msg) []" msg 0] assms by simp
  moreover have "reader_step (?at (RSend 0 msg) []) (?at (RSelect 0 msg) [])"
    using r_lock [of "?at (RSend 0 msg) []" 0 msg] by simp
  ultimately show ?thesis by (meson converse_rtranclp_into_rtranclp rtranclp.rtrancl_refl)
qed

lemma reader_deliver:
  assumes "msg_key msg = cmd_key cmd"
  shows "reader_step\<^sup>*\<^sup>* (one_slot cmd (slot_open []) q a RDecode [msg] out) (one_slot cmd (slot_open [msg]) q a RDecode [] out)"
  by (rule rtranclp.rtrancl_into_rtrancl [OF reader_select [OF assms]])
    (use r_send [of "one_slot cmd (slot_open []) q a (RSelect 0 msg) [] out" 0 msg] in \<open>simp add: ext_run_simps\<close>)

text \<open>The caller takes the answer from its slot, and returns with it.\<close>

lemma call_taken:
  "call_step (one_slot cmd (slot_open [msg]) q (CWait cmd 0) RDecode [] out)
     (one_slot cmd (slot_open []) q (CDefer cmd 0 (Inr (Some msg))) RDecode [] out)"
  using c_wait_msg [of "one_slot cmd (slot_open [msg]) q (CWait cmd 0) RDecode [] out" 0 cmd 0 msg] by (simp add: ext_run_simps)

lemma call_answered:
  "call_step\<^sup>*\<^sup>* (one_slot cmd (slot_open []) q (CDefer cmd 0 res) RDecode [] out)
     (ext_at Map.empty [(cmd_key cmd, slot_shut)] {cmd_key cmd} q (CRet cmd res) CIdle RDecode TLoop [] out)"
proof -
  let ?s = "one_slot cmd (slot_open []) q (CDefer cmd 0 res) RDecode [] out"
  let ?t = "one_slot cmd slot_shut q (CDelete cmd 0 res) RDecode [] out"
  have "call_step ?s ?t" using c_close [of ?s 0 cmd 0] by (simp add: ext_run_simps)
  moreover have "call_step ?t (ext_at Map.empty [(cmd_key cmd, slot_shut)] {cmd_key cmd} q (CRet cmd res) CIdle RDecode TLoop [] out)"
    using c_delete [of ?t 0 cmd 0] by (simp add: ext_run_simps)
  ultimately show ?thesis by (meson converse_rtranclp_into_rtranclp rtranclp.rtrancl_refl)
qed

lemma reach_calls: "reach ext_init (ext_step pb) s \<Longrightarrow> call_step\<^sup>*\<^sup>* s s' \<Longrightarrow> reach ext_init (ext_step pb) s'"
  by (erule reach_run, assumption) (intro ext_own own_call)

lemma reach_readers: "reach ext_init (ext_step pb) s \<Longrightarrow> reader_step\<^sup>*\<^sup>* s s' \<Longrightarrow> reach ext_init (ext_step pb) s'"
  by (erule reach_run, assumption) (intro ext_own own_reader)

lemma run_waiting: "reach ext_init (ext_step pb) (one_slot cmd (slot_open []) [cmd] (CWait cmd 0) RDecode [] [])"
  by (rule reach_calls [OF reach_start call_waiting])

lemma run_arrives:
  "reach ext_init (ext_step pb) (one_slot cmd v q a RDecode [] out) \<Longrightarrow>
     reach ext_init (ext_step pb) (one_slot cmd v q a RDecode [msg] out)"
  by (erule reach_step) (use peer_msg [of "one_slot cmd v q a RDecode [] out" pb msg] in simp)

lemmas run_select = reach_readers [OF run_arrives reader_select]
lemmas run_deliver = reach_readers [OF run_arrives reader_deliver]

lemma run_taken:
  assumes "msg_key msg = cmd_key cmd"
  shows "reach ext_init (ext_step pb) (one_slot cmd (slot_open []) [cmd] (CDefer cmd 0 (Inr (Some msg))) RDecode [] [])"
  by (rule reach_call [OF run_deliver [OF run_waiting assms] call_taken])

lemma run_answered:
  assumes "msg_key msg = cmd_key cmd"
  shows "reach ext_init (ext_step pb) (ext_at Map.empty [(cmd_key cmd, slot_shut)] {cmd_key cmd} [cmd]
     (CRet cmd (Inr (Some msg))) CIdle RDecode TLoop [] [])"
  by (rule reach_calls [OF run_taken [OF assms] call_answered])

section \<open>Properties\<close>

text \<open>
  C2. A response is never mixed up: whatever the interleaving of callers, reader, timer
  and writer, including timeouts and re-used keys, a message that \<open>sendCmd\<close> returns has
  the id of the command it was called with, and acknowledges that command's sequence number.
\<close>

theorem responses_match:
  assumes "reach ext_init (ext_step pb) s" and "calls s t = CRet cmd (Inr (Some msg))"
  shows "msg_Id msg = cmd_Id cmd \<and> msg_Ack msg = cmd_Seq cmd"
  using ext_invD(3) [OF exts.inv_reach [OF assms(1)] assms(2)] by (simp add: cmd_key_def msg_key_def)

definition answer_msg :: Msg where
  "answer_msg = \<lparr>msg_Kind = 3, msg_Id = 3, msg_Ack = 4, msg_Payload = None\<rparr>"

theorem responses_match_witness:
  "\<exists>s. reach ext_init (ext_step pb_example) s \<and> calls s 0 = CRet wait_cmd (Inr (Some answer_msg)) \<and>
       msg_Id answer_msg = cmd_Id wait_cmd"
proof -
  have "msg_key answer_msg = cmd_key wait_cmd"
    by (simp add: msg_key_def cmd_key_def answer_msg_def wait_cmd_def)
  from run_answered [OF this, of pb_example] obtain s where s: "reach ext_init (ext_step pb_example) s"
    "calls s 0 = CRet wait_cmd (Inr (Some answer_msg))" using ext_at_sel(4) by blast
  from responses_match [OF s] s show ?thesis by blast
qed

text \<open>
  C33. A timed-out call can orphan its successor: the deferred function of a call that
  timed out deletes the table entry by key, after the timer already freed the key, so a
  reachable state has a call waiting on an open, empty slot for a command that was queued,
  with the context alive, while the table no longer has its key: its response will be taken
  for an out-of-band message and its timer cannot close its slot.
\<close>

theorem timeout_orphans_next_call:
  "\<exists>s. reach ext_init (ext_step pb) s \<and> calls s 0 = CRet wait_cmd (Inl (Errorf ''timeout'')) \<and>
       calls s 1 = CWait wait_cmd 1 \<and> snd (slots s ! 1) = newMsgWaitValue \<and>
       wait_cmd \<in> set (ch_buf (cmdWriteCh s)) \<and> \<not> ext_done s \<and> msgWait s (cmd_key wait_cmd) = None"
proof -
  let ?c = wait_cmd and ?k = "cmd_key wait_cmd" and ?to = "Inl (Errorf ''timeout'') :: error + Msg option"
  let ?one = "\<lambda>m v a t. ext_at m [(?k, v)] {?k} [?c] a CIdle RDecode t [] []"
  let ?two = "\<lambda>m q a b. ext_at m [(?k, slot_shut), (?k, slot_open [])] {?k} q a b RDecode TLoop [] [?c]"
  let ?full = "[?k \<mapsto> 0]" and ?none = "Map.empty :: msgWaitKey \<rightharpoonup> nat" and ?next = "[?k \<mapsto> 1]"
  let ?s1 = "?one ?full (slot_open []) (CWait ?c 0) (TFire ?k (Some 0))"
  let ?s2 = "?one ?full slot_shut (CWait ?c 0) (TDel ?k)" and ?s3 = "?one ?none slot_shut (CWait ?c 0) TLoop"
  let ?s4 = "?one ?none slot_shut (CDefer ?c 0 ?to) TLoop" and ?s5 = "?one ?none slot_shut (CDelete ?c 0 ?to) TLoop"
  let ?s6 = "ext_at ?none [(?k, slot_shut)] {?k} [] (CDelete ?c 0 ?to) CIdle RDecode TLoop [] [?c]"
  let ?s7 = "?two ?next [] (CDelete ?c 0 ?to) (COffer ?c 1)"
  let ?s8 = "?two ?next [] (CDelete ?c 0 ?to) (CSend ?c (Some 1))"
  let ?s9 = "?two ?next [?c] (CDelete ?c 0 ?to) (CWait ?c 1)" and ?fin = "?two ?none [?c] (CRet ?c ?to) (CWait ?c 1)"
  have "reach ext_init (ext_step pb) ?s1"
    by (rule reach_timer [OF run_waiting])
      (use t_fire [of "?one ?full (slot_open []) (CWait ?c 0) TLoop" ?k] in simp)
  then have "reach ext_init (ext_step pb) ?s2"
    by (rule reach_timer) (use t_close [of ?s1 ?k "Some 0"] in \<open>simp add: ext_run_simps\<close>)
  then have "reach ext_init (ext_step pb) ?s3" by (rule reach_timer) (use t_del [of ?s2 ?k] in simp)
  then have "reach ext_init (ext_step pb) ?s4"
    by (rule reach_call) (use c_wait_timeout [of ?s3 0 ?c 0] in \<open>simp add: ext_run_simps\<close>)
  then have "reach ext_init (ext_step pb) ?s5"
    by (rule reach_call) (use c_close [of ?s4 0 ?c 0] in \<open>simp add: ext_run_simps\<close>)
  then have "reach ext_init (ext_step pb) ?s6"
    by (rule reach_writer) (use w_cmd [of ?s5 ?c "\<lparr>ch_cap = Suc 0, ch_buf = [], ch_closed = False\<rparr>" pb] in \<open>simp add: ext_run_simps\<close>)
  then have "reach ext_init (ext_step pb) ?s7"
    by (rule reach_call) (use c_store [of ?s6 1 ?c] in \<open>simp add: ext_run_simps\<close>)
  then have "reach ext_init (ext_step pb) ?s8"
    by (rule reach_call) (use c_offer [of ?s7 1 ?c 1] in \<open>simp add: ext_run_simps\<close>)
  then have "reach ext_init (ext_step pb) ?s9"
    by (rule reach_call) (use c_send [of ?s8 1 ?c "Some 1"] in \<open>simp add: ext_run_simps\<close>)
  then have "reach ext_init (ext_step pb) ?fin"
    by (rule reach_call) (use c_delete [of ?s9 0 ?c 0] in \<open>simp add: ext_run_simps\<close>)
  then show ?thesis by (intro exI [of _ ?fin]) simp
qed

text \<open>While the peer is silent and the stream open, the reader stays in \<open>Decode\<close>.\<close>

definition peer_silent :: "ext_stream \<Rightarrow> bool" where
  "peer_silent s \<longleftrightarrow> rd s = RDecode \<and> ext_in s = [] \<and> stream_end s = None"

lemma close_slot_io [simp]:
  "ext_in (close_slot v s) = ext_in s" "stream_end (close_slot v s) = stream_end s"
  "ext_in (upd_slot i f s) = ext_in s" "stream_end (upd_slot i f s) = stream_end s"
  by (simp_all add: close_slot_def upd_slot_def split: option.splits)

lemma peer_silent_step:
  assumes "own_step pb s s'" "peer_silent s"
  shows "peer_silent s'"
  using assms(1)
proof cases
  case own_call
  then show ?thesis using assms(2) by cases (auto simp: peer_silent_def)
next
  case own_reader
  then show ?thesis using assms(2) by cases (auto simp: peer_silent_def)
next
  case own_timer
  then show ?thesis using assms(2) by cases (auto simp: peer_silent_def)
next
  case own_writer
  then show ?thesis using assms(2) by cases (auto simp: peer_silent_def)
qed

lemma peer_silent_steps: "(own_step pb)\<^sup>*\<^sup>* s s' \<Longrightarrow> peer_silent s \<Longrightarrow> peer_silent s'"
  by (induction rule: rtranclp_induct) (auto intro: peer_silent_step)

lemma run_handler_returns:
  "reach ext_init (ext_step pb) (ext_start\<lparr>h_exit := True, wg_err := Some EOF, tm := TExit, wr_exit := True,
     keepaliveCh := \<lparr>ch_cap = 1, ch_buf = [], ch_closed = True\<rparr>\<rparr>)"
proof -
  let ?ka = "\<lparr>ch_cap = 1, ch_buf = [], ch_closed = True\<rparr> :: unit chan"
  let ?s1 = "ext_start\<lparr>h_exit := True, wg_err := Some EOF\<rparr>" and ?s2 = "ext_start\<lparr>h_exit := True, wg_err := Some EOF, tm := TRange {}\<rparr>"
  let ?s3 = "ext_start\<lparr>h_exit := True, wg_err := Some EOF, tm := TClosing, keepaliveCh := ?ka\<rparr>"
  let ?s4 = "ext_start\<lparr>h_exit := True, wg_err := Some EOF, tm := TExit, keepaliveCh := ?ka\<rparr>"
  note defs = ext_start_def wg_return_def ext_done_def make_chan_def ext_run_simps chan_close_def
  have "reach ext_init (ext_step pb) ?s1"
    by (rule reach_writer [OF reach_start]) (use h_return [of ext_start pb] in \<open>simp add: defs\<close>)
  then have "reach ext_init (ext_step pb) ?s2" by (rule reach_timer) (use t_done [of ?s1] in \<open>simp add: defs\<close>)
  then have "reach ext_init (ext_step pb) ?s3"
    by (rule reach_timer) (use t_range_end [of ?s2 "{}" ?ka] in \<open>simp add: defs\<close>)
  then have "reach ext_init (ext_step pb) ?s4" by (rule reach_timer) (use t_exit [of ?s3] in \<open>simp add: defs\<close>)
  then show ?thesis by (rule reach_writer) (use w_closed [of ?s4 ?ka pb] in \<open>simp add: defs\<close>)
qed

text \<open>
  C34. The end of the handler does not end the stream: there is a reachable state in which
  the handler has returned, the context is cancelled and the writer and the timer are
  gone, but from which no sequence of the process's own steps makes \<open>HandleStream\<close>
  return; the reader waits in \<open>Decode\<close> until the peer sends a message or closes, and the
  extension's name stays registered until then.
\<close>

theorem handler_end_keeps_stream:
  "\<exists>s. reach ext_init (ext_step pb) s \<and> h_exit s \<and> ext_done s \<and> wr_exit s \<and> tm s = TExit \<and>
       (\<forall>s'. (own_step pb)\<^sup>*\<^sup>* s s' \<longrightarrow> \<not> ext_returned s' \<and> rd s' = RDecode)"
proof -
  let ?s = "ext_start\<lparr>h_exit := True, wg_err := Some EOF, tm := TExit, wr_exit := True,
     keepaliveCh := \<lparr>ch_cap = 1, ch_buf = [], ch_closed = True\<rparr>\<rparr>"
  have "peer_silent ?s" by (simp add: peer_silent_def ext_start_def)
  then have "\<not> ext_returned s' \<and> rd s' = RDecode" if "(own_step pb)\<^sup>*\<^sup>* ?s s'" for s'
    using peer_silent_steps [OF that] by (auto simp: peer_silent_def ext_returned_def)
  then show ?thesis using run_handler_returns
    by (intro exI [of _ ?s]) (simp add: ext_done_def)
qed

theorem handler_end_keeps_stream_witness:
  "\<exists>s. reach ext_init (ext_step pb_example) s \<and> h_exit s \<and> ext_done s \<and> \<not> ext_returned s \<and> rd s = RDecode"
  using handler_end_keeps_stream [of pb_example] by blast

section \<open>Late responses\<close>

text \<open>The slot a call refers to.\<close>

fun call_slot :: "call_pc \<Rightarrow> nat option" where
  "call_slot (COffer cmd i) = Some i"
| "call_slot (CSend cmd w) = w"
| "call_slot (CWait cmd i) = Some i"
| "call_slot (CDefer cmd i r) = Some i"
| "call_slot (CDelete cmd i r) = Some i"
| "call_slot _ = None"

text \<open>
  The reader waits at the select of a full slot, whose only caller has left its own select
  and is about to close the slot.
\<close>

definition stalled :: "nat \<Rightarrow> Cmd \<Rightarrow> nat \<Rightarrow> error + Msg option \<Rightarrow> Msg \<Rightarrow> ext_stream \<Rightarrow> bool" where
  "stalled t cmd i r msg s \<longleftrightarrow>
     calls s t = CDefer cmd i r \<and> rd s = RSelect i msg \<and> i < length (slots s) \<and>
     \<not> send_ready (slot_ch s i) \<and> (\<forall>t'. t' \<noteq> t \<longrightarrow> call_slot (calls s t') \<noteq> Some i)"

lemma stalledI:
  assumes "stalled t cmd i r msg s" and "calls s' t = calls s t" and "rd s' = rd s"
    and "i < length (slots s')" and "slot_ch s' i = slot_ch s i"
    and "\<And>t'. t' \<noteq> t \<Longrightarrow> call_slot (calls s' t') \<noteq> Some i"
  shows "stalled t cmd i r msg s'"
  using assms by (simp add: stalled_def)

lemma stalled_set_call:
  assumes "stalled t cmd i r msg s" and "t' \<noteq> t" and "call_slot pc \<noteq> Some i"
    and "slots s' = slots s \<or> (\<exists>v. slots s' = slots s @ [v])" and "rd s' = rd s" and "calls s' = (calls s)(t' := pc)"
  shows "stalled t cmd i r msg s'"
proof (rule stalledI [OF assms(1)])
  have i: "i < length (slots s)" using assms(1) by (simp add: stalled_def)
  show "i < length (slots s')" "slot_ch s' i = slot_ch s i"
    using assms(4) i by (auto simp: nth_append)
  show "call_slot (calls s' u) \<noteq> Some i" if "u \<noteq> t" for u
    using assms(1,3,6) that by (auto simp: stalled_def)
qed (use assms in simp_all)

lemma stalled_other_slot:
  assumes "stalled t cmd i r msg s" and "j \<noteq> i" and "slots s' = slots (upd_slot j f s)" and "rd s' = rd s"
    and "calls s' = calls s"
  shows "stalled t cmd i r msg s'"
proof (rule stalledI [OF assms(1)])
  have i: "i < length (slots s)" using assms(1) by (simp add: stalled_def)
  show "i < length (slots s')" "slot_ch s' i = slot_ch s i"
    using assms(2,3) i by (simp_all add: upd_slot_def)
qed (use assms in \<open>auto simp: stalled_def\<close>)

lemma stalled_locked: "stalled t cmd i r msg s \<Longrightarrow> slot_locked s i"
  by (simp add: stalled_def slot_locked_def)

lemma stalled_call_step:
  assumes "call_step s s'" and st: "stalled t cmd i r msg s"
  shows "stalled t cmd i r msg s'"
proof -
  have mine: "calls s t = CDefer cmd i r" and new: "i < length (slots s)" using st by (auto simp: stalled_def)
  have other: "call_slot (calls s u) \<noteq> Some i" if "u \<noteq> t" for u using st that by (simp add: stalled_def)
  from assms(1) show ?thesis
  proof cases
    case (c_store u cmd')
    with mine new show ?thesis by (intro stalled_set_call [OF st, where t' = u]) auto
  next
    case (c_wait_msg u cmd' j m ch)
    with mine have u: "u \<noteq> t" by auto
    with c_wait_msg other [OF u] have "j \<noteq> i" by auto
    with st have "stalled t cmd i r msg (upd_slot j (\<lambda>v. v\<lparr>mw_msgCh := ch\<rparr>) s)"
      by (rule stalled_other_slot) simp_all
    with u c_wait_msg \<open>j \<noteq> i\<close> show ?thesis by (auto elim!: stalled_set_call)
  next
    case (c_close u cmd' j r')
    with stalled_locked [OF st] mine have u: "u \<noteq> t" by auto
    with c_close other [OF u] have "j \<noteq> i" by auto
    with st have "stalled t cmd i r msg (close_slot (Some j) s)"
      by (rule stalled_other_slot) (simp_all add: close_slot_def)
    with u c_close \<open>j \<noteq> i\<close> show ?thesis by (auto elim!: stalled_set_call)
  next
    case (c_delete u cmd' j r')
    with mine have "u \<noteq> t" by auto
    with c_delete show ?thesis by (intro stalled_set_call [OF st, where t' = u]) auto
  qed (use st in \<open>force simp: stalled_def nth_append split: option.splits\<close>)+
qed

lemma stalled_timer_step:
  assumes "timer_step s s'" and st: "stalled t cmd i r msg s"
  shows "stalled t cmd i r msg s'"
proof -
  have shut: "stalled t cmd i r msg ((close_slot v s)\<lparr>tm := pc\<rparr>)" if "\<And>j. v = Some j \<Longrightarrow> \<not> slot_locked s j" for v pc
  proof (cases v)
    case None
    with st show ?thesis by (simp add: stalled_def close_slot_def)
  next
    case (Some j)
    with that stalled_locked [OF st] have "j \<noteq> i" by auto
    with st show ?thesis by (rule stalled_other_slot) (simp_all add: Some close_slot_def)
  qed
  from assms(1) show ?thesis
    by cases (use st shut in \<open>auto simp: stalled_def\<close>)
qed

lemma stalled_step:
  assumes "ext_step pb s s'" and st: "stalled t cmd i r msg s" and live: "\<not> ext_done s'"
  shows "stalled t cmd i r msg s'"
  using assms(1)
proof cases
  case ext_own
  then show ?thesis
  proof cases
    case own_call
    then show ?thesis using st by (rule stalled_call_step)
  next
    case own_reader
    then show ?thesis by cases (use st live in \<open>auto simp: stalled_def ext_done_def\<close>)
  next
    case own_timer
    then show ?thesis using st by (rule stalled_timer_step)
  next
    case own_writer
    then show ?thesis by cases (use st in \<open>auto simp: stalled_def wg_return_def\<close>)
  qed
qed (use st in \<open>auto simp: stalled_def\<close>)

lemma ext_done_step: "ext_step pb s s' \<Longrightarrow> ext_done s \<Longrightarrow> ext_done s'"
  by (erule ext_step.cases, erule own_step.cases, erule call_step.cases)
    (auto simp: ext_done_def wg_return_def close_slot_def upd_slot_def
      elim!: reader_step.cases timer_step.cases writer_step.cases split: option.splits)

lemma stalled_run:
  "(ext_step pb)\<^sup>*\<^sup>* s s' \<Longrightarrow> stalled t cmd i r msg s \<Longrightarrow> ext_done s' \<or> stalled t cmd i r msg s'"
  by (induction rule: rtranclp_induct) (auto intro: ext_done_step stalled_step)

text \<open>
  C32. Responses that come late block the stream: when a peer answers a command three times,
  a reachable state has the caller of \<open>sendCmd\<close> holding its response but about to
  close the slot, while the reader holds the slot's lock in \<open>send\<close> and waits for room.
  From there, whatever the other goroutines, the peer and new callers do, neither of the
  two moves, so no further message is read and the call does not return, until the stream's
  context is cancelled.
\<close>

theorem late_responses_block_stream:
  assumes "msg_key m1 = cmd_key cmd" and "msg_key m2 = cmd_key cmd" and "msg_key m3 = cmd_key cmd"
  shows "\<exists>s. reach ext_init (ext_step pb) s \<and> \<not> ext_done s \<and>
           (\<forall>s'. (ext_step pb)\<^sup>*\<^sup>* s s' \<longrightarrow>
              ext_done s' \<or> calls s' 0 = CDefer cmd 0 (Inr (Some m1)) \<and> rd s' = RSelect 0 m3)"
proof -
  let ?s = "ext_at [cmd_key cmd \<mapsto> 0] [(cmd_key cmd, slot_open [m2])] {cmd_key cmd} [cmd]
     (CDefer cmd 0 (Inr (Some m1))) CIdle (RSelect 0 m3) TLoop [] []"
  have "reach ext_init (ext_step pb) ?s"
    by (rule run_select [OF run_deliver [OF run_taken [OF assms(1)] assms(2)] assms(3)])
  moreover have "calls ?s u = CIdle" if "u \<noteq> 0" for u
    using that by (simp add: ext_at_def)
  then have "stalled 0 cmd 0 (Inr (Some m1)) m3 ?s"
    by (simp add: stalled_def send_ready_def)
  then have "\<forall>s'. (ext_step pb)\<^sup>*\<^sup>* ?s s' \<longrightarrow>
      ext_done s' \<or> calls s' 0 = CDefer cmd 0 (Inr (Some m1)) \<and> rd s' = RSelect 0 m3"
    using stalled_run unfolding stalled_def by blast
  ultimately show ?thesis by (intro exI [of _ ?s]) simp
qed

theorem late_responses_block_stream_witness:
  "\<exists>s. reach ext_init (ext_step pb_example) s \<and> \<not> ext_done s \<and>
       calls s 0 = CDefer wait_cmd 0 (Inr (Some answer_msg)) \<and> rd s = RSelect 0 answer_msg"
proof -
  have "msg_key answer_msg = cmd_key wait_cmd"
    by (simp add: msg_key_def cmd_key_def answer_msg_def wait_cmd_def)
  from late_responses_block_stream [OF this this this, of pb_example] show ?thesis by blast
qed

end
