(* ===== verification/Ext_Manager.thy ===== *)
theory Ext_Manager
  imports Extension
begin

text \<open>
  An extension manager with all its connections: any number of concurrent calls of
  \<open>HandleStream\<close> (\<open>src/server/extension.go\<close>) on one table of registered names, each
  registered call running the stream system of \<open>Extension\<close> until its goroutines have
  returned and the deferred function removes the name.
\<close>

section \<open>The system\<close>

text \<open>A call was refused, runs its goroutines, or has returned.\<close>

datatype stream_call = HRefused error | HRunning ext_stream | HReturned "error option"

record mgr_sys =
  ms_mgr :: ExtensionManager
  ms_calls :: "(string \<times> stream_call) list"

inductive ms_step :: "arhatgopb \<Rightarrow> mgr_sys \<Rightarrow> mgr_sys \<Rightarrow> bool" for pb where
  ms_register: "ext_register name (ms_mgr s) = Inr m \<Longrightarrow>
     ms_step pb s (s\<lparr>ms_mgr := m, ms_calls := ms_calls s @ [(name, HRunning ext_start)]\<rparr>)"
| ms_refuse: "ext_register name (ms_mgr s) = Inl err \<Longrightarrow>
     ms_step pb s (s\<lparr>ms_calls := ms_calls s @ [(name, HRefused err)]\<rparr>)"
| ms_stream: "i < length (ms_calls s) \<Longrightarrow> ms_calls s ! i = (name, HRunning st) \<Longrightarrow> ext_step pb st st' \<Longrightarrow>
     ms_step pb s (s\<lparr>ms_calls := (ms_calls s)[i := (name, HRunning st')]\<rparr>)"
| ms_return: "i < length (ms_calls s) \<Longrightarrow> ms_calls s ! i = (name, HRunning st) \<Longrightarrow> ext_returned st \<Longrightarrow>
     ms_step pb s (s\<lparr>ms_mgr := ext_unregister name (ms_mgr s),
                     ms_calls := (ms_calls s)[i := (name, HReturned (stream_result (wg_err st)))]\<rparr>)"

definition ms_init :: "mgr_sys \<Rightarrow> bool" where
  "ms_init s \<longleftrightarrow> s = \<lparr>ms_mgr = NewExtensionManager, ms_calls = []\<rparr>"

definition runs :: "mgr_sys \<Rightarrow> nat \<Rightarrow> string \<Rightarrow> bool" where
  "runs s i name \<longleftrightarrow> i < length (ms_calls s) \<and> (\<exists>st. ms_calls s ! i = (name, HRunning st))"

section \<open>Invariant\<close>

definition ms_inv :: "arhatgopb \<Rightarrow> mgr_sys \<Rightarrow> bool" where
  "ms_inv pb s \<longleftrightarrow>
     (\<forall>i j name. runs s i name \<longrightarrow> runs s j name \<longrightarrow> i = j) \<and>
     (\<forall>name. name \<in> registeredExtensions (ms_mgr s) \<longleftrightarrow> (\<exists>i. runs s i name)) \<and>
     (\<forall>i < length (ms_calls s). \<forall>name st. ms_calls s ! i = (name, HRunning st) \<longrightarrow> reach ext_init (ext_step pb) st)"

lemma runs_append:
  "runs (s\<lparr>ms_mgr := m, ms_calls := ms_calls s @ [(n, c)]\<rparr>) i name \<longleftrightarrow>
     runs s i name \<or> (i = length (ms_calls s) \<and> n = name \<and> (\<exists>st. c = HRunning st))"
  by (auto simp: runs_def nth_append less_Suc_eq)

lemma runs_update:
  assumes "i < length (ms_calls s)"
  shows "runs (s\<lparr>ms_mgr := m, ms_calls := (ms_calls s)[i := (n, c)]\<rparr>) j name \<longleftrightarrow>
     (if j = i then n = name \<and> (\<exists>st. c = HRunning st) else runs s j name)"
  using assms by (auto simp: runs_def)

lemma ms_invI:
  assumes "\<And>i j name. runs s i name \<Longrightarrow> runs s j name \<Longrightarrow> i = j"
    and "\<And>name. name \<in> registeredExtensions (ms_mgr s) \<longleftrightarrow> (\<exists>i. runs s i name)"
    and "\<And>i name st. i < length (ms_calls s) \<Longrightarrow> ms_calls s ! i = (name, HRunning st) \<Longrightarrow> reach ext_init (ext_step pb) st"
  shows "ms_inv pb s"
  using assms unfolding ms_inv_def by blast

lemma ms_invD:
  assumes "ms_inv pb s"
  shows "\<And>i j name. runs s i name \<Longrightarrow> runs s j name \<Longrightarrow> i = j"
    and "\<And>name. name \<in> registeredExtensions (ms_mgr s) \<longleftrightarrow> (\<exists>i. runs s i name)"
    and "\<And>i name st. i < length (ms_calls s) \<Longrightarrow> ms_calls s ! i = (name, HRunning st) \<Longrightarrow> reach ext_init (ext_step pb) st"
  using assms unfolding ms_inv_def by blast+

lemma ms_register_inv:
  assumes inv: "ms_inv pb s" and "ext_register name (ms_mgr s) = Inr m"
  shows "ms_inv pb (s\<lparr>ms_mgr := m, ms_calls := ms_calls s @ [(name, HRunning ext_start)]\<rparr>)"
proof -
  have "name \<notin> registeredExtensions (ms_mgr s)"
    and reg: "registeredExtensions m = insert name (registeredExtensions (ms_mgr s))"
    using assms(2) by (auto simp: ext_register_def split: if_splits)
  then have new: "\<And>i. \<not> runs s i name" using ms_invD(2) [OF inv] by blast
  show ?thesis
  proof (rule ms_invI, unfold runs_append)
    show "i = j" if "runs s i n \<or> i = length (ms_calls s) \<and> name = n \<and> (\<exists>st. HRunning ext_start = HRunning st)"
      "runs s j n \<or> j = length (ms_calls s) \<and> name = n \<and> (\<exists>st. HRunning ext_start = HRunning st)" for i j n
      using that new ms_invD(1) [OF inv] by blast
  qed (use reg ms_invD(2,3) [OF inv] reach_start in \<open>auto simp: nth_append less_Suc_eq split: if_splits\<close>)
qed

lemma ms_refuse_inv:
  assumes inv: "ms_inv pb s"
  shows "ms_inv pb (s\<lparr>ms_mgr := ms_mgr s, ms_calls := ms_calls s @ [(name, HRefused err)]\<rparr>)"
  by (rule ms_invI, unfold runs_append)
    (use ms_invD [OF inv] in \<open>auto simp: nth_append less_Suc_eq split: if_splits\<close>)

lemma ms_stream_inv:
  assumes inv: "ms_inv pb s" and i: "i < length (ms_calls s)" "ms_calls s ! i = (name, HRunning st)"
    and "ext_step pb st st'"
  shows "ms_inv pb (s\<lparr>ms_mgr := ms_mgr s, ms_calls := (ms_calls s)[i := (name, HRunning st')]\<rparr>)"
proof -
  let ?t = "s\<lparr>ms_mgr := ms_mgr s, ms_calls := (ms_calls s)[i := (name, HRunning st')]\<rparr>"
  have same: "runs ?t j n \<longleftrightarrow> runs s j n" for j n
    using runs_update [OF i(1), where m = "ms_mgr s" and n = name and c = "HRunning st'" and j = j and name = n] i by (auto simp: runs_def)
  have "reach ext_init (ext_step pb) st'" using ms_invD(3) [OF inv i] assms(4) by (rule reach_step)
  then show ?thesis
    by (intro ms_invI, unfold same) (use i(1) ms_invD [OF inv] in \<open>auto simp: nth_list_update split: if_splits\<close>)
qed

lemma ms_return_inv:
  assumes inv: "ms_inv pb s" and i: "i < length (ms_calls s)" "ms_calls s ! i = (name, HRunning st)"
  shows "ms_inv pb (s\<lparr>ms_mgr := ext_unregister name (ms_mgr s), ms_calls := (ms_calls s)[i := (name, HReturned r)]\<rparr>)"
proof -
  let ?t = "s\<lparr>ms_mgr := ext_unregister name (ms_mgr s), ms_calls := (ms_calls s)[i := (name, HReturned r)]\<rparr>"
  have upd: "runs ?t j n \<longleftrightarrow> j \<noteq> i \<and> runs s j n" for j n
    using runs_update [OF i(1), where m = "ext_unregister name (ms_mgr s)" and n = name and c = "HReturned r" and j = j and name = n] by simp
  have "runs s i name" using i by (simp add: runs_def)
  then have only: "runs s j n \<and> j \<noteq> i \<longleftrightarrow> runs s j n \<and> n \<noteq> name" for j n
    using ms_invD(1) [OF inv] i(2) by (auto simp: runs_def)
  show ?thesis
  proof (rule ms_invI)
    show "n \<in> registeredExtensions (ms_mgr ?t) \<longleftrightarrow> (\<exists>j. runs ?t j n)" for n
    proof -
      have "(\<exists>j. runs ?t j n) \<longleftrightarrow> n \<noteq> name \<and> (\<exists>j. runs s j n)" unfolding upd using only by blast
      then show ?thesis using ms_invD(2) [OF inv, of n] by (auto simp: ext_unregister_def)
    qed
    show "j = k" if "runs ?t j n" "runs ?t k n" for j k n
      using that ms_invD(1) [OF inv] unfolding upd by blast
  qed (use i(1) ms_invD(3) [OF inv] in \<open>auto simp: nth_list_update split: if_splits\<close>)
qed

lemma ms_step_inv:
  assumes "ms_step pb s t" and inv: "ms_inv pb s"
  shows "ms_inv pb t"
  using assms(1)
proof cases
  case (ms_refuse name err)
  with ms_refuse_inv [OF inv, of name err] show ?thesis by simp
next
  case (ms_stream i name st st')
  with ms_stream_inv [OF inv ms_stream(2-4)] show ?thesis by simp
qed (simp_all add: ms_register_inv [OF inv] ms_return_inv [OF inv])

interpretation mss: invariant_system ms_init "ms_step pb" "ms_inv pb" for pb
proof
  fix s t
  show "ms_init s \<Longrightarrow> ms_inv pb s" by (simp add: ms_init_def ms_inv_def runs_def NewExtensionManager_def)
  show "ms_step pb s t \<Longrightarrow> ms_inv pb s \<Longrightarrow> ms_inv pb t" by (rule ms_step_inv)
qed

section \<open>Properties\<close>

text \<open>
  C17. One stream per extension: under every interleaving of connections, at most one
  stream of a name runs at a time; a connection of a name is accepted exactly when no
  stream of that name runs, so the name can be used again as soon as \<open>HandleStream\<close> has
  returned and not before; and on each of the concurrent streams a response that
  \<open>sendCmd\<close> returns belongs to the command it was called with.
\<close>

theorem one_stream_per_name:
  assumes "reach ms_init (ms_step pb) s"
  shows "(\<forall>i j name. runs s i name \<longrightarrow> runs s j name \<longrightarrow> i = j) \<and>
         (\<forall>name. (\<exists>m. ext_register name (ms_mgr s) = Inr m) \<longleftrightarrow> (\<nexists>i. runs s i name)) \<and>
         (\<forall>i < length (ms_calls s). \<forall>name st t cmd msg. ms_calls s ! i = (name, HRunning st) \<longrightarrow>
            calls st t = CRet cmd (Inr (Some msg)) \<longrightarrow> msg_Id msg = cmd_Id cmd \<and> msg_Ack msg = cmd_Seq cmd)"
proof -
  have inv: "ms_inv pb s" by (rule mss.inv_reach [OF assms])
  have "(\<exists>m. ext_register name (ms_mgr s) = Inr m) \<longleftrightarrow> name \<notin> registeredExtensions (ms_mgr s)" for name
    by (simp add: ext_register_def)
  then have "\<forall>name. (\<exists>m. ext_register name (ms_mgr s) = Inr m) \<longleftrightarrow> (\<nexists>i. runs s i name)"
    using inv by (simp add: ms_inv_def)
  moreover have "msg_Id msg = cmd_Id cmd \<and> msg_Ack msg = cmd_Seq cmd"
    if "i < length (ms_calls s)" "ms_calls s ! i = (name, HRunning st)" "calls st t = CRet cmd (Inr (Some msg))"
    for i name st t cmd msg
  proof -
    have "reach ext_init (ext_step pb) st" using inv that by (auto simp: ms_inv_def)
    from ext_invD(3) [OF exts.inv_reach [OF this] that(3)] show ?thesis by (simp add: cmd_key_def msg_key_def)
  qed
  ultimately show ?thesis using inv unfolding ms_inv_def by blast
qed

theorem one_stream_per_name_witness:
  "\<exists>s. reach ms_init (ms_step pb_example) s \<and> runs s 0 ''lamp'' \<and> \<not> (\<exists>m. ext_register ''lamp'' (ms_mgr s) = Inr m) \<and>
       (\<exists>m. ext_register ''door'' (ms_mgr s) = Inr m)"
proof -
  let ?new = "\<lparr>ms_mgr = NewExtensionManager, ms_calls = []\<rparr>"
  let ?s = "\<lparr>ms_mgr = \<lparr>registeredExtensions = {''lamp''}\<rparr>, ms_calls = [(''lamp'', HRunning ext_start)]\<rparr>"
  have step: "ms_step pb_example ?new ?s"
    using ms_register [of "''lamp''" ?new] by (simp add: ext_register_def NewExtensionManager_def)
  have "reach ms_init (ms_step pb_example) ?new" by (rule reach_init) (simp add: ms_init_def)
  then have r: "reach ms_init (ms_step pb_example) ?s" using step by (rule reach_step)
  have "runs ?s 0 ''lamp''" "\<not> runs ?s i ''door''" for i by (auto simp: runs_def)
  with one_stream_per_name [OF r] r show ?thesis by blast
qed

end
