(* ===== verification/Client.thy ===== *)
theory Client
  imports Server
begin

text \<open>
  \<open>src/client.go\<close>: the client an extension uses to reach the hub. \<open>NewClient\<close>
  prepares the registration message and the dial address; \<open>ProcessNewStream\<close> runs a
  writer and a reader goroutine on one connection, a transition system here.
\<close>

section \<open>Construction\<close>

record ('v, 'tls) client =
  cl_codec :: "'v codec_iface"
  cl_regMsg :: bytes
  cl_network :: string
  cl_addr :: string
  cl_tls :: "'tls option"

definition client_addr :: "netenv \<Rightarrow> URL \<Rightarrow> string \<times> string" where
  "client_addr N u =
     (let network = str_lower (Scheme u) in
      (network,
       if network = ''pipe'' then
         if GOOS N = ''windows'' then
           (let (host, path) = (if Path u = '''' then (''.'', Host u) else (Host u, Path u)) in
            [CHR 0x5C, CHR 0x5C] @ host @ [CHR 0x5C] @ ''pipe'' @ [CHR 0x5C] @ path)
         else Path u
       else Host u @ Path u))"

definition NewClient ::
  "netenv \<Rightarrow> arhatgopb \<Rightarrow> (int32 \<rightharpoonup> 'v codec_iface) \<Rightarrow> int32 \<Rightarrow> string \<Rightarrow> 'v codec_iface \<Rightarrow> string \<Rightarrow> 'tls option
     \<Rightarrow> error + ('v, 'tls) client" where
  "NewClient N pb codecs kind name c endpointURL tlsConfig =
     (case url_Parse N endpointURL of
        Inl err \<Rightarrow> Inl (Wrap ''invalid endpoint url'' err)
      | Inr u \<Rightarrow>
          (case Get (CODEC_JSON pb) codecs of
             None \<Rightarrow> Inl (Errorf ''json codec required but not found'')
           | Some jsonCodec \<Rightarrow>
               (case NewMsg (cd_Marshal jsonCodec) (MSG_REGISTER pb) 0 0 (RegisterMsg name kind (cd_Type c)) of
                  Inl err \<Rightarrow> Inl (Wrap ''failed to create register message'' err)
                | Inr regMsg \<Rightarrow>
                    (case cd_Encode jsonCodec regMsg of
                       Inl err \<Rightarrow> Inl (Wrap ''failed to marshal register message'' err)
                     | Inr regMsgBuf \<Rightarrow>
                         Inr \<lparr>cl_codec = c, cl_regMsg = regMsgBuf, cl_network = fst (client_addr N u),
                              cl_addr = snd (client_addr N u), cl_tls = tlsConfig\<rparr>))))"

definition checkNetworkReadErr :: "error option \<Rightarrow> error option" where
  "checkNetworkReadErr err =
     (case err of
        None \<Rightarrow> None
      | Some (OpError p e) \<Rightarrow>
          if err_string e = ''use of closed network connection'' then Some EOF else err
      | Some e \<Rightarrow> if str_contains (err_string e) ''closed'' then Some EOF else Some e)"

section \<open>The two goroutines of a connection\<close>

definition pong_msg :: "arhatgopb \<Rightarrow> Msg" where
  "pong_msg pb = \<lparr>msg_Kind = MSG_PONG pb, msg_Id = 0, msg_Ack = 0, msg_Payload = None\<rparr>"

text \<open>
  The reader is in \<open>Decode\<close>, at the select on \<open>keepaliveCh\<close> or on \<open>cmdCh\<close>, or in its
  deferred function with the error it will return, or gone; the writer is at its select,
  has a pong to encode, or is in its deferred function, or gone.
\<close>

datatype cr_pc = CRead | CPing | CForward Cmd | CRClose error | CRReturn error | CRExit
datatype cw_pc = WSelect | WPong | WClose error | WReturn error | WExit

text \<open>
  \<open>cl_in\<close>: commands that arrived and are not decoded; \<open>cl_end\<close>: the error
  \<open>Decode\<close> meets after them; \<open>cl_decoded\<close>: what the reader decoded; \<open>cl_cmds\<close>: what it
  sent to \<open>cmdCh\<close>; \<open>cl_msgs\<close>: what \<open>msgCh\<close> still holds; \<open>cl_taken\<close>: what the
  writer took from it; \<open>cl_out\<close>: what it encoded.
\<close>

record cl_stream =
  cl_in :: "Cmd list"
  cl_end :: "error option"
  cl_decoded :: "Cmd list"
  cl_cmds :: "Cmd list"
  cmd_closed :: bool
  cl_msgs :: "Msg list"
  msg_closed :: bool
  cl_taken :: "Msg list"
  cl_out :: "Msg list"
  ka_closed :: bool
  conn_closed :: bool
  cr :: cr_pc
  cw :: cw_pc
  cr_err :: "error option"
  cl_wg :: "error option"
  cl_parent_done :: bool

definition cl_start :: cl_stream where
  "cl_start =
     \<lparr>cl_in = [], cl_end = None, cl_decoded = [], cl_cmds = [], cmd_closed = False, cl_msgs = [],
      msg_closed = False, cl_taken = [], cl_out = [], ka_closed = False, conn_closed = False,
      cr = CRead, cw = WSelect, cr_err = None, cl_wg = None, cl_parent_done = False\<rparr>"

text \<open>
  \<open>ProcessNewStream\<close> up to its goroutines, on the errors of \<open>createConnection\<close> and of the
  write of the registration: it returns an error, or the goroutines start.
\<close>

definition ProcessNewStream_start :: "error option \<Rightarrow> error option \<Rightarrow> error + cl_stream" where
  "ProcessNewStream_start dial_err write_err =
     (case dial_err of
        Some err \<Rightarrow> Inl (Wrap ''failed to dial endpoint'' err)
      | None \<Rightarrow>
          (case write_err of
             Some err \<Rightarrow> Inl (Wrap ''failed to register myself'' err)
           | None \<Rightarrow> Inr cl_start))"

definition cl_done :: "cl_stream \<Rightarrow> bool" where
  "cl_done s \<longleftrightarrow> cl_wg s \<noteq> None \<or> cl_parent_done s"

definition cl_return :: "error \<Rightarrow> cl_stream \<Rightarrow> cl_stream" where
  "cl_return e s = s\<lparr>cl_wg := (case cl_wg s of None \<Rightarrow> Some e | Some x \<Rightarrow> Some x)\<rparr>"

definition cl_returned :: "cl_stream \<Rightarrow> bool" where
  "cl_returned s \<longleftrightarrow> cr s = CRExit \<and> cw s = WExit"

text \<open>What \<open>ProcessNewStream\<close> returns once \<open>wg.Wait\<close> has.\<close>

definition process_result :: "cl_stream \<Rightarrow> error option" where
  "process_result s = (if cl_wg s \<noteq> None \<and> cl_wg s \<noteq> Some EOF then cl_wg s else None)"

inductive cl_step :: "arhatgopb \<Rightarrow> cl_stream \<Rightarrow> cl_stream \<Rightarrow> bool" for pb where
  cr_ping: "cr s = CRead \<Longrightarrow> cl_in s = cmd # cs \<Longrightarrow> cmd_Kind cmd = CMD_PING pb \<Longrightarrow>
     cl_step pb s (s\<lparr>cl_in := cs, cl_decoded := cl_decoded s @ [cmd], cr := CPing\<rparr>)"
| cr_cmd: "cr s = CRead \<Longrightarrow> cl_in s = cmd # cs \<Longrightarrow> cmd_Kind cmd \<noteq> CMD_PING pb \<Longrightarrow>
     cl_step pb s (s\<lparr>cl_in := cs, cl_decoded := cl_decoded s @ [cmd], cr := CForward cmd\<rparr>)"
| cr_fail: "cr s = CRead \<Longrightarrow> (cl_in s = [] \<and> cl_end s = Some e) \<or> conn_closed s \<Longrightarrow>
     checkNetworkReadErr (Some e) = Some err2 \<Longrightarrow>
     cl_step pb s (s\<lparr>cr := CRClose err2, cr_err := Some err2\<rparr>)"
| cr_keepalive: "cr s = CPing \<Longrightarrow> cw s = WSelect \<Longrightarrow> cl_step pb s (s\<lparr>cr := CRead, cw := WPong\<rparr>)"
| cr_ping_done: "cr s = CPing \<Longrightarrow> cl_done s \<Longrightarrow> cl_step pb s (s\<lparr>cr := CRClose EOF, cr_err := Some EOF\<rparr>)"
| cr_forward: "cr s = CForward cmd \<Longrightarrow>
     cl_step pb s (s\<lparr>cr := CRead, cl_cmds := cl_cmds s @ [cmd]\<rparr>)"
| cr_forward_done: "cr s = CForward cmd \<Longrightarrow> cl_done s \<Longrightarrow>
     cl_step pb s (s\<lparr>cr := CRClose EOF, cr_err := Some EOF\<rparr>)"
| cr_defer: "cr s = CRClose e \<Longrightarrow>
     cl_step pb s (s\<lparr>cr := CRReturn e, ka_closed := True, cmd_closed := True\<rparr>)"
| cr_exit: "cr s = CRReturn e \<Longrightarrow> cl_step pb s ((cl_return e s)\<lparr>cr := CRExit\<rparr>)"
| cw_ka_closed: "cw s = WSelect \<Longrightarrow> ka_closed s \<Longrightarrow> cl_step pb s (s\<lparr>cw := WClose EOF\<rparr>)"
| cw_pong: "cw s = WPong \<Longrightarrow> cl_step pb s (s\<lparr>cw := WSelect, cl_out := cl_out s @ [pong_msg pb]\<rparr>)"
| cw_pong_err: "cw s = WPong \<Longrightarrow>
     cl_step pb s (s\<lparr>cw := WClose (Wrap ''failed to encode pong message'' e)\<rparr>)"
| cw_msg: "cw s = WSelect \<Longrightarrow> cl_msgs s = msg # ms \<Longrightarrow>
     cl_step pb s (s\<lparr>cl_msgs := ms, cl_taken := cl_taken s @ [msg], cl_out := cl_out s @ [msg]\<rparr>)"
| cw_msg_err: "cw s = WSelect \<Longrightarrow> cl_msgs s = msg # ms \<Longrightarrow>
     cl_step pb s (s\<lparr>cl_msgs := ms, cl_taken := cl_taken s @ [msg],
       cw := WClose (Wrap ''failed to encode message'' e)\<rparr>)"
| cw_msg_end: "cw s = WSelect \<Longrightarrow> cl_msgs s = [] \<Longrightarrow> msg_closed s \<Longrightarrow> cl_step pb s (s\<lparr>cw := WClose EOF\<rparr>)"
| cw_done: "cw s = WSelect \<Longrightarrow> cl_done s \<Longrightarrow> cl_step pb s (s\<lparr>cw := WClose EOF\<rparr>)"
| cw_defer: "cw s = WClose e \<Longrightarrow> cl_step pb s (s\<lparr>cw := WReturn e, conn_closed := True\<rparr>)"
| cw_exit: "cw s = WReturn e \<Longrightarrow> cl_step pb s ((cl_return e s)\<lparr>cw := WExit\<rparr>)"
| cl_peer_cmd: "cl_end s = None \<Longrightarrow> cl_step pb s (s\<lparr>cl_in := cl_in s @ [cmd]\<rparr>)"
| cl_peer_end: "cl_end s = None \<Longrightarrow> cl_step pb s (s\<lparr>cl_end := Some e\<rparr>)"
| cl_msg_send: "\<not> msg_closed s \<Longrightarrow> cl_step pb s (s\<lparr>cl_msgs := cl_msgs s @ [msg]\<rparr>)"
| cl_msg_close: "cl_step pb s (s\<lparr>msg_closed := True\<rparr>)"
| cl_cancel: "cl_step pb s (s\<lparr>cl_parent_done := True\<rparr>)"

definition cl_init :: "cl_stream \<Rightarrow> bool" where
  "cl_init s \<longleftrightarrow> s = cl_start"

section \<open>Invariant\<close>

definition is_ping :: "arhatgopb \<Rightarrow> Cmd \<Rightarrow> bool" where
  "is_ping pb cmd \<longleftrightarrow> cmd_Kind cmd = CMD_PING pb"

definition pings :: "arhatgopb \<Rightarrow> cl_stream \<Rightarrow> nat" where
  "pings pb s = length (filter (is_ping pb) (cl_decoded s))"

definition cl_ending :: "cr_pc \<Rightarrow> bool" where
  "cl_ending pc \<longleftrightarrow> (case pc of CRClose _ \<Rightarrow> True | CRReturn _ \<Rightarrow> True | CRExit \<Rightarrow> True | _ \<Rightarrow> False)"

text \<open>
  What was decoded and is not a ping is what was forwarded, followed by the command at the
  select; the pings decoded are those answered and at most one more.
\<close>

definition cl_cmds_ok :: "arhatgopb \<Rightarrow> cl_stream \<Rightarrow> bool" where
  "cl_cmds_ok pb s \<longleftrightarrow>
     (let sent = filter (\<lambda>c. \<not> is_ping pb c) (cl_decoded s) in
      if cl_ending (cr s) then sent = cl_cmds s \<or> (\<exists>c. sent = cl_cmds s @ [c])
      else sent = cl_cmds s @ (case cr s of CForward c \<Rightarrow> [c] | _ \<Rightarrow> []))"

definition cl_chans_ok :: "cl_stream \<Rightarrow> bool" where
  "cl_chans_ok s \<longleftrightarrow>
     (ka_closed s \<longleftrightarrow> cmd_closed s) \<and>
     (cmd_closed s \<longleftrightarrow> (case cr s of CRReturn _ \<Rightarrow> True | CRExit \<Rightarrow> True | _ \<Rightarrow> False)) \<and>
     (conn_closed s \<longleftrightarrow> (case cw s of WReturn _ \<Rightarrow> True | WExit \<Rightarrow> True | _ \<Rightarrow> False)) \<and>
     (cr_err s \<noteq> None \<longleftrightarrow> cl_ending (cr s)) \<and>
     (cr s = CRExit \<or> cw s = WExit \<longrightarrow> cl_wg s \<noteq> None)"

text \<open>
  The writer's output is an interleaving of the messages it took, in order, with pongs, no
  more of them than pings were decoded. A message that failed to encode is the last taken.
\<close>

definition out_ok :: "arhatgopb \<Rightarrow> cl_stream \<Rightarrow> bool" where
  "out_ok pb s \<longleftrightarrow>
     (\<exists>n msgs. cl_out s \<in> shuffles (replicate n (pong_msg pb)) msgs \<and>
        n + (if cw s = WPong then 1 else 0) + (if cr s = CPing then 1 else 0) \<le> pings pb s \<and>
        (cl_taken s = msgs \<or>
         (\<exists>m. cl_taken s = msgs @ [m]) \<and> cw s \<noteq> WSelect \<and> cw s \<noteq> WPong))"

definition cl_inv :: "arhatgopb \<Rightarrow> cl_stream \<Rightarrow> bool" where
  "cl_inv pb s \<longleftrightarrow> cl_cmds_ok pb s \<and> cl_chans_ok s \<and> out_ok pb s"

lemma cl_return_sel [simp]:
  "cl_decoded (cl_return e s) = cl_decoded s" "cl_cmds (cl_return e s) = cl_cmds s" "cr (cl_return e s) = cr s"
  "cw (cl_return e s) = cw s" "cl_out (cl_return e s) = cl_out s" "cl_taken (cl_return e s) = cl_taken s"
  "cl_wg (cl_return e s) \<noteq> None" "ka_closed (cl_return e s) = ka_closed s" "cr_err (cl_return e s) = cr_err s"
  "cmd_closed (cl_return e s) = cmd_closed s" "conn_closed (cl_return e s) = conn_closed s"
  by (simp_all add: cl_return_def split: option.splits)

lemma cl_ending_simps [simp]:
  "\<not> cl_ending CRead" "\<not> cl_ending CPing" "\<not> cl_ending (CForward c)"
  "cl_ending (CRClose e)" "cl_ending (CRReturn e)" "cl_ending CRExit"
  by (simp_all add: cl_ending_def)

lemma cl_cmds_step: "cl_step pb s s' \<Longrightarrow> cl_cmds_ok pb s \<Longrightarrow> cl_cmds_ok pb s'"
  by (erule cl_step.cases) (auto simp: cl_cmds_ok_def Let_def is_ping_def)

lemma cl_chans_step: "cl_step pb s s' \<Longrightarrow> cl_chans_ok s \<Longrightarrow> cl_chans_ok s'"
  by (erule cl_step.cases) (auto simp: cl_chans_ok_def)

lemma out_ok_keep:
  assumes "out_ok pb s" "cl_out s' = cl_out s" "cl_taken s' = cl_taken s" "pings pb s \<le> pings pb s'"
    and "cw s' = cw s \<or> cw s' \<noteq> WSelect \<and> cw s' \<noteq> WPong"
    and "(if cr s' = CPing then 1 else 0) + pings pb s \<le> (if cr s = CPing then 1 else 0) + pings pb s'"
  shows "out_ok pb s'"
proof -
  obtain n msgs where "cl_out s \<in> shuffles (replicate n (pong_msg pb)) msgs"
    "n + (if cw s = WPong then 1 else 0) + (if cr s = CPing then 1 else 0) \<le> pings pb s"
    "cl_taken s = msgs \<or> (\<exists>m. cl_taken s = msgs @ [m]) \<and> cw s \<noteq> WSelect \<and> cw s \<noteq> WPong"
    using assms(1) by (auto simp: out_ok_def)
  then show ?thesis unfolding out_ok_def using assms(2-6)
    by (intro exI [of _ n] exI [of _ msgs]) (auto split: if_splits)
qed

lemma out_ok_step:
  assumes "cl_step pb s s'" "out_ok pb s"
  shows "out_ok pb s'"
proof -
  obtain n msgs where o: "cl_out s \<in> shuffles (replicate n (pong_msg pb)) msgs"
    and n: "n + (if cw s = WPong then 1 else 0) + (if cr s = CPing then 1 else 0) \<le> pings pb s"
    and t: "cl_taken s = msgs \<or> (\<exists>m. cl_taken s = msgs @ [m]) \<and> cw s \<noteq> WSelect \<and> cw s \<noteq> WPong"
    using assms(2) by (auto simp: out_ok_def)
  have pong: "cl_out s @ [pong_msg pb] \<in> shuffles (replicate (Suc n) (pong_msg pb)) msgs"
    using snoc_in_shuffles_left [OF o, of "pong_msg pb"] by (simp add: replicate_append_same)
  from assms(1) show ?thesis
  proof cases
    case cr_keepalive
    with n t o show ?thesis unfolding out_ok_def by (intro exI [of _ n] exI [of _ msgs]) (auto simp: pings_def)
  next
    case cw_pong
    with n t pong show ?thesis unfolding out_ok_def
      by (intro exI [of _ "Suc n"] exI [of _ msgs]) (auto simp: pings_def)
  next
    case (cw_msg msg ms)
    with n t snoc_in_shuffles_right [OF o, of msg] show ?thesis unfolding out_ok_def
      by (intro exI [of _ n] exI [of _ "msgs @ [msg]"]) (auto simp: pings_def)
  next
    case (cw_msg_err msg ms e)
    with n t o show ?thesis unfolding out_ok_def
      by (intro exI [of _ n] exI [of _ msgs]) (auto simp: pings_def)
  qed (use assms(2) in \<open>auto elim!: out_ok_keep simp: pings_def is_ping_def\<close>)
qed

interpretation cls: invariant_system cl_init "cl_step pb" "cl_inv pb" for pb
proof
  fix s s' :: cl_stream
  show "cl_init s \<Longrightarrow> cl_inv pb s"
    by (auto simp: cl_init_def cl_start_def cl_inv_def cl_cmds_ok_def cl_chans_ok_def out_ok_def pings_def
        intro: exI [of _ 0])
  show "cl_step pb s s' \<Longrightarrow> cl_inv pb s \<Longrightarrow> cl_inv pb s'"
    by (auto simp: cl_inv_def intro: cl_cmds_step cl_chans_step out_ok_step)
qed

section \<open>Example runs\<close>

lemma cl_reach_start: "reach cl_init (cl_step pb) cl_start"
  by (rule reach_init) (simp add: cl_init_def)

definition exec_cmd :: Cmd where
  "exec_cmd = \<lparr>cmd_Kind = 4, cmd_Id = 1, cmd_Seq = 1, cmd_Payload = None\<rparr>"

lemma run_forward:
  "reach cl_init (cl_step pb_example) (cl_start\<lparr>cl_decoded := [exec_cmd], cl_cmds := [exec_cmd]\<rparr>)"
proof -
  let ?s1 = "cl_start\<lparr>cl_in := [exec_cmd]\<rparr>" and ?s2 = "cl_start\<lparr>cl_decoded := [exec_cmd], cr := CForward exec_cmd\<rparr>"
  have "reach cl_init (cl_step pb_example) ?s1"
    by (rule reach_step [OF cl_reach_start]) (use cl_peer_cmd [of cl_start] in \<open>simp add: cl_start_def\<close>)
  then have "reach cl_init (cl_step pb_example) ?s2"
    by (rule reach_step)
      (use cr_cmd [of ?s1 exec_cmd "[]" pb_example] in \<open>simp add: cl_start_def exec_cmd_def pb_example_def\<close>)
  then show ?thesis by (rule reach_step) (use cr_forward [of ?s2 exec_cmd] in \<open>simp add: cl_start_def\<close>)
qed

text \<open>The reader meets a broken stream; the writer sees \<open>keepaliveCh\<close> closed and returns first.\<close>

definition lost_state :: cl_stream where
  "lost_state = cl_start\<lparr>cl_end := Some ErrUnexpectedEOF, cr := CRExit, cr_err := Some ErrUnexpectedEOF,
     ka_closed := True, cmd_closed := True, cw := WExit, conn_closed := True, cl_wg := Some EOF\<rparr>"

lemma run_lost: "reach cl_init (cl_step pb) lost_state"
proof -
  let ?e = "cl_end_update (\<lambda>_. Some ErrUnexpectedEOF) cl_start"
  let ?r = "\<lambda>pc closed. ?e\<lparr>cr := pc, cr_err := Some ErrUnexpectedEOF, ka_closed := closed, cmd_closed := closed\<rparr>"
  let ?s4 = "(?r (CRReturn ErrUnexpectedEOF) True)\<lparr>cw := WClose EOF\<rparr>"
  let ?s5 = "(?r (CRReturn ErrUnexpectedEOF) True)\<lparr>cw := WReturn EOF, conn_closed := True\<rparr>"
  let ?s6 = "(?r (CRReturn ErrUnexpectedEOF) True)\<lparr>cw := WExit, conn_closed := True, cl_wg := Some EOF\<rparr>"
  have chk: "checkNetworkReadErr (Some ErrUnexpectedEOF) = Some ErrUnexpectedEOF"
    by (simp add: checkNetworkReadErr_def str_contains_def sublist_code)
  have "reach cl_init (cl_step pb) ?e"
    by (rule reach_step [OF cl_reach_start]) (use cl_peer_end [of cl_start] in \<open>simp add: cl_start_def\<close>)
  then have "reach cl_init (cl_step pb) (?r (CRClose ErrUnexpectedEOF) False)"
    by (rule reach_step) (use cr_fail [of ?e ErrUnexpectedEOF ErrUnexpectedEOF pb] chk in \<open>simp add: cl_start_def\<close>)
  then have "reach cl_init (cl_step pb) (?r (CRReturn ErrUnexpectedEOF) True)"
    by (rule reach_step) (use cr_defer [of "?r (CRClose ErrUnexpectedEOF) False"] in \<open>simp add: cl_start_def\<close>)
  then have "reach cl_init (cl_step pb) ?s4"
    by (rule reach_step) (use cw_ka_closed [of "?r (CRReturn ErrUnexpectedEOF) True"] in \<open>simp add: cl_start_def\<close>)
  then have "reach cl_init (cl_step pb) ?s5"
    by (rule reach_step) (use cw_defer [of ?s4 EOF] in \<open>simp add: cl_start_def\<close>)
  then have "reach cl_init (cl_step pb) ?s6"
    by (rule reach_step) (use cw_exit [of ?s5 EOF] in \<open>simp add: cl_start_def cl_return_def\<close>)
  then show ?thesis
    by (rule reach_step) (use cr_exit [of ?s6 ErrUnexpectedEOF] in \<open>simp add: cl_start_def cl_return_def lost_state_def\<close>)
qed

section \<open>Properties\<close>

text \<open>
  C13. The client forwards faithfully: in every reachable state the commands it has sent
  to \<open>cmdCh\<close> are the decoded commands other than pings, in order and without gaps, except
  that the last one may still be at the select or have been dropped at the end; and what
  it wrote is an interleaving of the messages taken from \<open>msgCh\<close>, in order, with pongs,
  of which there are at most as many as pings.
\<close>

theorem client_forwards_in_order:
  assumes "reach cl_init (cl_step pb) s"
  shows "(filter (\<lambda>c. \<not> is_ping pb c) (cl_decoded s) = cl_cmds s \<or>
          (\<exists>c. filter (\<lambda>c. \<not> is_ping pb c) (cl_decoded s) = cl_cmds s @ [c] \<and> cr s \<noteq> CRead)) \<and>
         (\<exists>n msgs. cl_out s \<in> shuffles (replicate n (pong_msg pb)) msgs \<and>
            n \<le> length (filter (is_ping pb) (cl_decoded s)) \<and> prefix msgs (cl_taken s))"
proof -
  have inv: "cl_cmds_ok pb s" "out_ok pb s" using cls.inv_reach [OF assms] by (auto simp: cl_inv_def)
  obtain n msgs where "cl_out s \<in> shuffles (replicate n (pong_msg pb)) msgs" "n \<le> pings pb s"
    "prefix msgs (cl_taken s)" using inv(2) unfolding out_ok_def by fastforce
  moreover have "filter (\<lambda>c. \<not> is_ping pb c) (cl_decoded s) = cl_cmds s \<or>
      (\<exists>c. filter (\<lambda>c. \<not> is_ping pb c) (cl_decoded s) = cl_cmds s @ [c] \<and> cr s \<noteq> CRead)"
    using inv(1) by (cases "cr s") (auto simp: cl_cmds_ok_def Let_def)
  ultimately show ?thesis unfolding pings_def by blast
qed

theorem client_forwards_in_order_witness:
  "\<exists>s. reach cl_init (cl_step pb_example) s \<and> cl_cmds s = [exec_cmd] \<and>
       filter (\<lambda>c. \<not> is_ping pb_example c) (cl_decoded s) = cl_cmds s"
  using client_forwards_in_order [OF run_forward] run_forward
  by (intro exI [of _ "cl_start\<lparr>cl_decoded := [exec_cmd], cl_cmds := [exec_cmd]\<rparr>"]) (simp add: cl_start_def)

text \<open>
  \<open>ProcessNewStream\<close> cleans up whatever ends it: when it returns, the connection,
  \<open>cmdCh\<close> and \<open>keepaliveCh\<close> are closed, the reader has an error, and until then
  \<open>cmdCh\<close> is open as long as the reader may still send to it.
\<close>

theorem client_cleans_up:
  assumes "reach cl_init (cl_step pb) s"
  shows "(cl_returned s \<longrightarrow> conn_closed s \<and> cmd_closed s \<and> ka_closed s \<and> cr_err s \<noteq> None \<and> cl_wg s \<noteq> None) \<and>
         (\<not> cl_ending (cr s) \<longrightarrow> \<not> cmd_closed s \<and> \<not> ka_closed s)"
proof -
  have "cl_chans_ok s" using cls.inv_reach [OF assms] by (simp add: cl_inv_def)
  then show ?thesis by (cases "cr s") (auto simp: cl_chans_ok_def cl_returned_def)
qed

theorem client_cleans_up_witness:
  "reach cl_init (cl_step pb_example) lost_state \<and> cl_returned lost_state \<and> conn_closed lost_state \<and> cmd_closed lost_state"
  using client_cleans_up [OF run_lost [of pb_example]] run_lost [of pb_example]
  by (simp add: lost_state_def cl_returned_def)

text \<open>
  C38. A read error may be lost: the reader closes \<open>keepaliveCh\<close> before it returns its
  error to the group, so the writer may return \<open>io.EOF\<close> first, and \<open>ProcessNewStream\<close>
  returns nil although the reader failed with \<open>unexpected EOF\<close>.
\<close>

theorem read_error_may_be_lost:
  "\<exists>s. reach cl_init (cl_step pb) s \<and> cl_returned s \<and> cr_err s = Some ErrUnexpectedEOF \<and> process_result s = None"
  using run_lost [of pb]
  by (intro exI [of _ lost_state]) (simp add: lost_state_def cl_returned_def process_result_def)

end
