(* ===== verification/Builtin_Codecs.thy ===== *)
theory Builtin_Codecs
  imports Client
begin

text \<open>
  The two codecs of the repository as \<open>codec.Interface\<close> values and their
  registration: \<open>src/codec/stdjson/codec.go\<close>, a delegation to \<open>encoding/json\<close>, and
  the \<open>Codec\<close> type of \<open>src/codec/gogoprotobuf/codec.go\<close> around the stream codec of
  the theory \<open>Codec\<close>. What the marshalling code of the generated structs does is
  outside the repository: \<open>json_pkg\<close> and \<open>gogo\<close> are arguments.
\<close>

section \<open>The JSON codec\<close>

text \<open>
  \<open>encoding/json\<close> on the structs of \<open>arhatgopb\<close>: \<open>json.NewEncoder(w).Encode\<close> into
  a buffer, \<open>json.NewDecoder(r).Decode\<close> into a new \<open>Msg\<close> with the reader it leaves,
  \<open>json.Marshal\<close> and \<open>json.Unmarshal\<close>, which fills an existing value.
\<close>

record 'v json_pkg =
  json_Encode :: "Msg \<Rightarrow> error + bytes"
  json_Decode :: "reader \<Rightarrow> (error + Msg) \<times> reader"
  json_Marshal :: "'v body \<Rightarrow> error + bytes"
  json_Unmarshal :: "bytes \<Rightarrow> 'v body \<Rightarrow> 'v body \<times> error option"

text \<open>\<open>regMsg := new(arhatgopb.RegisterMsg)\<close>, unmarshalled into and read.\<close>

definition read_register :: "('v body \<Rightarrow> 'v body \<times> error option) \<Rightarrow> error + string \<times> int32 \<times> int32" where
  "read_register unmarshal =
     (case unmarshal (RegisterMsg '''' 0 0) of
        (out, Some err) \<Rightarrow> Inl err
      | (out, None) \<Rightarrow> Inr (reg_Name out, reg_ExtensionType out, reg_Codec out))"

definition stdjson_Codec :: "arhatgopb \<Rightarrow> 'v json_pkg \<Rightarrow> 'v codec_iface" where
  "stdjson_Codec pb J =
     \<lparr>cd_Type = CODEC_JSON pb,
      cd_Encode = json_Encode J,
      cd_Decode = (\<lambda>r. Ret (json_Decode J r)),
      cd_Marshal = json_Marshal J,
      cd_UnmarshalReg = (\<lambda>p. read_register (json_Unmarshal J (slice_bytes p)))\<rparr>"

definition stdjson_init ::
  "arhatgopb \<Rightarrow> 'v json_pkg \<Rightarrow> (int32 \<rightharpoonup> 'v codec_iface) \<Rightarrow> (int32 \<rightharpoonup> 'v codec_iface)" where
  "stdjson_init pb J = Register (CODEC_JSON pb) (stdjson_Codec pb J)"

section \<open>The protobuf codec\<close>

text \<open>
  The generated code for messages and for bodies, what the runtime and the network decide
  (\<open>gp_pick\<close> and \<open>gp_pool\<close>: the buffer the pool hands out; \<open>gp_ahead\<close>: how many bytes
  beyond the message the decoder's \<open>bufio.Reader\<close> already took from the connection).
\<close>

record 'v gogo_pkg =
  gp_Msg :: "Msg gogo"
  gp_body :: "'v body gogo"
  gp_pick :: "nat option"
  gp_pool :: pool
  gp_ahead :: nat

definition empty_Msg :: Msg where
  "empty_Msg = \<lparr>msg_Kind = 0, msg_Id = 0, msg_Ack = 0, msg_Payload = None\<rparr>"

definition gogo_Encode :: "'v gogo_pkg \<Rightarrow> Msg \<Rightarrow> (error option \<times> pool \<times> bytes) outcome" where
  "gogo_Encode G m = Encode (gp_Msg G) buf_write (gp_pick G) (gp_pool G) [] m"

definition gogo_Decode :: "'v gogo_pkg \<Rightarrow> reader \<Rightarrow> ((error + Msg) \<times> reader) outcome" where
  "gogo_Decode G r =
     bind_outcome (Decode (gp_Msg G) (gp_pick G) (gp_pool G) r empty_Msg) (\<lambda>(e, _, r', out).
       Ret (case e of Some err \<Rightarrow> Inl err | None \<Rightarrow> Inr out, r'\<lparr>rd_data := drop (gp_ahead G) (rd_data r')\<rparr>))"

text \<open>
  A size of ten bytes always fits the buffer, so \<open>Encode\<close> returns (see
  \<open>gogo_Encode_returns\<close>).
\<close>

definition gogo_Codec :: "arhatgopb \<Rightarrow> 'v gogo_pkg \<Rightarrow> 'v codec_iface" where
  "gogo_Codec pb G =
     \<lparr>cd_Type = CODEC_PROTOBUF pb,
      cd_Encode = (\<lambda>m. case gogo_Encode G m of
          Ret (Some err, _, _) \<Rightarrow> Inl err
        | Ret (None, _, w) \<Rightarrow> Inr w
        | Panic p \<Rightarrow> Inl (Errorf p)),
      cd_Decode = gogo_Decode G,
      cd_Marshal = Codec_Marshal (gp_body G),
      cd_UnmarshalReg = (\<lambda>p. read_register (Codec_Unmarshal (gp_body G) (slice_bytes p)))\<rparr>"

definition gogoprotobuf_init ::
  "arhatgopb \<Rightarrow> 'v gogo_pkg \<Rightarrow> (int32 \<rightharpoonup> 'v codec_iface) \<Rightarrow> (int32 \<rightharpoonup> 'v codec_iface)" where
  "gogoprotobuf_init pb G = Register (CODEC_PROTOBUF pb) (gogo_Codec pb G)"

text \<open>The registry of a program that imports both packages, whatever the order of their \<open>init\<close>.\<close>

definition builtin_codecs :: "arhatgopb \<Rightarrow> 'v json_pkg \<Rightarrow> 'v gogo_pkg \<Rightarrow> bool \<Rightarrow> (int32 \<rightharpoonup> 'v codec_iface)" where
  "builtin_codecs pb J G json_first =
     (if json_first then gogoprotobuf_init pb G (stdjson_init pb J Map.empty)
      else stdjson_init pb J (gogoprotobuf_init pb G Map.empty))"

lemma gogo_Encode_returns:
  "\<exists>p'. gogo_Encode G m =
     (case encode_data (gp_Msg G) m of
        Inl e \<Rightarrow> Ret (Some e, gp_pool G, [])
      | Inr d \<Rightarrow> Ret (None, p', frame d))"
  using Encode_eq [of "gp_Msg G" buf_write "gp_pick G" "gp_pool G" "[]" m]
  by (auto simp: gogo_Encode_def buf_write_def frame_def split: sum.splits)

lemma builtin_codecs_apply:
  "arhatgopb_distinct pb \<Longrightarrow> builtin_codecs pb J G jf k =
     (if k = CODEC_JSON pb then Some (stdjson_Codec pb J)
      else if k = CODEC_PROTOBUF pb then Some (gogo_Codec pb G) else None)"
  by (auto simp: builtin_codecs_def stdjson_init_def gogoprotobuf_init_def Register_def
      arhatgopb_distinct_def codec_kinds_def)

section \<open>The handshake\<close>

text \<open>
  What the handshake relies on of the JSON codec: the registration message it encodes is
  decoded again, whatever follows it on the connection, and its payload is unmarshalled to
  the same fields.
\<close>

definition json_register_ok ::
  "arhatgopb \<Rightarrow> 'v codec_iface \<Rightarrow> string \<Rightarrow> int32 \<Rightarrow> int32 \<Rightarrow> bool" where
  "json_register_ok pb j name kind cd \<longleftrightarrow>
     (\<forall>p b. cd_Marshal j (RegisterMsg name kind cd) = Inr p \<longrightarrow>
        cd_Encode j \<lparr>msg_Kind = MSG_REGISTER pb, msg_Id = 0, msg_Ack = 0, msg_Payload = Some p\<rparr> = Inr b \<longrightarrow>
        cd_UnmarshalReg j (Some p) = Inr (name, kind, cd) \<and>
        (\<forall>rest e. \<exists>conn'. cd_Decode j \<lparr>rd_data = b @ rest, rd_err = e\<rparr> =
           Ret (Inr \<lparr>msg_Kind = MSG_REGISTER pb, msg_Id = 0, msg_Ack = 0, msg_Payload = Some p\<rparr>, conn')))"

lemma register_accepted:
  assumes "NewClient N pb codecs kind name c url tls = Inr cl"
    and "\<And>j. Get (CODEC_JSON pb) codecs = Some j \<Longrightarrow> json_register_ok pb j name kind (cd_Type c)"
    and "Get (cd_Type c) codecs = Some c'"
  shows "\<exists>conn'. validateConnection pb cs codecs \<lparr>rd_data = cl_regMsg cl @ rest, rd_err = e\<rparr> =
           Ret (Inr (kind, name, c'), conn')"
proof -
  let ?reg = "\<lambda>p. \<lparr>msg_Kind = MSG_REGISTER pb, msg_Id = 0, msg_Ack = 0, msg_Payload = Some p\<rparr>"
  from assms(1) obtain j p b where j: "Get (CODEC_JSON pb) codecs = Some j"
    and p: "cd_Marshal j (RegisterMsg name kind (cd_Type c)) = Inr p"
    and b: "cd_Encode j (?reg p) = Inr b" "cl_regMsg cl = b"
    by (auto simp: NewClient_def NewMsg_def split: sum.splits option.splits)
  from assms(2) [OF j] p b(1) have u: "cd_UnmarshalReg j (Some p) = Inr (name, kind, cd_Type c)"
    and dec: "\<forall>rest e. \<exists>conn'. cd_Decode j \<lparr>rd_data = b @ rest, rd_err = e\<rparr> = Ret (Inr (?reg p), conn')"
    unfolding json_register_ok_def by blast+
  obtain conn' where "cd_Decode j \<lparr>rd_data = b @ rest, rd_err = e\<rparr> = Ret (Inr (?reg p), conn')" using dec by blast
  then show ?thesis by (simp add: validateConnection_def j u b(2) assms(3))
qed

text \<open>
  C21. The codec announced in a registration is the codec the server uses: when a client of
  a program that imports both codec packages is made with one of them, a server of another
  such program, whatever the order of the \<open>init\<close> functions in either, accepts the
  registration message with the client's kind and name and answers with its own instance
  of the same codec, whose \<open>Type\<close> is the client's.
\<close>

theorem builtin_codec_agreed:
  assumes "arhatgopb_distinct pb" and "Get k (builtin_codecs pb J G jf) = Some c"
    and "NewClient N pb (builtin_codecs pb J G jf) kind name c url tls = Inr cl"
    and "json_register_ok pb (stdjson_Codec pb J) name kind (cd_Type c)"
  shows "\<exists>c' conn'. validateConnection pb cs (builtin_codecs pb J G' jf') \<lparr>rd_data = cl_regMsg cl @ rest, rd_err = e\<rparr> =
             Ret (Inr (kind, name, c'), conn') \<and>
           cd_Type c' = k \<and> cd_Type c = k \<and>
           (c = stdjson_Codec pb J \<and> c' = stdjson_Codec pb J \<or> c = gogo_Codec pb G \<and> c' = gogo_Codec pb G')"
proof -
  let ?client = "builtin_codecs pb J G jf" and ?server = "builtin_codecs pb J G' jf'"
  note get = builtin_codecs_apply [OF assms(1)]
  have c: "cd_Type c = k" "c = stdjson_Codec pb J \<or> c = gogo_Codec pb G"
    using assms(2) by (auto simp: Get_def get stdjson_Codec_def gogo_Codec_def split: if_splits)
  have json: "Get (CODEC_JSON pb) ?client = Get (CODEC_JSON pb) ?server" by (simp add: Get_def get)
  have "NewClient N pb ?server kind name c url tls = Inr cl"
    using assms(3) by (simp only: NewClient_def json)
  moreover obtain c' where c': "Get (cd_Type c) ?server = Some c'" "cd_Type c' = k"
    "c = stdjson_Codec pb J \<and> c' = stdjson_Codec pb J \<or> c = gogo_Codec pb G \<and> c' = gogo_Codec pb G'"
    using assms(1,2) c by (auto simp: Get_def get stdjson_Codec_def gogo_Codec_def arhatgopb_distinct_def codec_kinds_def
        split: if_splits)
  moreover have "json_register_ok pb j name kind (cd_Type c)" if "Get (CODEC_JSON pb) ?server = Some j" for j
    using that assms(4) by (simp add: Get_def get)
  ultimately obtain conn' where "validateConnection pb cs ?server \<lparr>rd_data = cl_regMsg cl @ rest, rd_err = e\<rparr> =
      Ret (Inr (kind, name, c'), conn')" using register_accepted by blast
  with c c' show ?thesis by blast
qed

text \<open>A JSON package that knows one registration.\<close>

definition json_example :: "unit json_pkg" where
  "json_example =
     \<lparr>json_Encode = (\<lambda>m. Inr (slice_bytes (msg_Payload m))),
      json_Decode = (\<lambda>r. case rd_data r of
          [] \<Rightarrow> (Inl (rd_err r), r)
        | b # bs \<Rightarrow> (Inr \<lparr>msg_Kind = 2, msg_Id = 0, msg_Ack = 0, msg_Payload = Some [b]\<rparr>, r\<lparr>rd_data := bs\<rparr>)),
      json_Marshal = (\<lambda>b. Inr [7]),
      json_Unmarshal = (\<lambda>d out. if d = [7] then (RegisterMsg ''ext'' 5 2, None) else (out, Some (ExtErr ''bad json'')))\<rparr>"

definition gogo_pkg_example :: "nat \<Rightarrow> unit gogo_pkg" where
  "gogo_pkg_example n =
     \<lparr>gp_Msg = \<lparr>is_Message = (\<lambda>_. True), is_Marshaler = (\<lambda>_. False), Marshaler_Marshal = (\<lambda>_. Inr []),
        proto_Marshal = (\<lambda>_. Inr []), Buffer_Unmarshal = (\<lambda>_ out. (out, None))\<rparr>,
      gp_body = \<lparr>is_Message = (\<lambda>_. True), is_Marshaler = (\<lambda>_. False), Marshaler_Marshal = (\<lambda>_. Inr []),
        proto_Marshal = (\<lambda>_. Inr []), Buffer_Unmarshal = (\<lambda>_ out. (out, None))\<rparr>,
      gp_pick = None, gp_pool = [], gp_ahead = n\<rparr>"

theorem builtin_codec_agreed_witness:
  "\<exists>cl c' conn'. NewClient netenv_example pb_example (builtin_codecs pb_example json_example (gogo_pkg_example 0) True)
       5 ''ext'' (gogo_Codec pb_example (gogo_pkg_example 0)) ''localhost:1'' (None :: unit option) = Inr cl \<and>
     validateConnection pb_example (\<lambda>_. ''?'') (builtin_codecs pb_example json_example (gogo_pkg_example 3) False)
       \<lparr>rd_data = cl_regMsg cl @ [9], rd_err = EOF\<rparr> = Ret (Inr (5, ''ext'', c'), conn') \<and> cd_Type c' = 2"
proof -
  let ?c = "gogo_Codec pb_example (gogo_pkg_example 0)"
  let ?reg = "\<lambda>n. builtin_codecs pb_example json_example (gogo_pkg_example n)"
  have k: "Get 2 (?reg 0 True) = Some ?c"
    by (simp add: Get_def builtin_codecs_apply [OF pb_example_distinct]) (simp add: pb_example_def)
  obtain cl where cl: "NewClient netenv_example pb_example (?reg 0 True) 5 ''ext'' ?c ''localhost:1'' (None :: unit option) = Inr cl"
    by (simp add: NewClient_def netenv_example_def Get_def builtin_codecs_apply [OF pb_example_distinct]
        NewMsg_def stdjson_Codec_def json_example_def)
  have "json_register_ok pb_example (stdjson_Codec pb_example json_example) ''ext'' 5 (cd_Type ?c)"
    by (simp add: json_register_ok_def stdjson_Codec_def json_example_def gogo_Codec_def pb_example_def read_register_def)
  from builtin_codec_agreed [OF pb_example_distinct k cl this, of "\<lambda>_. ''?''" "gogo_pkg_example 3" False "[9]" EOF] cl
  show ?thesis by blast
qed

end
