(* ===== verification/Runtime.thy ===== *)
theory Runtime
  imports Controller Seq_Counter
begin

text \<open>
  \<open>src/extruntime\<close>: the handler of runtime extensions. The engine behind it
  (\<open>RuntimeEngine\<close> of \<open>types.go\<close>) is implemented by the extension and is the
  parameter \<open>R\<close>, acting on the world \<open>'e\<close>; the generated code of \<open>aranya-proto\<close>
  (enum constants, marshalling) is the parameter \<open>A\<close>.
\<close>

section \<open>Parameters\<close>

text \<open>
  An \<open>aranyagopb.ErrorMsg\<close>; \<open>opts\<close> and results of the pod and image operations are
  of generated types, \<open>'o\<close> and \<open>'r\<close>.
\<close>

record ErrorMsg =
  em_Kind :: int32
  em_Description :: string
  em_Code :: int

record Packet =
  pkt_Kind :: int32
  pkt_Payload :: slice

record exec_opts =
  eo_PodUid :: string
  eo_Container :: string
  eo_Command :: "string list"
  eo_Stdin :: bool
  eo_Stdout :: bool
  eo_Stderr :: bool
  eo_Tty :: bool

record RuntimeInfo =
  ri_Name :: string
  ri_Version :: string
  ri_Os :: string
  ri_OsImage :: string
  ri_Arch :: string
  ri_KernelVersion :: string

record ('o, 'r) aranyagopb =
  CMD_GET_INFO :: int32
  CMD_EXEC :: int32
  CMD_ATTACH :: int32
  CMD_LOGS :: int32
  CMD_TTY_RESIZE :: int32
  CMD_PORT_FORWARD :: int32
  CMD_IMAGE_LIST :: int32
  CMD_IMAGE_ENSURE :: int32
  CMD_IMAGE_DELETE :: int32
  CMD_POD_LIST :: int32
  CMD_POD_ENSURE :: int32
  CMD_POD_DELETE :: int32
  MSG_RUNTIME_INFO :: int32
  MSG_POD_STATUS_LIST :: int32
  MSG_POD_STATUS :: int32
  MSG_IMAGE_STATUS_LIST :: int32
  ERR_COMMON :: int32
  DefaultExitCodeOnError :: int
  pb_UnmarshalPacket :: "slice \<Rightarrow> error + Packet"
  pb_MarshalPacket :: "Packet \<Rightarrow> error + bytes"
  pb_MarshalErr :: "ErrorMsg \<Rightarrow> error + bytes"
  pb_MarshalInfo :: "RuntimeInfo \<Rightarrow> error + bytes"
  pb_Unmarshal :: "int32 \<Rightarrow> slice \<Rightarrow> error + 'o"
  pb_Marshal :: "'r \<Rightarrow> error + bytes"
  pb_UnmarshalExec :: "slice \<Rightarrow> error + exec_opts"
  pb_UnmarshalResize :: "slice \<Rightarrow> error + u32 \<times> u32"

text \<open>
  The engine. \<open>Exec\<close> and \<open>Attach\<close> get the options and whether stdin is a pipe (else
  nil); they yield whether the resize function is nil.
\<close>

record ('o, 'r, 'e) RuntimeEngine =
  re_Info :: RuntimeInfo
  re_Exec :: "exec_opts \<Rightarrow> bool \<Rightarrow> 'e \<Rightarrow> (error + bool) \<times> 'e"
  re_Attach :: "exec_opts \<Rightarrow> bool \<Rightarrow> 'e \<Rightarrow> (error + bool) \<times> 'e"
  re_Logs :: "'o \<Rightarrow> 'e \<Rightarrow> error option \<times> 'e"
  re_PortForward :: "'o \<Rightarrow> 'e \<Rightarrow> (error + bool) \<times> 'e"
  re_EnsurePod :: "'o \<Rightarrow> 'e \<Rightarrow> (error + 'r) \<times> 'e"
  re_DeletePod :: "'o \<Rightarrow> 'e \<Rightarrow> (error + 'r) \<times> 'e"
  re_ListPods :: "'o \<Rightarrow> 'e \<Rightarrow> (error + 'r) \<times> 'e"
  re_EnsureImages :: "'o \<Rightarrow> 'e \<Rightarrow> (error + 'r) \<times> 'e"
  re_DeleteImages :: "'o \<Rightarrow> 'e \<Rightarrow> (error + 'r) \<times> 'e"
  re_ListImages :: "'o \<Rightarrow> 'e \<Rightarrow> (error + 'r) \<times> 'e"

section \<open>Request handlers\<close>

text \<open>The body the six pod and image handlers share: unmarshal, call, marshal.\<close>

definition unary_op ::
  "('o, 'r) aranyagopb \<Rightarrow> int32 \<Rightarrow> ('o \<Rightarrow> 'e \<Rightarrow> (error + 'r) \<times> 'e) \<Rightarrow> int32 \<Rightarrow> slice \<Rightarrow> 'e
     \<Rightarrow> (error + Packet option) \<times> 'e" where
  "unary_op A cmd op reply payload e =
     (case pb_Unmarshal A cmd payload of
        Inl err \<Rightarrow> (Inl err, e)
      | Inr opts \<Rightarrow>
          (case op opts e of
             (Inl err, e') \<Rightarrow> (Inl err, e')
           | (Inr msg, e') \<Rightarrow>
               (case pb_Marshal A msg of
                  Inl err \<Rightarrow> (Inl err, e')
                | Inr dat \<Rightarrow> (Inr (Some \<lparr>pkt_Kind = reply, pkt_Payload = Some dat\<rparr>), e'))))"

definition handleImageList where
  "handleImageList A R = unary_op A (CMD_IMAGE_LIST A) (re_ListImages R) (MSG_IMAGE_STATUS_LIST A)"

definition handleImageEnsure where
  "handleImageEnsure A R = unary_op A (CMD_IMAGE_ENSURE A) (re_EnsureImages R) (MSG_IMAGE_STATUS_LIST A)"

definition handleImageDelete where
  "handleImageDelete A R = unary_op A (CMD_IMAGE_DELETE A) (re_DeleteImages R) (MSG_IMAGE_STATUS_LIST A)"

definition handlePodList where
  "handlePodList A R = unary_op A (CMD_POD_LIST A) (re_ListPods R) (MSG_POD_STATUS_LIST A)"

definition handlePodEnsure where
  "handlePodEnsure A R = unary_op A (CMD_POD_ENSURE A) (re_EnsurePod R) (MSG_POD_STATUS A)"

definition handlePodDelete where
  "handlePodDelete A R = unary_op A (CMD_POD_DELETE A) (re_DeletePod R) (MSG_POD_STATUS A)"

definition handleGetInfo ::
  "('o, 'r) aranyagopb \<Rightarrow> ('o, 'r, 'e) RuntimeEngine \<Rightarrow> slice \<Rightarrow> 'e \<Rightarrow> (error + Packet option) \<times> 'e" where
  "handleGetInfo A R payload e =
     (case pb_MarshalInfo A (re_Info R) of
        Inl err \<Rightarrow> (Inl err, e)
      | Inr dat \<Rightarrow> (Inr (Some \<lparr>pkt_Kind = MSG_RUNTIME_INFO A, pkt_Payload = Some dat\<rparr>), e))"

text \<open>The entries of \<open>funcMap\<close> that answer with a packet.\<close>

definition unary_funcMap ::
  "('o, 'r) aranyagopb \<Rightarrow> ('o, 'r, 'e) RuntimeEngine \<Rightarrow> int32
     \<rightharpoonup> (slice \<Rightarrow> 'e \<Rightarrow> (error + Packet option) \<times> 'e)" where
  "unary_funcMap A R =
     [CMD_GET_INFO A \<mapsto> handleGetInfo A R,
      CMD_IMAGE_LIST A \<mapsto> handleImageList A R, CMD_IMAGE_ENSURE A \<mapsto> handleImageEnsure A R,
      CMD_IMAGE_DELETE A \<mapsto> handleImageDelete A R,
      CMD_POD_LIST A \<mapsto> handlePodList A R, CMD_POD_ENSURE A \<mapsto> handlePodEnsure A R,
      CMD_POD_DELETE A \<mapsto> handlePodDelete A R]"

section \<open>Errors of a stream operation\<close>

text \<open>What \<open>collectStreamErrors\<close> receives; \<open>None\<close> is a nil error on an open channel.\<close>

datatype err_event = ErrCh "ErrorMsg option" | ErrChClosed | CtxDone error

definition merge_err :: "ErrorMsg option \<Rightarrow> ErrorMsg \<Rightarrow> ErrorMsg" where
  "merge_err acc e =
     (case acc of
        None \<Rightarrow> e
      | Some errMsg \<Rightarrow>
          (let m1 = (if em_Code e \<noteq> 0 \<and> em_Code errMsg = 0 then errMsg\<lparr>em_Code := em_Code e\<rparr> else errMsg) in
           m1\<lparr>em_Description := em_Description m1 @ ''; '' @ em_Description e\<rparr>))"

text \<open>\<open>None\<close>: the loop still waits for an event.\<close>

fun collect_loop ::
  "('o, 'r) aranyagopb \<Rightarrow> ErrorMsg option \<Rightarrow> err_event list \<Rightarrow> ErrorMsg option option" where
  "collect_loop A acc [] = None"
| "collect_loop A acc (CtxDone err # evs) =
     Some (Some \<lparr>em_Kind = ERR_COMMON A, em_Description = err_string err, em_Code = DefaultExitCodeOnError A\<rparr>)"
| "collect_loop A acc (ErrChClosed # evs) = Some acc"
| "collect_loop A acc (ErrCh None # evs) = collect_loop A acc evs"
| "collect_loop A acc (ErrCh (Some e) # evs) = collect_loop A (Some (merge_err acc e)) evs"

definition collectStreamErrors :: "('o, 'r) aranyagopb \<Rightarrow> err_event list \<Rightarrow> ErrorMsg option option" where
  "collectStreamErrors A evs = collect_loop A None evs"

section \<open>Stream operations\<close>

definition common_err :: "('o, 'r) aranyagopb \<Rightarrow> error \<Rightarrow> ErrorMsg" where
  "common_err A err = \<lparr>em_Kind = ERR_COMMON A, em_Description = err_string err, em_Code = 0\<rparr>"

text \<open>A marshalling error is ignored: the payload is then nil.\<close>

definition marshal_or_nil :: "('o, 'r) aranyagopb \<Rightarrow> ErrorMsg \<Rightarrow> slice" where
  "marshal_or_nil A em = (case pb_MarshalErr A em of Inl _ \<Rightarrow> None | Inr d \<Rightarrow> Some d)"

text \<open>The last message of a stream, with the next sequence number.\<close>

definition last_msg :: "arhatgopb \<Rightarrow> ('o, 'r) aranyagopb \<Rightarrow> u64 \<Rightarrow> u64 \<Rightarrow> ErrorMsg option \<Rightarrow> Msg" where
  "last_msg pb A sid sq err =
     (case err of
        None \<Rightarrow> \<lparr>msg_Kind = MSG_DATA_OUTPUT pb, msg_Id = sid, msg_Ack = fst (nextSeq sq), msg_Payload = None\<rparr>
      | Some em \<Rightarrow>
          \<lparr>msg_Kind = MSG_ERROR pb, msg_Id = sid, msg_Ack = fst (nextSeq sq), msg_Payload = marshal_or_nil A em\<rparr>)"

text \<open>
  The deferred function of \<open>handleStreamOperation\<close> once the uploads are over: it sends
  the last message and deletes the session.
\<close>

definition stream_finish ::
  "arhatgopb \<Rightarrow> ('o, 'r) aranyagopb \<Rightarrow> 'w BaseHandler \<Rightarrow> u64 \<Rightarrow> u64 \<Rightarrow> ErrorMsg option
     \<Rightarrow> 'q StreamManager \<Rightarrow> 'w \<Rightarrow> 'q StreamManager \<times> 'w" where
  "stream_finish pb A h sid sq err m w =
     (case SendMsg h (last_msg pb A sid sq err) w of (_, w') \<Rightarrow> (Del sid m, w'))"

text \<open>
  The \<open>run\<close> functions of exec and attach: with stdin the engine is called under
  \<open>streams.Add\<close>; its error becomes an error message, else the error channel is drained.
  \<open>op\<close> is \<open>Exec\<close> or \<open>Attach\<close>, \<open>evs\<close> what arrives on the error channel.
\<close>

definition exec_run ::
  "('o, 'r) aranyagopb \<Rightarrow> wellknownerrors \<Rightarrow> 'q SeqQueue \<Rightarrow> (exec_opts \<Rightarrow> bool \<Rightarrow> 'e \<Rightarrow> (error + bool) \<times> 'e)
     \<Rightarrow> u64 \<Rightarrow> exec_opts \<Rightarrow> err_event list \<Rightarrow> 'q StreamManager \<Rightarrow> 'e
     \<Rightarrow> ErrorMsg option option \<times> 'q StreamManager \<times> 'e" where
  "exec_run A we Q op sid opts evs m e =
     (case (if eo_Stdin opts then Add we Q sid (op opts True) m e
            else (case op opts False e of
                    (Inl err, e') \<Rightarrow> (Some err, m, e')
                  | (Inr _, e') \<Rightarrow> (None, m, e'))) of
        (Some err, m', e') \<Rightarrow> (Some (Some (common_err A err)), m', e')
      | (None, m', e') \<Rightarrow> (collectStreamErrors A evs, m', e'))"

text \<open>
  \<open>handleExec\<close> and \<open>handleAttach\<close>. \<open>sq\<close> is the counter after the uploads. The
  result is \<open>None\<close> while the operation waits on its error channel, else what the handler
  returns to \<open>HandleCmd\<close>.
\<close>

definition handleExecAttach ::
  "arhatgopb \<Rightarrow> ('o, 'r) aranyagopb \<Rightarrow> wellknownerrors \<Rightarrow> 'q SeqQueue
     \<Rightarrow> (exec_opts \<Rightarrow> bool \<Rightarrow> 'e \<Rightarrow> (error + bool) \<times> 'e) \<Rightarrow> 'w BaseHandler \<Rightarrow> u64 \<Rightarrow> slice \<Rightarrow> u64 \<Rightarrow> err_event list
     \<Rightarrow> 'q StreamManager \<Rightarrow> 'e \<Rightarrow> 'w \<Rightarrow> (error + Packet option) option \<times> 'q StreamManager \<times> 'e \<times> 'w" where
  "handleExecAttach pb A we Q op h sid payload sq evs m e w =
     (case pb_UnmarshalExec A payload of
        Inl err \<Rightarrow> (Some (Inl err), m, e, w)
      | Inr opts \<Rightarrow>
          (case exec_run A we Q op sid opts evs m e of
             (None, m', e') \<Rightarrow> (None, m', e', w)
           | (Some err, m', e') \<Rightarrow>
               (case stream_finish pb A h sid sq err m' w of (m'', w') \<Rightarrow> (Some (Inr None), m'', e', w'))))"

definition handleExec where
  "handleExec pb A we Q R = handleExecAttach pb A we Q (re_Exec R)"

definition handleAttach where
  "handleAttach pb A we Q R = handleExecAttach pb A we Q (re_Attach R)"

definition handleLogs ::
  "arhatgopb \<Rightarrow> ('o, 'r) aranyagopb \<Rightarrow> ('o, 'r, 'e) RuntimeEngine \<Rightarrow> 'w BaseHandler \<Rightarrow> u64 \<Rightarrow> slice \<Rightarrow> u64
     \<Rightarrow> 'q StreamManager \<Rightarrow> 'e \<Rightarrow> 'w \<Rightarrow> (error + Packet option) \<times> 'q StreamManager \<times> 'e \<times> 'w" where
  "handleLogs pb A R h sid payload sq m e w =
     (case pb_Unmarshal A (CMD_LOGS A) payload of
        Inl err \<Rightarrow> (Inl err, m, e, w)
      | Inr opts \<Rightarrow>
          (case re_Logs R opts e of
             (err, e') \<Rightarrow>
               (case stream_finish pb A h sid sq (map_option (common_err A) err) m w of
                  (m', w') \<Rightarrow> (Inr None, m', e', w'))))"

definition handleTtyResize ::
  "('o, 'r) aranyagopb \<Rightarrow> u64 \<Rightarrow> slice \<Rightarrow> 'q StreamManager \<Rightarrow> (error + Packet option) \<times> 'q StreamManager" where
  "handleTtyResize A sid payload m =
     (case pb_UnmarshalResize A payload of
        Inl err \<Rightarrow> (Inl err, m)
      | Inr (cols, rows) \<Rightarrow> (Inr None, Resize sid cols rows m))"

section \<open>Port forwarding\<close>

text \<open>
  \<open>closeFunc\<close> of the session's writer: the delay after which the pipe is closed,
  \<open>closeWrite\<close> called and \<open>downstream\<close> closed, or \<open>None\<close> when nothing is started.
  \<open>pending\<close> are the unread bytes of the pipe, when it is an \<open>*os.File\<close>; durations
  are in nanoseconds, and the divisions are on integers.
\<close>

definition Second :: int where
  "Second = 1000000000"

definition pf_closeFunc :: "int option \<Rightarrow> int option" where
  "pf_closeFunc pending =
     (case pending of
        None \<Rightarrow> Some (5 * Second)
      | Some n \<Rightarrow> (let wait = n div 1024 div 100 * Second in if wait > 0 then Some wait else None))"

text \<open>The drain of the error channel; \<open>Inl\<close>: the context ended, \<open>Inr ()\<close>: channel closed.\<close>

datatype pf_event = PfErr "error option" | PfClosed | PfDone

definition pf_merge :: "error option \<Rightarrow> error \<Rightarrow> error" where
  "pf_merge err x = (case err of None \<Rightarrow> x | Some y \<Rightarrow> Errorf (err_string y @ ''; '' @ err_string x))"

fun pf_drain :: "error option \<Rightarrow> pf_event list \<Rightarrow> error option option" where
  "pf_drain err [] = None"
| "pf_drain err (PfDone # evs) = Some err"
| "pf_drain err (PfClosed # evs) = Some err"
| "pf_drain err (PfErr None # evs) = pf_drain err evs"
| "pf_drain err (PfErr (Some x) # evs) = pf_drain (Some (pf_merge err x)) evs"

text \<open>
  \<open>handlePortForward\<close>. The engine yields an error or whether a required return value is
  missing. \<open>sq\<close> is the counter after the upload of \<open>downstream\<close>.
\<close>

definition pf_create :: "('o \<Rightarrow> 'e \<Rightarrow> (error + bool) \<times> 'e) \<Rightarrow> 'o \<Rightarrow> 'e \<Rightarrow> (error + bool) \<times> 'e" where
  "pf_create op opts e =
     (case op opts e of
        (Inl err, e') \<Rightarrow> (Inl err, e')
      | (Inr True, e') \<Rightarrow>
          (Inl (Errorf ''bad port-forward implementation, missing required return values''), e')
      | (Inr False, e') \<Rightarrow> (Inr True, e'))"

definition handlePortForward ::
  "arhatgopb \<Rightarrow> ('o, 'r) aranyagopb \<Rightarrow> wellknownerrors \<Rightarrow> 'q SeqQueue \<Rightarrow> ('o, 'r, 'e) RuntimeEngine
     \<Rightarrow> 'w BaseHandler \<Rightarrow> u64 \<Rightarrow> slice \<Rightarrow> u64 \<Rightarrow> pf_event list \<Rightarrow> 'q StreamManager \<Rightarrow> 'e \<Rightarrow> 'w
     \<Rightarrow> (error + Packet option) option \<times> 'q StreamManager \<times> 'e \<times> 'w" where
  "handlePortForward pb A we Q R h sid payload sq evs m e w =
     (case pb_Unmarshal A (CMD_PORT_FORWARD A) payload of
        Inl err \<Rightarrow> (Some (Inl err), m, e, w)
      | Inr opts \<Rightarrow>
          (case Add we Q sid (pf_create (re_PortForward R) opts) m e of
             (Some err, m', e') \<Rightarrow>
               (case stream_finish pb A h sid 0 (Some (common_err A err)) m' w of
                  (m'', w') \<Rightarrow> (Some (Inl err), m'', e', w'))
           | (None, m', e') \<Rightarrow>
               (case pf_drain None evs of
                  None \<Rightarrow> (None, m', e', w)
                | Some err \<Rightarrow>
                    (case stream_finish pb A h sid sq (map_option (common_err A) err) m' w of
                       (m'', w') \<Rightarrow> (Some (Inr None), m'', e', w')))))"

section \<open>Commands\<close>

text \<open>
  \<open>HandleCmd\<close> answers data commands and errors at once; a runtime packet starts a
  goroutine, described by the packet.
\<close>

definition rt_kinds :: "('o, 'r) aranyagopb \<Rightarrow> int32 list" where
  "rt_kinds A =
     [CMD_GET_INFO A, CMD_EXEC A, CMD_ATTACH A, CMD_LOGS A, CMD_TTY_RESIZE A, CMD_PORT_FORWARD A,
      CMD_IMAGE_LIST A, CMD_IMAGE_ENSURE A, CMD_IMAGE_DELETE A, CMD_POD_LIST A, CMD_POD_ENSURE A,
      CMD_POD_DELETE A]"

definition rt_HandleCmd ::
  "arhatgopb \<Rightarrow> ('o, 'r) aranyagopb \<Rightarrow> 'q SeqQueue \<Rightarrow> Cmd \<Rightarrow> 'q StreamManager
     \<Rightarrow> 'v reply \<times> 'q StreamManager \<times> Packet option" where
  "rt_HandleCmd pb A Q cmd m =
     (if cmd_Kind cmd = CMD_DATA_INPUT pb then
        let payload = (case cmd_Payload cmd of None \<Rightarrow> Some [] | Some p \<Rightarrow> Some p) in
        ((0, None, None), snd (Write Q (cmd_Id cmd) (cmd_Seq cmd) (slice_bytes payload) m), None)
      else if cmd_Kind cmd = CMD_DATA_CLOSE pb then
        ((0, None, None), snd (Write Q (cmd_Id cmd) (cmd_Seq cmd) (slice_bytes None) m), None)
      else if cmd_Kind cmd \<noteq> CMD_RUNTIME_ARANYA_PROTO pb then
        ((0, None, Some (Errorf (''unknown cmd type '' @ show_int (sint (cmd_Kind cmd))))), m, None)
      else
        (case pb_UnmarshalPacket A (cmd_Payload cmd) of
           Inl err \<Rightarrow> ((0, None, Some err), m, None)
         | Inr pkt \<Rightarrow>
             if pkt_Kind pkt \<notin> set (rt_kinds A) then
               ((0, None, Some (Errorf (''unknown runtime cmd type '' @ show_int (sint (cmd_Kind cmd))))), m, None)
             else ((0, None, None), m, Some pkt)))"

text \<open>
  The handler a packet's kind selects; \<open>sq\<close>, \<open>evs\<close> and \<open>pevs\<close> are what a stream
  operation meets (uploads, error channels).
\<close>

definition rt_do ::
  "arhatgopb \<Rightarrow> ('o, 'r) aranyagopb \<Rightarrow> wellknownerrors \<Rightarrow> 'q SeqQueue \<Rightarrow> ('o, 'r, 'e) RuntimeEngine
     \<Rightarrow> 'w BaseHandler \<Rightarrow> u64 \<Rightarrow> Packet \<Rightarrow> u64 \<Rightarrow> err_event list \<Rightarrow> pf_event list \<Rightarrow> 'q StreamManager \<Rightarrow> 'e \<Rightarrow> 'w
     \<Rightarrow> (error + Packet option) option \<times> 'q StreamManager \<times> 'e \<times> 'w" where
  "rt_do pb A we Q R h sid pkt sq evs pevs m e w =
     (let kind = pkt_Kind pkt; payload = pkt_Payload pkt in
      if kind = CMD_EXEC A then handleExec pb A we Q R h sid payload sq evs m e w
      else if kind = CMD_ATTACH A then handleAttach pb A we Q R h sid payload sq evs m e w
      else if kind = CMD_LOGS A then
        (case handleLogs pb A R h sid payload sq m e w of (r, m', e', w') \<Rightarrow> (Some r, m', e', w'))
      else if kind = CMD_TTY_RESIZE A then
        (case handleTtyResize A sid payload m of (r, m') \<Rightarrow> (Some r, m', e, w))
      else if kind = CMD_PORT_FORWARD A then handlePortForward pb A we Q R h sid payload sq pevs m e w
      else case unary_funcMap A R kind of
        None \<Rightarrow> (None, m, e, w)
      | Some do' \<Rightarrow> (case do' payload e of (r, e') \<Rightarrow> (Some r, m, e', w)))"

text \<open>The end of the goroutine: an error or a packet is sent, an empty packet is not.\<close>

definition rt_reply ::
  "arhatgopb \<Rightarrow> ('o, 'r) aranyagopb \<Rightarrow> 'w BaseHandler \<Rightarrow> u64 \<Rightarrow> u64 \<Rightarrow> error + Packet option \<Rightarrow> 'w \<Rightarrow> 'w" where
  "rt_reply pb A h sid sq r w =
     (case r of
        Inl err \<Rightarrow>
          snd (SendMsg h \<lparr>msg_Kind = MSG_RUNTIME_ARANYA_PROTO pb, msg_Id = sid, msg_Ack = sq,
                          msg_Payload = marshal_or_nil A (common_err A err)\<rparr> w)
      | Inr None \<Rightarrow> w
      | Inr (Some pkt) \<Rightarrow>
          (case pb_MarshalPacket A pkt of
             Inl _ \<Rightarrow> w
           | Inr dat \<Rightarrow>
               snd (SendMsg h \<lparr>msg_Kind = MSG_RUNTIME_ARANYA_PROTO pb, msg_Id = sid, msg_Ack = sq,
                               msg_Payload = Some dat\<rparr> w)))"

definition rt_goroutine ::
  "arhatgopb \<Rightarrow> ('o, 'r) aranyagopb \<Rightarrow> wellknownerrors \<Rightarrow> 'q SeqQueue \<Rightarrow> ('o, 'r, 'e) RuntimeEngine
     \<Rightarrow> 'w BaseHandler \<Rightarrow> Cmd \<Rightarrow> Packet \<Rightarrow> u64 \<Rightarrow> err_event list \<Rightarrow> pf_event list \<Rightarrow> 'q StreamManager \<Rightarrow> 'e \<Rightarrow> 'w
     \<Rightarrow> 'q StreamManager \<times> 'e \<times> 'w" where
  "rt_goroutine pb A we Q R h cmd pkt sq evs pevs m e w =
     (case rt_do pb A we Q R h (cmd_Id cmd) pkt sq evs pevs m e w of
        (None, m', e', w') \<Rightarrow> (m', e', w')
      | (Some r, m', e', w') \<Rightarrow> (m', e', rt_reply pb A h (cmd_Id cmd) (cmd_Seq cmd) r w'))"

section \<open>Lemmas\<close>

definition sending :: "Msg list BaseHandler" where
  "sending = SetMsgSendFunc (Some send_append) NewBaseHandler"

lemma SendMsg_sending [simp]: "SendMsg sending msg w = (None, w @ [msg])"
  by (simp add: sending_def SetMsgSendFunc_def SendMsg_def send_append_def)

text \<open>The code and description \<open>collectStreamErrors\<close> accumulates.\<close>

definition first_code :: "int list \<Rightarrow> int" where
  "first_code cs = (case filter (\<lambda>c. c \<noteq> 0) cs of [] \<Rightarrow> 0 | c # _ \<Rightarrow> c)"

fun join_desc :: "string list \<Rightarrow> string" where
  "join_desc [] = ''''"
| "join_desc [d] = d"
| "join_desc (d # d' # ds) = d @ ''; '' @ join_desc (d' # ds)"

lemma join_desc_snoc: "ds \<noteq> [] \<Longrightarrow> join_desc (ds @ [d]) = join_desc ds @ ''; '' @ d"
  by (induction ds rule: join_desc.induct) auto

lemma first_code_snoc: "first_code (cs @ [c]) = (if first_code cs = 0 then c else first_code cs)"
proof (cases "filter (\<lambda>c. c \<noteq> 0) cs")
  case (Cons x xs)
  then have "x \<noteq> 0" by (auto simp: filter_eq_Cons_iff)
  with Cons show ?thesis by (simp add: first_code_def)
qed (simp add: first_code_def)

definition err_summary :: "ErrorMsg list \<Rightarrow> ErrorMsg option" where
  "err_summary es =
     (case es of [] \<Rightarrow> None
      | e # _ \<Rightarrow> Some (e\<lparr>em_Code := first_code (map em_Code es), em_Description := join_desc (map em_Description es)\<rparr>))"

lemma err_summary_snoc: "Some (merge_err (err_summary es) e) = err_summary (es @ [e])"
proof (cases es)
  case (Cons x xs)
  have "map em_Description es \<noteq> []" using Cons by simp
  then show ?thesis
    using join_desc_snoc [of "map em_Description es" "em_Description e"]
      first_code_snoc [of "map em_Code es" "em_Code e"]
    by (simp add: err_summary_def merge_err_def Cons Let_def split: if_splits)
qed (simp add: err_summary_def merge_err_def first_code_def)

fun real_errs :: "err_event list \<Rightarrow> ErrorMsg list" where
  "real_errs [] = []"
| "real_errs (ErrCh (Some e) # evs) = e # real_errs evs"
| "real_errs (_ # evs) = real_errs evs"

lemma collect_loop_errs:
  "\<forall>ev \<in> set evs. \<exists>e. ev = ErrCh e \<Longrightarrow>
     collect_loop A (err_summary es) (evs @ rest) = collect_loop A (err_summary (es @ real_errs evs)) rest"
proof (induction evs arbitrary: es)
  case (Cons ev evs)
  from Cons.prems obtain e where ev: "ev = ErrCh e" by auto
  show ?case
  proof (cases e)
    case None
    with Cons ev show ?thesis by simp
  next
    case (Some x)
    with Cons ev show ?thesis by (simp add: err_summary_snoc)
  qed
qed simp

lemma Add_dup: "sessions m sid = Some p \<Longrightarrow> Add we Q sid create m e = (Some (ErrAlreadyExists we), m, e)"
  by (simp add: Add_def)

lemma Del_closes:
  assumes "sm_wf m" "sessions m sid = Some p"
  shows "\<not> Has sid (Del sid m) \<and> closed_stream (streams (Del sid m) ! p)"
  using assms sm_wfD(1) [OF assms] by (simp add: Del_def Has_def upd_stream_def)

lemma unary_funcMap_some:
  assumes "kind \<in> {CMD_GET_INFO A, CMD_IMAGE_LIST A, CMD_IMAGE_ENSURE A, CMD_IMAGE_DELETE A,
    CMD_POD_LIST A, CMD_POD_ENSURE A, CMD_POD_DELETE A}"
  shows "\<exists>f. unary_funcMap A R kind = Some f"
  using assms by (auto simp: unary_funcMap_def)

lemma unary_packet:
  assumes "unary_funcMap A R kind = Some f" "f payload e = (r, e')"
  shows "\<exists>x. r = Inl x \<or> (\<exists>pkt. r = Inr (Some pkt))"
  using assms
  by (auto simp: unary_funcMap_def handleGetInfo_def handleImageList_def handleImageEnsure_def
      handleImageDelete_def handlePodList_def handlePodEnsure_def handlePodDelete_def unary_op_def
      split: if_splits sum.splits prod.splits)

section \<open>Example parameters\<close>

definition aranya_example :: "(unit, unit) aranyagopb" where
  "aranya_example =
     \<lparr>CMD_GET_INFO = 1, CMD_EXEC = 2, CMD_ATTACH = 3, CMD_LOGS = 4, CMD_TTY_RESIZE = 5, CMD_PORT_FORWARD = 6,
      CMD_IMAGE_LIST = 7, CMD_IMAGE_ENSURE = 8, CMD_IMAGE_DELETE = 9, CMD_POD_LIST = 10, CMD_POD_ENSURE = 11,
      CMD_POD_DELETE = 12, MSG_RUNTIME_INFO = 13, MSG_POD_STATUS_LIST = 14, MSG_POD_STATUS = 15,
      MSG_IMAGE_STATUS_LIST = 16, ERR_COMMON = 1, DefaultExitCodeOnError = 128,
      pb_UnmarshalPacket = (\<lambda>s. Inr \<lparr>pkt_Kind = 10, pkt_Payload = s\<rparr>), pb_MarshalPacket = (\<lambda>p. Inr [1]),
      pb_MarshalErr = (\<lambda>e. Inr [2]), pb_MarshalInfo = (\<lambda>i. Inr [3]), pb_Unmarshal = (\<lambda>k s. Inr ()),
      pb_Marshal = (\<lambda>r. Inr [4]),
      pb_UnmarshalExec = (\<lambda>s. Inr \<lparr>eo_PodUid = '''', eo_Container = '''', eo_Command = [], eo_Stdin = True,
          eo_Stdout = True, eo_Stderr = False, eo_Tty = False\<rparr>),
      pb_UnmarshalResize = (\<lambda>s. Inr (80, 25))\<rparr>"

definition engine_example :: "(unit, unit, nat) RuntimeEngine" where
  "engine_example =
     \<lparr>re_Info = \<lparr>ri_Name = '''', ri_Version = '''', ri_Os = '''', ri_OsImage = '''', ri_Arch = '''', ri_KernelVersion = ''''\<rparr>,
      re_Exec = (\<lambda>_ _ e. (Inr False, Suc e)), re_Attach = (\<lambda>_ _ e. (Inr False, Suc e)),
      re_Logs = (\<lambda>_ e. (None, Suc e)), re_PortForward = (\<lambda>_ e. (Inr False, Suc e)),
      re_EnsurePod = (\<lambda>_ e. (Inr (), Suc e)), re_DeletePod = (\<lambda>_ e. (Inl (ExtErr ''busy''), Suc e)),
      re_ListPods = (\<lambda>_ e. (Inr (), Suc e)), re_EnsureImages = (\<lambda>_ e. (Inr (), Suc e)),
      re_DeleteImages = (\<lambda>_ e. (Inr (), Suc e)), re_ListImages = (\<lambda>_ e. (Inr (), Suc e))\<rparr>"

definition one_session :: "nat StreamManager" where
  "one_session = \<lparr>sessions = [7 \<mapsto> 0], streams = [newStream seqq_example True]\<rparr>"

lemma one_session_wf: "sm_wf one_session"
  by (rule sm_wfI) (auto simp: one_session_def split: if_splits)

section \<open>Properties\<close>

text \<open>
  \<open>collectStreamErrors\<close> reports everything the engine reported: it waits until the
  channel closes or the context ends; when the channel closes it returns nothing if no
  error came, else the first error with the first non-zero exit code among all of them and
  all descriptions joined by semicolons, in order.
\<close>

theorem collectStreamErrors_complete:
  assumes "\<forall>ev \<in> set evs. \<exists>e. ev = ErrCh e"
  shows "collectStreamErrors A evs = None \<and>
         collectStreamErrors A (evs @ ErrChClosed # rest) = Some (err_summary (real_errs evs)) \<and>
         collectStreamErrors A (evs @ CtxDone err # rest) =
           Some (Some \<lparr>em_Kind = ERR_COMMON A, em_Description = err_string err, em_Code = DefaultExitCodeOnError A\<rparr>)"
proof -
  have empty: "err_summary [] = None" by (simp add: err_summary_def)
  note run = collect_loop_errs [OF assms, of A "[]", unfolded empty append_Nil]
  show ?thesis
    using run [of "[]"] run [of "ErrChClosed # rest"] run [of "CtxDone err # rest"]
    by (simp add: collectStreamErrors_def)
qed

theorem collectStreamErrors_complete_witness:
  "collectStreamErrors aranya_example
     [ErrCh (Some \<lparr>em_Kind = 1, em_Description = ''a'', em_Code = 0\<rparr>), ErrCh None,
      ErrCh (Some \<lparr>em_Kind = 2, em_Description = ''b'', em_Code = 5\<rparr>), ErrChClosed] =
   Some (Some \<lparr>em_Kind = 1, em_Description = ''a; b'', em_Code = 5\<rparr>)"
proof -
  let ?evs = "[ErrCh (Some \<lparr>em_Kind = 1, em_Description = ''a'', em_Code = 0\<rparr>), ErrCh None,
      ErrCh (Some \<lparr>em_Kind = 2, em_Description = ''b'', em_Code = 5\<rparr>)]"
  have "\<forall>ev \<in> set ?evs. \<exists>e. ev = ErrCh e" by simp
  from collectStreamErrors_complete [OF this, of aranya_example "[]"] show ?thesis
    by (simp add: err_summary_def first_code_def)
qed

text \<open>
  C36. A stream operation that fails because its session id is in use takes the running
  session down: exec with stdin and port-forward on the id of a live session report
  \<open>ErrAlreadyExists\<close> to the peer, do not call the engine, and then delete that session and
  close its writer.
\<close>

theorem duplicate_session_closes_first:
  assumes "sm_wf m" and "sessions m sid = Some p"
    and "pb_UnmarshalExec A payload = Inr opts" and "eo_Stdin opts"
    and "pb_Unmarshal A (CMD_PORT_FORWARD A) payload' = Inr opts'"
  shows "(\<exists>m' w'. handleExec pb A we Q R h sid payload sq evs m e w = (Some (Inr None), m', e, w') \<and>
            w' = snd (SendMsg h (last_msg pb A sid sq (Some (common_err A (ErrAlreadyExists we)))) w) \<and>
            \<not> Has sid m' \<and> closed_stream (streams m' ! p)) \<and>
         (\<exists>m' w'. handlePortForward pb A we Q R h sid payload' sq pevs m e w =
              (Some (Inl (ErrAlreadyExists we)), m', e, w') \<and> \<not> Has sid m' \<and> closed_stream (streams m' ! p))"
  using assms(3-5) Del_closes [OF assms(1,2)]
  by (simp add: handleExec_def handleExecAttach_def exec_run_def handlePortForward_def Add_dup [OF assms(2)]
      stream_finish_def split: prod.splits)

theorem duplicate_session_closes_first_witness:
  "\<exists>m' w'. handleExec pb_example aranya_example we_example seqq_example engine_example sending 7 None 0 [] one_session 0 [] =
     (Some (Inr None), m', 0, w') \<and> \<not> Has 7 m' \<and> length w' = 1"
proof -
  have "sessions one_session 7 = Some 0" by (simp add: one_session_def)
  from duplicate_session_closes_first [OF one_session_wf this, of aranya_example None _ None "()" pb_example we_example
      seqq_example engine_example sending 0 "[]" 0 "[]" "[]"]
  show ?thesis by (auto simp: aranya_example_def)
qed

text \<open>
  An input command with an empty payload, nil or not, is the close command: it has the
  effect of \<open>CMD_DATA_CLOSE\<close> with the same id and sequence number on every session
  table, and no message is sent in reply.
\<close>

theorem empty_input_is_close:
  assumes "cmd_Kind cmd = CMD_DATA_INPUT pb" and "slice_bytes (cmd_Payload cmd) = []"
  shows "rt_HandleCmd pb A Q cmd m = rt_HandleCmd pb A Q (cmd\<lparr>cmd_Kind := CMD_DATA_CLOSE pb\<rparr>) m \<and>
         fst (rt_HandleCmd pb A Q cmd m) = (0, None, None)"
  using assms by (auto simp: rt_HandleCmd_def slice_bytes_def Let_def split: option.splits)

theorem empty_input_is_close_witness:
  "rt_HandleCmd pb_example aranya_example seqq_example
      \<lparr>cmd_Kind = 2, cmd_Id = 7, cmd_Seq = 3, cmd_Payload = Some []\<rparr> one_session =
   (rt_HandleCmd pb_example aranya_example seqq_example
      \<lparr>cmd_Kind = 3, cmd_Id = 7, cmd_Seq = 3, cmd_Payload = Some []\<rparr> one_session :: unit reply \<times> _)"
proof -
  let ?c = "\<lparr>cmd_Kind = 2, cmd_Id = 7, cmd_Seq = 3, cmd_Payload = Some []\<rparr>"
  have "rt_HandleCmd pb_example aranya_example seqq_example ?c one_session =
      (rt_HandleCmd pb_example aranya_example seqq_example (?c\<lparr>cmd_Kind := CMD_DATA_CLOSE pb_example\<rparr>) one_session
        :: unit reply \<times> _)"
    by (rule conjunct1 [OF empty_input_is_close]) (simp_all add: pb_example_def)
  then show ?thesis by (simp add: pb_example_def)
qed

lemma pf_closeFunc_small:
  assumes "0 \<le> n"
  shows "pf_closeFunc (Some n) = None \<longleftrightarrow> n < 102400"
proof -
  have "n div 1024 div 100 = n div 102400" using zdiv_zmult2_eq [of 100 n 1024] by simp
  moreover have "0 \<le> n div 102400" using assms by simp
  ultimately show ?thesis by (auto simp: pf_closeFunc_def Let_def Second_def)
qed

text \<open>
  Every pod, image and info request is answered exactly once: whatever the engine does,
  the goroutine sends one message with the command's id and sequence number, of kind
  \<open>MSG_RUNTIME_ARANYA_PROTO\<close>, and leaves the sessions alone, provided packets marshal.
\<close>

theorem unary_request_answered:
  assumes "distinct (rt_kinds A)"
    and "pkt_Kind pkt \<in> {CMD_GET_INFO A, CMD_IMAGE_LIST A, CMD_IMAGE_ENSURE A, CMD_IMAGE_DELETE A,
           CMD_POD_LIST A, CMD_POD_ENSURE A, CMD_POD_DELETE A}"
    and "\<And>q. \<exists>d. pb_MarshalPacket A q = Inr d"
  shows "\<exists>e' msg. rt_goroutine pb A we Q R sending cmd pkt sq evs pevs m e w = (m, e', w @ [msg]) \<and>
           msg_Id msg = cmd_Id cmd \<and> msg_Ack msg = cmd_Seq cmd \<and> msg_Kind msg = MSG_RUNTIME_ARANYA_PROTO pb"
proof -
  obtain f where f: "unary_funcMap A R (pkt_Kind pkt) = Some f" using unary_funcMap_some [OF assms(2)] by blast
  obtain r e' where r: "f (pkt_Payload pkt) e = (r, e')" by fastforce
  have "pkt_Kind pkt \<notin> {CMD_EXEC A, CMD_ATTACH A, CMD_LOGS A, CMD_TTY_RESIZE A, CMD_PORT_FORWARD A}"
    using assms(1,2) unfolding rt_kinds_def by auto
  then have "rt_do pb A we Q R sending (cmd_Id cmd) pkt sq evs pevs m e w = (Some r, m, e', w)"
    by (simp add: rt_do_def f r Let_def)
  moreover have "\<exists>msg. rt_reply pb A sending (cmd_Id cmd) (cmd_Seq cmd) r w = w @ [msg] \<and> msg_Id msg = cmd_Id cmd \<and>
      msg_Ack msg = cmd_Seq cmd \<and> msg_Kind msg = MSG_RUNTIME_ARANYA_PROTO pb"
    using unary_packet [OF f r] assms(3) by (auto simp: rt_reply_def split: sum.splits) (metis Inl_Inr_False)
  ultimately show ?thesis by (auto simp: rt_goroutine_def)
qed

theorem unary_request_answered_witness:
  "\<exists>e' msg. rt_goroutine pb_example aranya_example we_example seqq_example engine_example sending
      (\<lparr>cmd_Kind = 4, cmd_Id = 7, cmd_Seq = 3, cmd_Payload = None\<rparr>) \<lparr>pkt_Kind = 12, pkt_Payload = None\<rparr> 0 [] [] one_session 0 []
      = (one_session, e', [msg]) \<and> msg_Id msg = 7 \<and> msg_Ack msg = 3"
proof -
  have "distinct (rt_kinds aranya_example)" by (simp add: rt_kinds_def aranya_example_def)
  moreover have "\<And>q. \<exists>d. pb_MarshalPacket aranya_example q = Inr d" by (simp add: aranya_example_def)
  ultimately show ?thesis
    using unary_request_answered [of aranya_example "\<lparr>pkt_Kind = 12, pkt_Payload = None\<rparr>" pb_example we_example
        seqq_example engine_example "\<lparr>cmd_Kind = 4, cmd_Id = 7, cmd_Seq = 3, cmd_Payload = None\<rparr>" 0 "[]" "[]" one_session 0 "[]"]
    by (auto simp: aranya_example_def)
qed

end
