(* ===== verification/Upload.thy ===== *)
theory Upload
  imports Runtime
begin

text \<open>
  The output side of a stream operation (\<open>handleStreamOperation\<close>,
  \<open>createTerminalStream\<close> and \<open>uploadDataOutput\<close> of
  \<open>src/extruntime/handler_stream.go\<close>): the goroutines that upload stdout and stderr, the
  operation itself and the deferred function share the sequence counter and the
  connection. The timeout reader of \<open>arhat.dev/pkg/iohelper\<close> may return any number of
  the bytes at hand, up to the buffer's size, or fail.
\<close>

section \<open>States\<close>

text \<open>
  An uploader is not started, waits for data, holds data, is in \<open>SendMsg\<close>, or has
  returned. \<open>False\<close> is stdout, \<open>True\<close> is stderr.
\<close>

datatype up_pc = UOff | UWait | UGot bytes | USend Msg | UDone

datatype so_phase = SRun | SClosing "ErrorMsg option" | SLast Msg | SDel | SEnd

text \<open>
  \<open>so_pipe\<close> are the bytes written and not read, \<open>so_written\<close> all bytes written,
  \<open>so_issued\<close> the messages in the order of their numbers, \<open>so_sent\<close> those sent;
  \<open>so_abort\<close> says that a send or a read failed or the context ended.
\<close>

record so_state =
  so_seq :: u64
  so_ups :: "bool \<Rightarrow> up_pc"
  so_pipe :: "bool \<Rightarrow> bytes"
  so_written :: "bool \<Rightarrow> bytes"
  so_phase :: so_phase
  so_issued :: "Msg list"
  so_sent :: "Msg list"
  so_abort :: bool

definition so_start :: "bool \<Rightarrow> bool \<Rightarrow> so_state" where
  "so_start useStdout useStderr =
     \<lparr>so_seq = 0, so_ups = (\<lambda>i. if (if i then useStderr else useStdout) then UWait else UOff),
      so_pipe = (\<lambda>_. []), so_written = (\<lambda>_. []), so_phase = SRun, so_issued = [], so_sent = [],
      so_abort = False\<rparr>"

definition up_kind :: "arhatgopb \<Rightarrow> bool \<Rightarrow> int32" where
  "up_kind pb i = (if i then MSG_RUNTIME_DATA_STDERR pb else MSG_DATA_OUTPUT pb)"

definition up_msg :: "arhatgopb \<Rightarrow> u64 \<Rightarrow> bool \<Rightarrow> u64 \<Rightarrow> bytes \<Rightarrow> Msg" where
  "up_msg pb sid i sq dat =
     \<lparr>msg_Kind = up_kind pb i, msg_Id = sid, msg_Ack = fst (nextSeq sq), msg_Payload = Some dat\<rparr>"

abbreviation set_up :: "bool \<Rightarrow> up_pc \<Rightarrow> so_state \<Rightarrow> so_state" where
  "set_up i pc s \<equiv> s\<lparr>so_ups := (so_ups s)(i := pc)\<rparr>"

definition idle :: "up_pc \<Rightarrow> bool" where
  "idle pc \<longleftrightarrow> pc = UOff \<or> pc = UDone"

inductive so_step ::
  "arhatgopb \<Rightarrow> ('o, 'r) aranyagopb \<Rightarrow> u64 \<Rightarrow> nat \<Rightarrow> so_state \<Rightarrow> so_state \<Rightarrow> bool"
  for pb A sid maxPayloadSize where
  so_write: "so_phase s = SRun \<Longrightarrow> so_ups s i \<noteq> UOff \<Longrightarrow>
     so_step pb A sid maxPayloadSize s
       (s\<lparr>so_pipe := (so_pipe s)(i := so_pipe s i @ d), so_written := (so_written s)(i := so_written s i @ d)\<rparr>)"
| so_read: "so_ups s i = UWait \<Longrightarrow> n \<le> maxPayloadSize \<Longrightarrow> n \<le> length (so_pipe s i) \<Longrightarrow>
     so_step pb A sid maxPayloadSize s
       (set_up i (UGot (take n (so_pipe s i))) (s\<lparr>so_pipe := (so_pipe s)(i := drop n (so_pipe s i))\<rparr>))"
| so_eof: "so_ups s i = UWait \<Longrightarrow> so_pipe s i = [] \<Longrightarrow> so_phase s \<noteq> SRun \<Longrightarrow>
     so_step pb A sid maxPayloadSize s (set_up i UDone s)"
| so_read_end: "so_ups s i = UWait \<Longrightarrow>
     so_step pb A sid maxPayloadSize s (set_up i UDone (s\<lparr>so_abort := True\<rparr>))"
| so_number: "so_ups s i = UGot d \<Longrightarrow>
     so_step pb A sid maxPayloadSize s
       (set_up i (USend (up_msg pb sid i (so_seq s) d))
          (s\<lparr>so_seq := snd (nextSeq (so_seq s)), so_issued := so_issued s @ [up_msg pb sid i (so_seq s) d]\<rparr>))"
| so_send: "so_ups s i = USend msg \<Longrightarrow>
     so_step pb A sid maxPayloadSize s (set_up i UWait (s\<lparr>so_sent := so_sent s @ [msg]\<rparr>))"
| so_send_err: "so_ups s i = USend msg \<Longrightarrow>
     so_step pb A sid maxPayloadSize s (set_up i UDone (s\<lparr>so_abort := True\<rparr>))"
| so_return: "so_phase s = SRun \<Longrightarrow> so_step pb A sid maxPayloadSize s (s\<lparr>so_phase := SClosing err\<rparr>)"
| so_last: "so_phase s = SClosing err \<Longrightarrow> idle (so_ups s False) \<Longrightarrow> idle (so_ups s True) \<Longrightarrow>
     so_step pb A sid maxPayloadSize s
       (s\<lparr>so_phase := SLast (last_msg pb A sid (so_seq s) err), so_seq := snd (nextSeq (so_seq s)),
          so_issued := so_issued s @ [last_msg pb A sid (so_seq s) err]\<rparr>)"
| so_last_send: "so_phase s = SLast msg \<Longrightarrow>
     so_step pb A sid maxPayloadSize s (s\<lparr>so_phase := SDel, so_sent := so_sent s @ [msg]\<rparr>)"
| so_last_err: "so_phase s = SLast msg \<Longrightarrow>
     so_step pb A sid maxPayloadSize s (s\<lparr>so_phase := SDel, so_abort := True\<rparr>)"
| so_delete: "so_phase s = SDel \<Longrightarrow> so_step pb A sid maxPayloadSize s (s\<lparr>so_phase := SEnd\<rparr>)"

definition so_init :: "so_state \<Rightarrow> bool" where
  "so_init s \<longleftrightarrow> (\<exists>o1 o2. s = so_start o1 o2)"

section \<open>Invariants\<close>

lemma nextSeq_eq: "nextSeq p = (p, p + 1)"
proof -
  have "nextSeq_loop p p = (p, p + 1)" by (simp add: nextSeq_loop.simps)
  then show ?thesis by (simp add: nextSeq_def)
qed

text \<open>The numbers are consecutive from 0.\<close>

definition so_numbered :: "so_state \<Rightarrow> bool" where
  "so_numbered s \<longleftrightarrow>
     so_seq s = of_nat (length (so_issued s)) \<and>
     map msg_Ack (so_issued s) = map of_nat [0..<length (so_issued s)]"

text \<open>The last message is issued when the uploaders are gone, and sent last.\<close>

definition so_ended :: "so_phase \<Rightarrow> bool" where
  "so_ended p \<longleftrightarrow> (case p of SRun \<Rightarrow> False | SClosing _ \<Rightarrow> False | _ \<Rightarrow> True)"

definition so_ending :: "arhatgopb \<Rightarrow> ('o, 'r) aranyagopb \<Rightarrow> u64 \<Rightarrow> so_state \<Rightarrow> bool" where
  "so_ending pb A sid s \<longleftrightarrow>
     (so_ended (so_phase s) \<longrightarrow>
        idle (so_ups s False) \<and> idle (so_ups s True) \<and>
        (\<exists>pre sq err. so_issued s = pre @ [last_msg pb A sid sq err] \<and>
           (so_phase s = SLast (last_msg pb A sid sq err) \<or>
            (so_phase s = SDel \<or> so_phase s = SEnd) \<and>
            (so_abort s \<or> (\<exists>before. so_sent s = before @ [last_msg pb A sid sq err])))))"

text \<open>What is issued is sent or on its way; what is sent was issued.\<close>

definition up_pending :: "up_pc \<Rightarrow> Msg set" where
  "up_pending pc = (case pc of USend m \<Rightarrow> {m} | _ \<Rightarrow> {})"

definition so_pending :: "so_state \<Rightarrow> Msg set" where
  "so_pending s = up_pending (so_ups s False) \<union> up_pending (so_ups s True) \<union>
     (case so_phase s of SLast m \<Rightarrow> {m} | _ \<Rightarrow> {})"

definition so_delivery :: "so_state \<Rightarrow> bool" where
  "so_delivery s \<longleftrightarrow>
     set (so_sent s) \<union> so_pending s \<subseteq> set (so_issued s) \<and>
     (\<not> so_abort s \<longrightarrow> set (so_issued s) \<subseteq> set (so_sent s) \<union> so_pending s)"

text \<open>The bytes of a stream are in its messages, in the uploader's hands, or in the pipe.\<close>

definition out_bytes :: "arhatgopb \<Rightarrow> bool \<Rightarrow> Msg list \<Rightarrow> bytes" where
  "out_bytes pb i msgs = concat (map (\<lambda>m. slice_bytes (msg_Payload m)) (filter (\<lambda>m. msg_Kind m = up_kind pb i) msgs))"

definition so_bytes :: "arhatgopb \<Rightarrow> so_state \<Rightarrow> bool" where
  "so_bytes pb s \<longleftrightarrow>
     (\<forall>i. so_written s i = out_bytes pb i (so_issued s) @ (case so_ups s i of UGot d \<Rightarrow> d | _ \<Rightarrow> []) @ so_pipe s i) \<and>
     (\<forall>i. so_ups s i = UOff \<longrightarrow> so_pipe s i = []) \<and>
     (\<forall>i. so_ups s i = UDone \<longrightarrow> \<not> so_abort s \<longrightarrow> so_pipe s i = [] \<and> so_phase s \<noteq> SRun)"

lemma out_bytes_simps [simp]:
  "out_bytes pb i [] = []" "out_bytes pb i (xs @ ys) = out_bytes pb i xs @ out_bytes pb i ys"
  by (simp_all add: out_bytes_def)

lemma out_bytes_single:
  "out_bytes pb i [m] = (if msg_Kind m = up_kind pb i then slice_bytes (msg_Payload m) else [])"
  by (simp add: out_bytes_def)

lemma up_kind_inj: "arhatgopb_distinct pb \<Longrightarrow> up_kind pb i = up_kind pb j \<longleftrightarrow> i = j"
  by (auto simp: up_kind_def arhatgopb_distinct_def msg_kinds_def)

lemma last_msg_bytes: "arhatgopb_distinct pb \<Longrightarrow> out_bytes pb i [last_msg pb A sid sq err] = []"
  by (auto simp: out_bytes_single last_msg_def up_kind_def arhatgopb_distinct_def msg_kinds_def split: option.splits)

lemma so_numbered_step: "so_step pb A sid n s s' \<Longrightarrow> so_numbered s \<Longrightarrow> so_numbered s'"
  by (erule so_step.cases)
    (auto simp: so_numbered_def nextSeq_eq up_msg_def last_msg_def add.commute split: option.splits)

lemma up_pending_simps [simp]:
  "up_pending UOff = {}" "up_pending UWait = {}" "up_pending (UGot d) = {}" "up_pending (USend m) = {m}"
  "up_pending UDone = {}"
  by (simp_all add: up_pending_def)

lemma idle_simps [simp]:
  "idle UOff" "\<not> idle UWait" "\<not> idle (UGot d)" "\<not> idle (USend m)" "idle UDone"
  by (simp_all add: idle_def)

lemma so_ended_simps [simp]:
  "\<not> so_ended SRun" "\<not> so_ended (SClosing err)" "so_ended (SLast m)" "so_ended SDel" "so_ended SEnd"
  by (simp_all add: so_ended_def)

lemma so_pending_up:
  "so_ups s i = pc \<Longrightarrow> up_pending pc = {} \<Longrightarrow> so_phase s' = so_phase s \<Longrightarrow> so_ups s' = (so_ups s)(i := pc') \<Longrightarrow>
     so_pending s' = so_pending s \<union> up_pending pc'"
  "so_ups s i = pc \<Longrightarrow> so_phase s' = so_phase s \<Longrightarrow> so_ups s' = (so_ups s)(i := pc') \<Longrightarrow>
     so_pending s' \<subseteq> so_pending s \<union> up_pending pc' \<and> so_pending s \<subseteq> so_pending s' \<union> up_pending pc"
  by (cases i; auto simp: so_pending_def)+

lemma so_delivery_up:
  assumes "so_delivery s" "so_ups s i = pc" "so_phase s' = so_phase s" "so_ups s' = (so_ups s)(i := pc')"
    and "set (so_sent s) \<subseteq> set (so_sent s')" "set (so_issued s) \<subseteq> set (so_issued s')" "so_abort s \<Longrightarrow> so_abort s'"
    and "set (so_sent s') \<union> up_pending pc' \<subseteq> set (so_issued s')"
    and "\<not> so_abort s' \<Longrightarrow> set (so_issued s') \<subseteq> set (so_issued s) \<union> set (so_sent s') \<union> up_pending pc'"
    and "\<not> so_abort s' \<Longrightarrow> up_pending pc \<subseteq> set (so_sent s')"
  shows "so_delivery s'"
proof -
  have p: "so_pending s' \<subseteq> so_pending s \<union> up_pending pc'" "so_pending s \<subseteq> so_pending s' \<union> up_pending pc"
    using so_pending_up(2) [OF assms(2-4)] by blast+
  have pc': "up_pending pc' \<subseteq> so_pending s'" using assms(4) by (cases i) (auto simp: so_pending_def)
  have "set (so_sent s') \<union> so_pending s' \<subseteq> set (so_issued s')"
    using p(1) assms(1,6,8) unfolding so_delivery_def by blast
  moreover have "set (so_issued s') \<subseteq> set (so_sent s') \<union> so_pending s'" if "\<not> so_abort s'"
    using that p(2) pc' assms(1,5,7) assms(9,10) [OF that] unfolding so_delivery_def by blast
  ultimately show ?thesis by (simp add: so_delivery_def)
qed

lemma so_delivery_step:
  assumes "so_step pb A sid n s s'" "so_delivery s"
  shows "so_delivery s'"
  using assms(1)
proof cases
  case (so_send i msg)
  have "msg \<in> set (so_issued s)" using assms(2) so_send(2) by (cases i) (auto simp: so_delivery_def so_pending_def)
  with so_send assms(2) show ?thesis by (intro so_delivery_up [OF assms(2) so_send(2)]) (auto simp: so_delivery_def)
qed (use assms(2) in \<open>(rule so_delivery_up [OF assms(2)], assumption, auto simp: so_delivery_def)[]
       | auto simp: so_delivery_def so_pending_def\<close>)+

lemma so_ending_busy:
  assumes "so_ending pb A sid s" "so_ups s i = pc" "\<not> idle pc" "so_phase s' = so_phase s"
  shows "so_ending pb A sid s'"
proof -
  have "\<not> so_ended (so_phase s)" using assms(1-3) by (cases i) (auto simp: so_ending_def)
  with assms(4) show ?thesis by (simp add: so_ending_def)
qed

lemma so_ending_step:
  assumes "so_step pb A sid n s s'" "so_ending pb A sid s"
  shows "so_ending pb A sid s'"
  using assms(1)
proof cases
  case (so_last err)
  then show ?thesis by (auto simp: so_ending_def)
next
  case (so_last_send msg)
  with assms(2) obtain pre sq err where i: "so_issued s = pre @ [last_msg pb A sid sq err]"
    "msg = last_msg pb A sid sq err" "idle (so_ups s False)" "idle (so_ups s True)"
    by (auto simp: so_ending_def)
  with so_last_send show ?thesis by (auto simp: so_ending_def)
next
  case (so_last_err msg)
  with assms(2) show ?thesis by (auto simp: so_ending_def)
next
  case so_delete
  with assms(2) show ?thesis by (auto simp: so_ending_def)
next
  case (so_read i n)
  then show ?thesis by (intro so_ending_busy [OF assms(2) so_read(2)]) simp_all
next
  case (so_eof i)
  then show ?thesis by (intro so_ending_busy [OF assms(2) so_eof(2)]) simp_all
next
  case (so_read_end i)
  then show ?thesis by (intro so_ending_busy [OF assms(2) so_read_end(2)]) simp_all
next
  case (so_number i d)
  then show ?thesis by (intro so_ending_busy [OF assms(2) so_number(2)]) simp_all
next
  case (so_send i msg)
  then show ?thesis by (intro so_ending_busy [OF assms(2) so_send(2)]) simp_all
next
  case (so_send_err i msg)
  then show ?thesis by (intro so_ending_busy [OF assms(2) so_send_err(2)]) simp_all
qed (simp_all add: so_ending_def)

lemma so_bytes_step:
  assumes "so_step pb A sid n s s'" "so_bytes pb s" "arhatgopb_distinct pb"
  shows "so_bytes pb s'"
  using assms(1)
proof cases
  case (so_read i n)
  have "so_pipe s i = take n (so_pipe s i) @ drop n (so_pipe s i)" by simp
  with so_read assms(2) show ?thesis by (auto simp: so_bytes_def)
next
  case (so_number i d)
  have "out_bytes pb j [up_msg pb sid i (so_seq s) d] = (if j = i then d else [])" for j
    using up_kind_inj [OF assms(3), of i j] by (auto simp: up_msg_def out_bytes_single)
  with so_number assms(2) show ?thesis by (auto simp: so_bytes_def)
next
  case (so_last err)
  with assms(2) last_msg_bytes [OF assms(3)] show ?thesis by (auto simp: so_bytes_def)
qed (use assms(2) in \<open>auto simp: so_bytes_def\<close>)

definition so_inv :: "arhatgopb \<Rightarrow> ('o, 'r) aranyagopb \<Rightarrow> u64 \<Rightarrow> so_state \<Rightarrow> bool" where
  "so_inv pb A sid s \<longleftrightarrow>
     so_numbered s \<and> so_delivery s \<and> so_ending pb A sid s \<and> (arhatgopb_distinct pb \<longrightarrow> so_bytes pb s)"

interpretation sos: invariant_system so_init "so_step pb A sid n" "so_inv pb A sid" for pb A sid n
proof
  fix s s' :: so_state
  show "so_init s \<Longrightarrow> so_inv pb A sid s"
    by (auto simp: so_init_def so_start_def so_inv_def so_numbered_def so_delivery_def so_pending_def
        so_ending_def so_bytes_def split: if_splits)
  show "so_step pb A sid n s s' \<Longrightarrow> so_inv pb A sid s \<Longrightarrow> so_inv pb A sid s'"
    by (auto simp: so_inv_def intro: so_numbered_step so_delivery_step so_ending_step so_bytes_step)
qed

section \<open>Every number is used\<close>

text \<open>An uploader that waits can send the next chunk, with the next number.\<close>

lemma so_output:
  assumes run: "reach so_init (so_step pb A sid n) s" and "so_phase s = SRun" and "so_ups s i = UWait" and "so_pipe s i = []"
    and "length d \<le> n"
  shows "\<exists>s'. reach so_init (so_step pb A sid n) s' \<and> so_phase s' = SRun \<and> so_ups s' i = UWait \<and> so_pipe s' i = [] \<and>
     so_seq s' = so_seq s + 1 \<and> up_msg pb sid i (so_seq s) d \<in> set (so_sent s')"
proof -
  let ?s1 = "s\<lparr>so_pipe := (so_pipe s)(i := d), so_written := (so_written s)(i := so_written s i @ d)\<rparr>"
  let ?s2 = "set_up i (UGot d) (?s1\<lparr>so_pipe := (so_pipe s)(i := [])\<rparr>)" and ?m = "up_msg pb sid i (so_seq s) d"
  let ?s3 = "set_up i (USend ?m) (?s2\<lparr>so_seq := so_seq s + 1, so_issued := so_issued s @ [?m]\<rparr>)"
  have "so_step pb A sid n s ?s1" using so_write [of s i pb A sid n d] assms(2-4) by simp
  moreover have "so_step pb A sid n ?s1 ?s2" using so_read [of ?s1 i "length d" n pb A sid] assms(3,5) by simp
  moreover have "so_step pb A sid n ?s2 ?s3" using so_number [of ?s2 i d pb A sid n] by (simp add: nextSeq_eq)
  moreover have "so_step pb A sid n ?s3 (set_up i UWait (?s3\<lparr>so_sent := so_sent s @ [?m]\<rparr>))"
    using so_send [of ?s3 i ?m pb A sid n] by simp
  ultimately have "reach so_init (so_step pb A sid n) (set_up i UWait (?s3\<lparr>so_sent := so_sent s @ [?m]\<rparr>))"
    using run by (blast intro: reach_step)
  with assms(2) show ?thesis by (intro exI) (auto elim: conjI [rotated])
qed

lemma so_outputs:
  assumes "length d \<le> n"
  shows "\<exists>s. reach so_init (so_step pb A sid n) s \<and> up_msg pb sid False (of_nat k) d \<in> set (so_sent s)"
proof -
  have "\<exists>s. reach so_init (so_step pb A sid n) s \<and> so_phase s = SRun \<and> so_ups s False = UWait \<and> so_pipe s False = [] \<and>
      so_seq s = of_nat k" for k
  proof (induction k)
    case 0
    have "reach so_init (so_step pb A sid n) (so_start True False)" by (rule reach_init) (auto simp: so_init_def)
    then show ?case by (intro exI [of _ "so_start True False"]) (simp add: so_start_def)
  next
    case (Suc k)
    then show ?case using so_output [OF _ _ _ _ assms] by (metis of_nat_Suc add.commute)
  qed
  then show ?thesis using so_output [OF _ _ _ _ assms] by metis
qed

section \<open>Properties\<close>

text \<open>
  C10. The output of a stream operation can be put back together: when the operation is
  over, the messages it issued are numbered 0, 1, 2, ... without gap or repetition, the
  last number belongs to the closing message, which was issued after both uploads ended,
  and the payloads of each stream's messages, in the order of their numbers, are a prefix
  of what was written to it. If nothing failed, every message was sent, the closing message
  last, and the payloads are all that was written.
\<close>

theorem uploads_sequenced:
  assumes "reach so_init (so_step pb A sid n) s" and "arhatgopb_distinct pb" and "so_phase s = SEnd"
  shows "\<exists>pre sq err. so_issued s = pre @ [last_msg pb A sid sq err] \<and>
           map msg_Ack (so_issued s) = map of_nat [0..<length (so_issued s)] \<and>
           set (so_sent s) \<subseteq> set (so_issued s) \<and>
           (\<forall>i. prefix (out_bytes pb i (so_issued s)) (so_written s i)) \<and>
           (\<not> so_abort s \<longrightarrow>
              set (so_sent s) = set (so_issued s) \<and>
              (\<exists>before. so_sent s = before @ [last_msg pb A sid sq err]) \<and>
              (\<forall>i. out_bytes pb i (so_issued s) = so_written s i))"
proof -
  have inv: "so_numbered s" "so_delivery s" "so_ending pb A sid s" "so_bytes pb s"
    using sos.inv_reach [OF assms(1)] assms(2) by (auto simp: so_inv_def)
  obtain pre sq err where idle: "idle (so_ups s False)" "idle (so_ups s True)"
    and iss: "so_issued s = pre @ [last_msg pb A sid sq err]"
    and sent: "so_abort s \<or> (\<exists>before. so_sent s = before @ [last_msg pb A sid sq err])"
    using inv(3) assms(3) by (auto simp: so_ending_def)
  have "idle (so_ups s i)" for i using idle by (cases i) auto
  then have up: "so_ups s i = UOff \<or> so_ups s i = UDone" for i by (simp add: idle_def)
  have bytes: "so_written s i = out_bytes pb i (so_issued s) @ so_pipe s i" for i
    using inv(4) up [of i] by (auto simp: so_bytes_def)
  have pipe: "so_pipe s i = []" if "\<not> so_abort s" for i
    using inv(4) up [of i] that by (auto simp: so_bytes_def)
  have "up_pending (so_ups s False) = {}" "up_pending (so_ups s True) = {}" using up [of False] up [of True] by auto
  then have "so_pending s = {}" using assms(3) by (simp add: so_pending_def)
  then have "set (so_sent s) \<subseteq> set (so_issued s)" "\<not> so_abort s \<Longrightarrow> set (so_sent s) = set (so_issued s)"
    using inv(2) by (auto simp: so_delivery_def)
  with iss sent bytes pipe inv(1) show ?thesis
    by (intro exI [of _ pre] exI [of _ sq] exI [of _ err]) (auto simp: so_numbered_def)
qed

text \<open>A run with stdout only: two bytes, one message, the closing message.\<close>

definition so_at :: "up_pc \<Rightarrow> bytes \<Rightarrow> so_phase \<Rightarrow> Msg list \<Rightarrow> Msg list \<Rightarrow> so_state" where
  "so_at pc pipe ph iss snt =
     \<lparr>so_seq = of_nat (length iss), so_ups = (\<lambda>i. if i then UOff else pc), so_pipe = (\<lambda>i. if i then [] else pipe),
      so_written = (\<lambda>i. if i then [] else [1, 2]), so_phase = ph, so_issued = iss, so_sent = snt, so_abort = False\<rparr>"

lemma fun_upd_False: "(\<lambda>i. if i then a else b)(False := c) = (\<lambda>i. if i then a else c)"
  by auto

lemma run_upload:
  "\<exists>m1 m2. reach so_init (so_step pb A sid 10) (so_at UDone [] SEnd [m1, m2] [m1, m2])"
proof -
  let ?R = "reach so_init (so_step pb A sid 10)"
  let ?m1 = "up_msg pb sid False 0 [1, 2]" and ?m2 = "last_msg pb A sid 1 None"
  note defs = so_at_def fun_upd_False nextSeq_eq
  let ?s1 = "so_at UWait [1, 2] SRun [] []" and ?s2 = "so_at (UGot [1, 2]) [] SRun [] []"
  let ?s3 = "so_at (USend ?m1) [] SRun [?m1] []" and ?s4 = "so_at UWait [] SRun [?m1] [?m1]"
  let ?s5 = "so_at UWait [] (SClosing None) [?m1] [?m1]" and ?s6 = "so_at UDone [] (SClosing None) [?m1] [?m1]"
  let ?s7 = "so_at UDone [] (SLast ?m2) [?m1, ?m2] [?m1]" and ?s8 = "so_at UDone [] SDel [?m1, ?m2] [?m1, ?m2]"
  have st: "so_start True False = \<lparr>so_seq = 0, so_ups = (\<lambda>i. if i then UOff else UWait), so_pipe = (\<lambda>_. []),
      so_written = (\<lambda>_. []), so_phase = SRun, so_issued = [], so_sent = [], so_abort = False\<rparr>"
    by (simp add: so_start_def fun_eq_iff)
  have upd: "(\<lambda>_. [])(False := x) = (\<lambda>i. if i then [] else x)" for x :: bytes by auto
  have "?R (so_start True False)" by (rule reach_init) (auto simp: so_init_def)
  then have "?R ?s1"
    by (rule reach_step) (use so_write [of "so_start True False" False pb A sid 10 "[1, 2]"] in
        \<open>simp add: st upd so_at_def\<close>)
  then have "?R ?s2" by (rule reach_step) (use so_read [of ?s1 False 2 10 pb A sid] in \<open>simp add: defs\<close>)
  then have "?R ?s3" by (rule reach_step) (use so_number [of ?s2 False "[1, 2]" pb A sid 10] in \<open>simp add: defs\<close>)
  then have "?R ?s4" by (rule reach_step) (use so_send [of ?s3 False ?m1 pb A sid 10] in \<open>simp add: defs\<close>)
  then have "?R ?s5" by (rule reach_step) (use so_return [of ?s4 pb A sid 10 None] in \<open>simp add: defs\<close>)
  then have "?R ?s6" by (rule reach_step) (use so_eof [of ?s5 False pb A sid 10] in \<open>simp add: defs\<close>)
  then have "?R ?s7" by (rule reach_step) (use so_last [of ?s6 None pb A sid 10] in \<open>simp add: defs\<close>)
  then have "?R ?s8" by (rule reach_step) (use so_last_send [of ?s7 ?m2 pb A sid 10] in \<open>simp add: defs\<close>)
  then have "?R (so_at UDone [] SEnd [?m1, ?m2] [?m1, ?m2])"
    by (rule reach_step) (use so_delete [of ?s8 pb A sid 10] in \<open>simp add: defs\<close>)
  then show ?thesis by blast
qed

theorem uploads_sequenced_witness:
  "\<exists>s. reach so_init (so_step pb_example aranya_example 1 10) s \<and> so_phase s = SEnd \<and>
       map msg_Ack (so_issued s) = [0, 1] \<and> out_bytes pb_example False (so_issued s) = [1, 2]"
proof -
  obtain m1 m2 where r: "reach so_init (so_step pb_example aranya_example 1 10) (so_at UDone [] SEnd [m1, m2] [m1, m2])"
    using run_upload by blast
  have "map msg_Ack [m1, m2] = [0, 1]" "out_bytes pb_example False [m1, m2] = [1, 2]"
    using uploads_sequenced [OF r pb_example_distinct] by (auto simp: so_at_def)
  then show ?thesis using r by (intro exI [of _ "so_at UDone [] SEnd [m1, m2] [m1, m2]"]) (simp add: so_at_def)
qed

end
