(* ===== verification/Port_Forward.thy ===== *)
theory Port_Forward
  imports Upload
begin

text \<open>
  A port-forward session while it runs (\<open>handlePortForward\<close> of
  \<open>src/extruntime/handle_action.go\<close>, after \<open>streams.Add\<close> succeeded): the goroutine of
  the operation, which uploads what the engine's connection yields, the writes and the
  closing of the session's input, the delayed goroutines that the closing may start, and
  the engine at the other ends of the pipe and of \<open>downstream\<close>.
\<close>

section \<open>States\<close>

text \<open>
  The operation: in \<open>uploadDataOutput\<close> (waiting, with data, sending), draining
  \<open>errCh\<close>, or in the deferred function (before \<open>pw.Close\<close>, before \<open>nextSeq\<close>, in
  \<open>SendMsg\<close>, before \<open>streams.Del\<close>), or gone. A delayed goroutine sleeps, or is
  before \<open>pw.Close\<close>, \<open>closeWrite\<close>, \<open>downstream.Close\<close>, or gone.
\<close>

datatype pf_pc =
    FWait
  | FGot bytes
  | FSend Msg
  | FDrain "error option"
  | FClose "error option"
  | FLast "error option"
  | FLastSend Msg
  | FDel
  | FEnd

datatype delayed_pc = DSleep int | DPw | DCloseWrite | DDown | DGone

text \<open>
  \<open>pf_in\<close> are the bytes in the pipe to the engine, \<open>pf_down\<close> those the engine's
  connection produced and nobody read, \<open>pf_produced\<close> all it produced;
  \<open>pf_session\<close>: the session is in the table; \<open>pf_abort\<close>: a read or a send failed.
\<close>

record pf_state =
  pf_at :: pf_pc
  pf_seq :: u64
  pf_in :: bytes
  pf_down :: bytes
  pf_produced :: bytes
  pf_down_end :: bool
  pf_issued :: "Msg list"
  pf_sent :: "Msg list"
  pf_abort :: bool
  pf_pw_closes :: nat
  pf_closeWrites :: nat
  pf_down_closes :: nat
  pf_delayed :: "delayed_pc list"
  pf_session :: bool

definition pf_start :: pf_state where
  "pf_start =
     \<lparr>pf_at = FWait, pf_seq = 0, pf_in = [], pf_down = [], pf_produced = [], pf_down_end = False,
      pf_issued = [], pf_sent = [], pf_abort = False, pf_pw_closes = 0, pf_closeWrites = 0,
      pf_down_closes = 0, pf_delayed = [], pf_session = True\<rparr>"

text \<open>
  \<open>Close\<close> of the session's \<open>flexWriteCloser\<close>; \<open>is_file\<close>: the pipe's read end is an
  \<open>*os.File\<close>.
\<close>

definition pf_Close :: "bool \<Rightarrow> pf_state \<Rightarrow> pf_state" where
  "pf_Close is_file s =
     (case pf_closeFunc (if is_file then Some (int (length (pf_in s))) else None) of
        None \<Rightarrow> s
      | Some wait \<Rightarrow> s\<lparr>pf_delayed := pf_delayed s @ [DSleep wait]\<rparr>)"

text \<open>\<open>streams.Del(sid)\<close>.\<close>

definition pf_Del :: "bool \<Rightarrow> pf_state \<Rightarrow> pf_state" where
  "pf_Del is_file s = (if pf_session s then (pf_Close is_file s)\<lparr>pf_session := False\<rparr> else s)"

definition pf_msg :: "arhatgopb \<Rightarrow> u64 \<Rightarrow> u64 \<Rightarrow> bytes \<Rightarrow> Msg" where
  "pf_msg pb sid sq d = up_msg pb sid False sq d"

definition delayed_step :: "delayed_pc \<Rightarrow> pf_state \<Rightarrow> delayed_pc \<times> pf_state" where
  "delayed_step pc s =
     (case pc of
        DSleep _ \<Rightarrow> (DPw, s)
      | DPw \<Rightarrow> (DCloseWrite, s\<lparr>pf_pw_closes := Suc (pf_pw_closes s)\<rparr>)
      | DCloseWrite \<Rightarrow> (DDown, s\<lparr>pf_closeWrites := Suc (pf_closeWrites s)\<rparr>)
      | DDown \<Rightarrow> (DGone, s\<lparr>pf_down_closes := Suc (pf_down_closes s)\<rparr>)
      | DGone \<Rightarrow> (DGone, s))"

text \<open>
  The steps of the operation. \<open>SendMsg\<close> and the reads may fail at any time; the context
  may end the reading and the draining.
\<close>

inductive pf_main ::
  "arhatgopb \<Rightarrow> ('o, 'r) aranyagopb \<Rightarrow> u64 \<Rightarrow> nat \<Rightarrow> bool \<Rightarrow> pf_state \<Rightarrow> pf_state \<Rightarrow> bool"
  for pb A sid maxPayloadSize is_file where
  pf_read: "pf_at s = FWait \<Longrightarrow> n \<le> maxPayloadSize \<Longrightarrow> n \<le> length (pf_down s) \<Longrightarrow>
     pf_main pb A sid maxPayloadSize is_file s
       (s\<lparr>pf_at := FGot (take n (pf_down s)), pf_down := drop n (pf_down s)\<rparr>)"
| pf_eof: "pf_at s = FWait \<Longrightarrow> pf_down s = [] \<Longrightarrow> pf_down_end s \<Longrightarrow>
     pf_main pb A sid maxPayloadSize is_file s (s\<lparr>pf_at := FDrain None\<rparr>)"
| pf_read_err: "pf_at s = FWait \<Longrightarrow>
     pf_main pb A sid maxPayloadSize is_file s (s\<lparr>pf_at := FDrain None, pf_abort := True\<rparr>)"
| pf_number: "pf_at s = FGot d \<Longrightarrow>
     pf_main pb A sid maxPayloadSize is_file s
       (s\<lparr>pf_at := FSend (pf_msg pb sid (pf_seq s) d), pf_seq := snd (nextSeq (pf_seq s)),
          pf_issued := pf_issued s @ [pf_msg pb sid (pf_seq s) d]\<rparr>)"
| pf_send: "pf_at s = FSend msg \<Longrightarrow>
     pf_main pb A sid maxPayloadSize is_file s (s\<lparr>pf_at := FWait, pf_sent := pf_sent s @ [msg]\<rparr>)"
| pf_send_err: "pf_at s = FSend msg \<Longrightarrow>
     pf_main pb A sid maxPayloadSize is_file s (s\<lparr>pf_at := FDrain None, pf_abort := True\<rparr>)"
| pf_drain_err: "pf_at s = FDrain err \<Longrightarrow>
     pf_main pb A sid maxPayloadSize is_file s (s\<lparr>pf_at := FDrain (Some (pf_merge err x))\<rparr>)"
| pf_drain_end: "pf_at s = FDrain err \<Longrightarrow>
     pf_main pb A sid maxPayloadSize is_file s (s\<lparr>pf_at := FClose err\<rparr>)"
| pf_defer_close: "pf_at s = FClose err \<Longrightarrow>
     pf_main pb A sid maxPayloadSize is_file s
       (s\<lparr>pf_at := FLast err, pf_pw_closes := Suc (pf_pw_closes s)\<rparr>)"
| pf_last: "pf_at s = FLast err \<Longrightarrow> msg = last_msg pb A sid (pf_seq s) (map_option (common_err A) err) \<Longrightarrow>
     pf_main pb A sid maxPayloadSize is_file s
       (s\<lparr>pf_at := FLastSend msg, pf_seq := snd (nextSeq (pf_seq s)), pf_issued := pf_issued s @ [msg]\<rparr>)"
| pf_last_send: "pf_at s = FLastSend msg \<Longrightarrow>
     pf_main pb A sid maxPayloadSize is_file s (s\<lparr>pf_at := FDel, pf_sent := pf_sent s @ [msg]\<rparr>)"
| pf_last_err: "pf_at s = FLastSend msg \<Longrightarrow>
     pf_main pb A sid maxPayloadSize is_file s (s\<lparr>pf_at := FDel, pf_abort := True\<rparr>)"
| pf_del: "pf_at s = FDel \<Longrightarrow>
     pf_main pb A sid maxPayloadSize is_file s ((pf_Del is_file s)\<lparr>pf_at := FEnd\<rparr>)"

text \<open>
  Beside it: input is written (the pipe holds at most \<open>cap\<close> bytes, a writer waits), the
  input ends, another operation with the same session id deletes the session, the delayed
  goroutines run, and the engine reads its input and produces and ends its output.
\<close>

inductive pf_step ::
  "arhatgopb \<Rightarrow> ('o, 'r) aranyagopb \<Rightarrow> u64 \<Rightarrow> nat \<Rightarrow> bool \<Rightarrow> nat \<Rightarrow> pf_state \<Rightarrow> pf_state \<Rightarrow> bool"
  for pb A sid maxPayloadSize is_file cap where
  pf_run: "pf_main pb A sid maxPayloadSize is_file s t \<Longrightarrow> pf_step pb A sid maxPayloadSize is_file cap s t"
| pf_input: "pf_pw_closes s = 0 \<Longrightarrow> length (pf_in s @ d) \<le> cap \<Longrightarrow>
     pf_step pb A sid maxPayloadSize is_file cap s (s\<lparr>pf_in := pf_in s @ d\<rparr>)"
| pf_input_end: "pf_step pb A sid maxPayloadSize is_file cap s (pf_Close is_file s)"
| pf_other_Del: "pf_step pb A sid maxPayloadSize is_file cap s (pf_Del is_file s)"
| pf_delay: "i < length (pf_delayed s) \<Longrightarrow> delayed_step (pf_delayed s ! i) s = (pc, s') \<Longrightarrow>
     pf_step pb A sid maxPayloadSize is_file cap s (s'\<lparr>pf_delayed := (pf_delayed s)[i := pc]\<rparr>)"
| pf_engine_read: "pf_step pb A sid maxPayloadSize is_file cap s (s\<lparr>pf_in := drop n (pf_in s)\<rparr>)"
| pf_engine_write: "\<not> pf_down_end s \<Longrightarrow>
     pf_step pb A sid maxPayloadSize is_file cap s (s\<lparr>pf_down := pf_down s @ d, pf_produced := pf_produced s @ d\<rparr>)"
| pf_engine_end: "pf_step pb A sid maxPayloadSize is_file cap s (s\<lparr>pf_down_end := True\<rparr>)"

definition pf_init :: "pf_state \<Rightarrow> bool" where
  "pf_init s \<longleftrightarrow> s = pf_start"

section \<open>Invariant\<close>

definition pf_uploading :: "pf_pc \<Rightarrow> bool" where
  "pf_uploading pc \<longleftrightarrow> (case pc of FWait \<Rightarrow> True | FGot _ \<Rightarrow> True | FSend _ \<Rightarrow> True | _ \<Rightarrow> False)"

definition pf_ended :: "pf_pc \<Rightarrow> bool" where
  "pf_ended pc \<longleftrightarrow> (case pc of FLastSend _ \<Rightarrow> True | FDel \<Rightarrow> True | FEnd \<Rightarrow> True | _ \<Rightarrow> False)"

definition pf_held :: "pf_pc \<Rightarrow> bytes" where
  "pf_held pc = (case pc of FGot d \<Rightarrow> d | _ \<Rightarrow> [])"

definition pf_pending :: "pf_pc \<Rightarrow> Msg list" where
  "pf_pending pc = (case pc of FSend m \<Rightarrow> [m] | FLastSend m \<Rightarrow> [m] | _ \<Rightarrow> [])"

definition pf_uploads :: "pf_state \<Rightarrow> Msg list" where
  "pf_uploads s = (if pf_ended (pf_at s) then butlast (pf_issued s) else pf_issued s)"

definition msg_bytes :: "Msg list \<Rightarrow> bytes" where
  "msg_bytes ms = concat (map (\<lambda>m. slice_bytes (msg_Payload m)) ms)"

lemma pf_pc_simps [simp]:
  "pf_uploading FWait" "pf_uploading (FGot d)" "pf_uploading (FSend m)" "\<not> pf_uploading (FDrain e)"
  "\<not> pf_uploading (FClose e)" "\<not> pf_uploading (FLast e)" "\<not> pf_uploading (FLastSend m)" "\<not> pf_uploading FDel"
  "\<not> pf_uploading FEnd"
  "\<not> pf_ended FWait" "\<not> pf_ended (FGot d)" "\<not> pf_ended (FSend m)" "\<not> pf_ended (FDrain e)" "\<not> pf_ended (FClose e)"
  "\<not> pf_ended (FLast e)" "pf_ended (FLastSend m)" "pf_ended FDel" "pf_ended FEnd"
  "pf_held FWait = []" "pf_held (FGot d) = d" "pf_held (FSend m) = []" "pf_held (FDrain e) = []" "pf_held (FClose e) = []"
  "pf_held (FLast e) = []" "pf_held (FLastSend m) = []" "pf_held FDel = []" "pf_held FEnd = []"
  "pf_pending FWait = []" "pf_pending (FGot d) = []" "pf_pending (FSend m) = [m]" "pf_pending (FDrain e) = []"
  "pf_pending (FClose e) = []" "pf_pending (FLast e) = []" "pf_pending (FLastSend m) = [m]" "pf_pending FDel = []"
  "pf_pending FEnd = []"
  by (simp_all add: pf_uploading_def pf_ended_def pf_held_def pf_pending_def)

text \<open>
  Numbers are consecutive; the bytes of the connection are in the uploads, in hand or
  unread; the closing message is issued last; without a failure everything is sent.
\<close>

definition pf_numbered :: "pf_state \<Rightarrow> bool" where
  "pf_numbered s \<longleftrightarrow>
     pf_seq s = of_nat (length (pf_issued s)) \<and>
     map msg_Ack (pf_issued s) = map of_nat [0..<length (pf_issued s)]"

definition pf_content :: "arhatgopb \<Rightarrow> u64 \<Rightarrow> pf_state \<Rightarrow> bool" where
  "pf_content pb sid s \<longleftrightarrow>
     msg_bytes (pf_uploads s) @ pf_held (pf_at s) @ pf_down s = pf_produced s \<and>
     (\<forall>m \<in> set (pf_uploads s). msg_Kind m = MSG_DATA_OUTPUT pb \<and> msg_Id m = sid)"

definition pf_closing :: "arhatgopb \<Rightarrow> ('o, 'r) aranyagopb \<Rightarrow> u64 \<Rightarrow> pf_state \<Rightarrow> bool" where
  "pf_closing pb A sid s \<longleftrightarrow>
     (pf_ended (pf_at s) \<longrightarrow>
        pf_issued s \<noteq> [] \<and> (\<exists>sq err. last (pf_issued s) = last_msg pb A sid sq (map_option (common_err A) err))) \<and>
     (pf_ended (pf_at s) \<or> (\<exists>err. pf_at s = FLast err) \<longrightarrow> 0 < pf_pw_closes s) \<and>
     (pf_at s = FEnd \<longrightarrow> \<not> pf_session s)"

definition pf_delivered :: "pf_state \<Rightarrow> bool" where
  "pf_delivered s \<longleftrightarrow>
     (\<not> pf_abort s \<longrightarrow> pf_issued s = pf_sent s @ pf_pending (pf_at s) \<and>
        (pf_uploading (pf_at s) \<or> pf_down s = [] \<and> pf_down_end s))"

definition pf_inv :: "arhatgopb \<Rightarrow> ('o, 'r) aranyagopb \<Rightarrow> u64 \<Rightarrow> pf_state \<Rightarrow> bool" where
  "pf_inv pb A sid s \<longleftrightarrow> pf_numbered s \<and> pf_content pb sid s \<and> pf_closing pb A sid s \<and> pf_delivered s"

lemmas pf_inv_defs = pf_inv_def pf_numbered_def pf_content_def pf_closing_def pf_delivered_def

lemma pf_msg_sel [simp]:
  "msg_Kind (pf_msg pb sid sq d) = MSG_DATA_OUTPUT pb" "msg_Id (pf_msg pb sid sq d) = sid"
  "msg_Ack (pf_msg pb sid sq d) = sq" "msg_Payload (pf_msg pb sid sq d) = Some d"
  by (simp_all add: pf_msg_def up_msg_def up_kind_def nextSeq_eq)

lemma last_msg_Ack [simp]: "msg_Ack (last_msg pb A sid sq err) = sq"
  by (simp add: last_msg_def nextSeq_eq split: option.splits)

lemma pf_numbered_main: "pf_main pb A sid maxPayloadSize is_file s t \<Longrightarrow> pf_numbered s \<Longrightarrow> pf_numbered t"
  by (erule pf_main.cases) (auto simp: pf_numbered_def nextSeq_eq pf_Del_def pf_Close_def split: option.splits)

lemma msg_bytes_simps [simp]:
  "msg_bytes [] = []" "msg_bytes (ms @ ms') = msg_bytes ms @ msg_bytes ms'"
  "msg_bytes (m # ms) = slice_bytes (msg_Payload m) @ msg_bytes ms"
  by (simp_all add: msg_bytes_def)

lemma pf_Del_sel [simp]:
  "pf_at (pf_Del is_file s) = pf_at s" "pf_issued (pf_Del is_file s) = pf_issued s" "pf_seq (pf_Del is_file s) = pf_seq s"
  "pf_down (pf_Del is_file s) = pf_down s" "pf_produced (pf_Del is_file s) = pf_produced s"
  "pf_sent (pf_Del is_file s) = pf_sent s" "pf_abort (pf_Del is_file s) = pf_abort s"
  "pf_down_end (pf_Del is_file s) = pf_down_end s" "pf_pw_closes (pf_Del is_file s) = pf_pw_closes s"
  "\<not> pf_session (pf_Del is_file s)" "pf_in (pf_Del is_file s) = pf_in s"
  by (simp_all add: pf_Del_def pf_Close_def split: option.splits)

lemma pf_Close_sel [simp]:
  "pf_at (pf_Close is_file s) = pf_at s" "pf_issued (pf_Close is_file s) = pf_issued s" "pf_seq (pf_Close is_file s) = pf_seq s"
  "pf_down (pf_Close is_file s) = pf_down s" "pf_produced (pf_Close is_file s) = pf_produced s"
  "pf_sent (pf_Close is_file s) = pf_sent s" "pf_abort (pf_Close is_file s) = pf_abort s"
  "pf_down_end (pf_Close is_file s) = pf_down_end s" "pf_pw_closes (pf_Close is_file s) = pf_pw_closes s"
  "pf_session (pf_Close is_file s) = pf_session s" "pf_in (pf_Close is_file s) = pf_in s"
  by (simp_all add: pf_Close_def split: option.splits)

lemma pf_content_main: "pf_main pb A sid maxPayloadSize is_file s t \<Longrightarrow> pf_content pb sid s \<Longrightarrow> pf_content pb sid t"
  by (erule pf_main.cases) (auto simp: pf_content_def pf_uploads_def)

lemma pf_closing_main: "pf_main pb A sid maxPayloadSize is_file s t \<Longrightarrow> pf_closing pb A sid s \<Longrightarrow> pf_closing pb A sid t"
  by (erule pf_main.cases) (auto simp: pf_closing_def)

lemma pf_delivered_main: "pf_main pb A sid maxPayloadSize is_file s t \<Longrightarrow> pf_delivered s \<Longrightarrow> pf_delivered t"
  by (erule pf_main.cases) (auto simp: pf_delivered_def)

text \<open>What the other goroutines and the engine leave alone.\<close>

lemma pf_inv_cong:
  assumes inv: "pf_inv pb A sid s"
    and eq: "pf_at t = pf_at s" "pf_issued t = pf_issued s" "pf_seq t = pf_seq s" "pf_down t = pf_down s"
      "pf_produced t = pf_produced s" "pf_sent t = pf_sent s" "pf_abort t = pf_abort s"
      "pf_down_end t = pf_down_end s"
    and le: "pf_pw_closes s \<le> pf_pw_closes t" "pf_session t \<longrightarrow> pf_session s"
  shows "pf_inv pb A sid t"
proof -
  have "pf_numbered s" "pf_content pb sid s" "pf_delivered s" "pf_closing pb A sid s"
    using inv by (auto simp: pf_inv_def)
  then have "pf_numbered t" "pf_content pb sid t" "pf_delivered t"
    unfolding pf_numbered_def pf_content_def pf_delivered_def pf_uploads_def eq by blast+
  moreover have "pf_closing pb A sid t"
    using \<open>pf_closing pb A sid s\<close> le unfolding pf_closing_def eq by (meson less_le_trans)
  ultimately show ?thesis by (simp add: pf_inv_def)
qed

lemma pf_inv_delay:
  assumes "pf_inv pb A sid s" and "delayed_step pc s = (pc', s')"
  shows "pf_inv pb A sid (s'\<lparr>pf_delayed := ds\<rparr>)"
  by (rule pf_inv_cong [OF assms(1)])
    (use assms(2) in \<open>auto simp: delayed_step_def split: delayed_pc.splits\<close>)

lemma pf_step_inv:
  assumes "pf_step pb A sid maxPayloadSize is_file cap s t" and inv: "pf_inv pb A sid s"
  shows "pf_inv pb A sid t"
  using assms(1)
proof cases
  case pf_run
  with inv show ?thesis
    by (auto simp: pf_inv_def intro: pf_numbered_main pf_content_main pf_closing_main pf_delivered_main)
next
  case (pf_delay i pc s')
  with pf_inv_delay [OF inv pf_delay(3)] show ?thesis by simp
next
  case pf_engine_end
  with inv show ?thesis by (auto simp: pf_inv_defs pf_uploads_def)
next
  case (pf_engine_write d)
  with inv show ?thesis by (auto simp: pf_inv_defs pf_uploads_def)
qed (rule pf_inv_cong [OF inv]; simp)+

interpretation pfs: invariant_system pf_init "pf_step pb A sid maxPayloadSize is_file cap" "pf_inv pb A sid"
  for pb A sid maxPayloadSize is_file cap
proof
  fix s t
  show "pf_init s \<Longrightarrow> pf_inv pb A sid s" by (simp add: pf_init_def pf_start_def pf_inv_defs pf_uploads_def)
  show "pf_step pb A sid maxPayloadSize is_file cap s t \<Longrightarrow> pf_inv pb A sid s \<Longrightarrow> pf_inv pb A sid t"
    by (rule pf_step_inv)
qed

section \<open>The closing of the input\<close>

text \<open>
  With a pipe that is a file and never holds 100 KB, nothing is ever delayed: the pipe is
  closed by the deferred function only.
\<close>

definition pf_no_delay :: "nat \<Rightarrow> pf_state \<Rightarrow> bool" where
  "pf_no_delay cap s \<longleftrightarrow>
     length (pf_in s) \<le> cap \<and> pf_delayed s = [] \<and> pf_closeWrites s = 0 \<and> pf_down_closes s = 0 \<and>
     (pf_uploading (pf_at s) \<or> (\<exists>err. pf_at s = FDrain err) \<or> (\<exists>err. pf_at s = FClose err) \<longrightarrow> pf_pw_closes s = 0)"

lemma pf_Close_no_delay: "length (pf_in s) < 102400 \<Longrightarrow> pf_Close True s = s"
  using pf_closeFunc_small [of "int (length (pf_in s))"] by (simp add: pf_Close_def)

lemma pf_Del_no_delay: "length (pf_in s) < 102400 \<Longrightarrow> pf_Del True s = s\<lparr>pf_session := False\<rparr>"
  by (simp add: pf_Del_def pf_Close_no_delay)

lemma pf_no_delay_step:
  assumes "pf_step pb A sid maxPayloadSize True cap s t" and "cap < 102400" and nd: "pf_no_delay cap s"
  shows "pf_no_delay cap t"
proof -
  have small: "length (pf_in s) < 102400" using nd assms(2) by (simp add: pf_no_delay_def)
  from assms(1) show ?thesis
  proof cases
    case pf_run
    then show ?thesis by cases (use nd in \<open>auto simp: pf_no_delay_def pf_Del_no_delay [OF small]\<close>)
  qed (use nd in \<open>auto simp: pf_no_delay_def pf_Close_no_delay [OF small] pf_Del_no_delay [OF small]\<close>)
qed

lemma pf_no_delay_reach:
  "reach pf_init (pf_step pb A sid maxPayloadSize True cap) s \<Longrightarrow> cap < 102400 \<Longrightarrow> pf_no_delay cap s"
proof (induction rule: reach.induct)
  case (reach_init s)
  then show ?case by (simp add: pf_init_def pf_start_def pf_no_delay_def)
qed (blast intro: pf_no_delay_step)

section \<open>Properties\<close>

text \<open>
  C18. A port-forward session that ended has sent its uploads numbered from 0 without gaps
  with exactly one closing message after them; the uploads carry a prefix of what the
  forwarded connection produced, in order, and, unless a read or a send failed, all of it,
  all of them sent; the pipe to the engine is closed and the session is deleted.
\<close>

theorem port_forward_sequenced:
  assumes "reach pf_init (pf_step pb A sid maxPayloadSize is_file cap) s" and "pf_at s = FEnd"
  shows "\<exists>ups sq err. pf_issued s = ups @ [last_msg pb A sid sq (map_option (common_err A) err)] \<and>
           map msg_Ack (pf_issued s) = map of_nat [0..<length (pf_issued s)] \<and>
           (\<forall>m \<in> set ups. msg_Kind m = MSG_DATA_OUTPUT pb \<and> msg_Id m = sid) \<and>
           msg_bytes ups @ pf_down s = pf_produced s \<and>
           (pf_abort s \<or> pf_sent s = pf_issued s \<and> pf_down s = []) \<and>
           0 < pf_pw_closes s \<and> \<not> pf_session s"
proof -
  have inv: "pf_inv pb A sid s" by (rule pfs.inv_reach [OF assms(1)])
  have up: "pf_uploads s = butlast (pf_issued s)" using assms(2) by (simp add: pf_uploads_def)
  obtain sq err where ne: "pf_issued s \<noteq> []"
    and last: "last (pf_issued s) = last_msg pb A sid sq (map_option (common_err A) err)"
    using inv assms(2) by (auto simp: pf_inv_def pf_closing_def)
  have "pf_issued s = pf_uploads s @ [last_msg pb A sid sq (map_option (common_err A) err)]"
    using append_butlast_last_id [OF ne] by (simp add: up last)
  moreover have "map msg_Ack (pf_issued s) = map of_nat [0..<length (pf_issued s)]"
    using inv by (simp only: pf_inv_def pf_numbered_def)
  moreover have "msg_bytes (pf_uploads s) @ pf_down s = pf_produced s \<and>
      (\<forall>m \<in> set (pf_uploads s). msg_Kind m = MSG_DATA_OUTPUT pb \<and> msg_Id m = sid)"
    using inv unfolding pf_inv_def pf_content_def assms(2) pf_pc_simps append_Nil by blast
  moreover have "pf_abort s \<or> pf_sent s = pf_issued s \<and> pf_down s = []"
    using inv assms(2) by (auto simp: pf_inv_def pf_delivered_def)
  moreover have "0 < pf_pw_closes s \<and> \<not> pf_session s"
    using inv assms(2) by (auto simp: pf_inv_def pf_closing_def)
  ultimately show ?thesis by blast
qed

text \<open>
  C37. The end of the input is not passed on: when the pipe to the engine is a file that
  never holds 100 KB (102400 bytes), however often the client closes its side and whatever
  it sent before, \<open>closeWrite\<close> is never called, and the pipe stays open as long as the
  operation uploads or drains errors. A forwarded service that waits for the end of its
  input before it answers or closes is never told.
\<close>

theorem half_close_not_passed_on:
  assumes "reach pf_init (pf_step pb A sid maxPayloadSize True cap) s" and "cap < 102400"
  shows "pf_closeWrites s = 0 \<and> pf_down_closes s = 0 \<and>
         (pf_uploading (pf_at s) \<or> (\<exists>err. pf_at s = FDrain err) \<longrightarrow> pf_pw_closes s = 0)"
  using pf_no_delay_reach [OF assms] by (auto simp: pf_no_delay_def)

text \<open>A session whose connection yields one byte and ends, after three bytes of input.\<close>

definition pf_at_state :: "pf_pc \<Rightarrow> u64 \<Rightarrow> bytes \<Rightarrow> bool \<Rightarrow> Msg list \<Rightarrow> Msg list \<Rightarrow> nat \<Rightarrow> bool \<Rightarrow> pf_state" where
  "pf_at_state pc sq down fin iss snt n live =
     pf_start\<lparr>pf_at := pc, pf_seq := sq, pf_in := [1, 2, 3], pf_down := down, pf_produced := [9], pf_down_end := fin,
       pf_issued := iss, pf_sent := snt, pf_pw_closes := n, pf_session := live\<rparr>"

definition pf_up :: Msg where
  "pf_up = pf_msg pb_example 5 0 [9]"

definition pf_fin :: Msg where
  "pf_fin = last_msg pb_example aranya_example 5 1 None"

abbreviation pf_example_step :: "pf_state \<Rightarrow> pf_state \<Rightarrow> bool" where
  "pf_example_step \<equiv> pf_step pb_example aranya_example 5 4096 True 65536"

lemma pf_example_input: "reach pf_init pf_example_step (pf_at_state FWait 0 [9] False [] [] 0 True)"
proof -
  have "reach pf_init pf_example_step pf_start" by (rule reach_init) (simp add: pf_init_def)
  moreover have "pf_example_step pf_start (pf_start\<lparr>pf_in := [1, 2, 3]\<rparr>)"
    using pf_input [of pf_start "[1, 2, 3]" 65536] by (simp add: pf_start_def)
  moreover have "pf_example_step (pf_start\<lparr>pf_in := [1, 2, 3]\<rparr>) (pf_at_state FWait 0 [9] False [] [] 0 True)"
    using pf_engine_write [of "pf_start\<lparr>pf_in := [1, 2, 3]\<rparr>" _ _ _ _ _ _ "[9]"]
    by (simp add: pf_start_def pf_at_state_def)
  ultimately show ?thesis by (meson reach_step)
qed

lemma pf_example_main:
  "reach pf_init pf_example_step s \<Longrightarrow> pf_main pb_example aranya_example 5 4096 True s t \<Longrightarrow>
     reach pf_init pf_example_step t"
  by (blast intro: reach_step pf_run)

lemma pf_example_run: "reach pf_init pf_example_step (pf_at_state FEnd 2 [] True [pf_up, pf_fin] [pf_up, pf_fin] 1 False)"
proof -
  let ?s1 = "pf_at_state FWait 0 [9] False [] [] 0 True" and ?s2 = "pf_at_state FWait 0 [9] True [] [] 0 True"
  let ?s3 = "pf_at_state (FGot [9]) 0 [] True [] [] 0 True" and ?s4 = "pf_at_state (FSend pf_up) 1 [] True [pf_up] [] 0 True"
  let ?s5 = "pf_at_state FWait 1 [] True [pf_up] [pf_up] 0 True" and ?s6 = "pf_at_state (FDrain None) 1 [] True [pf_up] [pf_up] 0 True"
  let ?s7 = "pf_at_state (FClose None) 1 [] True [pf_up] [pf_up] 0 True" and ?s8 = "pf_at_state (FLast None) 1 [] True [pf_up] [pf_up] 1 True"
  let ?s9 = "pf_at_state (FLastSend pf_fin) 2 [] True [pf_up, pf_fin] [pf_up] 1 True"
  let ?s10 = "pf_at_state FDel 2 [] True [pf_up, pf_fin] [pf_up, pf_fin] 1 True"
  note defs = pf_at_state_def pf_start_def nextSeq_eq
  have "reach pf_init pf_example_step ?s2"
    by (rule reach_step [OF pf_example_input]) (use pf_engine_end [of _ _ _ _ _ _ ?s1] in \<open>simp add: defs\<close>)
  then have "reach pf_init pf_example_step ?s3"
    by (rule pf_example_main) (use pf_read [of ?s2 1 4096] in \<open>simp add: defs\<close>)
  then have "reach pf_init pf_example_step ?s4"
    by (rule pf_example_main) (use pf_number [of ?s3 "[9]" pb_example aranya_example 5] in \<open>simp add: defs pf_up_def\<close>)
  then have "reach pf_init pf_example_step ?s5"
    by (rule pf_example_main) (use pf_send [of ?s4 pf_up] in \<open>simp add: defs\<close>)
  then have "reach pf_init pf_example_step ?s6" by (rule pf_example_main) (use pf_eof [of ?s5] in \<open>simp add: defs\<close>)
  then have "reach pf_init pf_example_step ?s7" by (rule pf_example_main) (use pf_drain_end [of ?s6 None] in \<open>simp add: defs\<close>)
  then have "reach pf_init pf_example_step ?s8" by (rule pf_example_main) (use pf_defer_close [of ?s7 None] in \<open>simp add: defs\<close>)
  then have "reach pf_init pf_example_step ?s9"
    by (rule pf_example_main) (use pf_last [of ?s8 None pf_fin pb_example aranya_example 5] in \<open>simp add: defs pf_fin_def\<close>)
  then have "reach pf_init pf_example_step ?s10" by (rule pf_example_main) (use pf_last_send [of ?s9 pf_fin] in \<open>simp add: defs\<close>)
  then show ?thesis by (rule pf_example_main) (use pf_del [of ?s10 _ _ _ _ True] in \<open>simp add: defs pf_Del_no_delay\<close>)
qed

theorem port_forward_sequenced_witness:
  "reach pf_init pf_example_step (pf_at_state FEnd 2 [] True [pf_up, pf_fin] [pf_up, pf_fin] 1 False) \<and>
   (\<exists>ups. [pf_up, pf_fin] = ups @ [pf_fin] \<and> msg_bytes ups = [9])"
proof -
  let ?s = "pf_at_state FEnd 2 [] True [pf_up, pf_fin] [pf_up, pf_fin] 1 False"
  obtain ups m where "pf_issued ?s = ups @ [m]" "msg_bytes ups @ pf_down ?s = pf_produced ?s"
    using port_forward_sequenced [OF pf_example_run] by (auto simp: pf_at_state_def)
  then show ?thesis using pf_example_run by (auto simp: pf_at_state_def pf_start_def Cons_eq_append_conv)
qed

theorem half_close_not_passed_on_witness:
  "reach pf_init pf_example_step (pf_Close True (pf_at_state FWait 0 [9] False [] [] 0 True)) \<and>
   pf_closeWrites (pf_Close True (pf_at_state FWait 0 [9] False [] [] 0 True)) = 0"
proof -
  have "reach pf_init pf_example_step (pf_Close True (pf_at_state FWait 0 [9] False [] [] 0 True))"
    by (rule reach_step [OF pf_example_input pf_input_end])
  with half_close_not_passed_on [OF this] show ?thesis by simp
qed

end
