(* ===== verification/Session.thy ===== *)
theory Session
  imports Client Peripheral
begin

text \<open>
  Client and controller together (\<open>src/client.go\<close>, \<open>src/controller.go\<close>): the
  session goroutine takes the commands that the client's reader sent to \<open>cmdCh\<close>, has
  them handled, and sends the replies to \<open>msgCh\<close>, from which the client's writer takes
  them, while both of the client's goroutines go on and the bundle of channels may be
  replaced. The handler is any that keeps the contract \<open>sync_handler\<close>; the peripheral
  handler is one.
\<close>

section \<open>The composed system\<close>

text \<open>
  \<open>ss_pos\<close>: how many of the client's commands the session took; \<open>ss_pend\<close>: the
  reply it is sending; \<open>ss_replies\<close>: the replies it made; \<open>ss_closed\<close>: the channel
  \<open>closed\<close> of the bundle is closed, after which \<open>msgCh\<close> may be; \<open>ss_end\<close>: the
  loop over the commands has ended with an error.
\<close>

record 's session_sys =
  ss_cl :: cl_stream
  ss_st :: 's
  ss_pos :: nat
  ss_pend :: "Msg list"
  ss_replies :: "Msg list"
  ss_closed :: bool
  ss_end :: bool

text \<open>
  Steps of the client other than a message appearing in its \<open>msgCh\<close>, which only the
  session sends; the loop of the session, one command at a time; the select of
  \<open>sendMsg\<close>, whose case \<open>cb.closed\<close> drops the message and goes on; the bundle's
  \<open>Close\<close>. A send on the closed \<open>msgCh\<close> would panic: no step follows.
\<close>

inductive ss_step ::
  "arhatgopb \<Rightarrow> ('v body \<Rightarrow> error + bytes) \<Rightarrow> ('s, 'v) handle_func \<Rightarrow> 's session_sys \<Rightarrow> 's session_sys \<Rightarrow> bool"
  for pb marshal handle where
  ss_client: "cl_step pb (ss_cl s) c \<Longrightarrow> cl_taken c @ cl_msgs c = cl_taken (ss_cl s) @ cl_msgs (ss_cl s) \<Longrightarrow>
     (msg_closed c \<Longrightarrow> msg_closed (ss_cl s) \<or> ss_closed s) \<Longrightarrow> ss_step pb marshal handle s (s\<lparr>ss_cl := c\<rparr>)"
| ss_take: "\<not> ss_end s \<Longrightarrow> ss_pend s = [] \<Longrightarrow> ss_pos s < length (cl_cmds (ss_cl s)) \<Longrightarrow>
     session_cmd marshal handle send_append (cl_cmds (ss_cl s) ! ss_pos s) (ss_st s) [] = Ret (None, st, ms) \<Longrightarrow>
     ss_step pb marshal handle s
       (s\<lparr>ss_st := st, ss_pos := Suc (ss_pos s), ss_pend := ms, ss_replies := ss_replies s @ ms\<rparr>)"
| ss_take_err: "\<not> ss_end s \<Longrightarrow> ss_pend s = [] \<Longrightarrow> ss_pos s < length (cl_cmds (ss_cl s)) \<Longrightarrow>
     session_cmd marshal handle send_append (cl_cmds (ss_cl s) ! ss_pos s) (ss_st s) [] = Ret (Some err, st, ms) \<Longrightarrow>
     ss_step pb marshal handle s (s\<lparr>ss_st := st, ss_end := True\<rparr>)"
| ss_send: "\<not> ss_end s \<Longrightarrow> ss_pend s = msg # ms \<Longrightarrow> \<not> msg_closed (ss_cl s) \<Longrightarrow>
     ss_step pb marshal handle s (s\<lparr>ss_pend := ms, ss_cl := (ss_cl s)\<lparr>cl_msgs := cl_msgs (ss_cl s) @ [msg]\<rparr>\<rparr>)"
| ss_send_closed: "\<not> ss_end s \<Longrightarrow> ss_pend s = msg # ms \<Longrightarrow> ss_closed s \<Longrightarrow>
     ss_step pb marshal handle s (s\<lparr>ss_pend := ms\<rparr>)"
| ss_send_done: "\<not> ss_end s \<Longrightarrow> ss_pend s = msg # ms \<Longrightarrow> ss_step pb marshal handle s (s\<lparr>ss_end := True\<rparr>)"
| ss_close: "ss_step pb marshal handle s (s\<lparr>ss_closed := True\<rparr>)"

definition ss_start :: "'s \<Rightarrow> 's session_sys" where
  "ss_start st =
     \<lparr>ss_cl = cl_start, ss_st = st, ss_pos = 0, ss_pend = [], ss_replies = [], ss_closed = False, ss_end = False\<rparr>"

section \<open>Projection and invariant\<close>

lemma cl_step_cmds: "cl_step pb c c' \<Longrightarrow> prefix (cl_cmds c) (cl_cmds c')"
  by (erule cl_step.cases) (auto simp: cl_return_def)

text \<open>The client's part of a run is a run of the client.\<close>

lemma ss_client_run:
  assumes "ss_step pb marshal handle s t"
  shows "cl_step pb (ss_cl s) (ss_cl t) \<or> ss_cl t = ss_cl s"
  using assms by cases (auto intro: cl_msg_send)

definition reply_keys :: "Msg list \<Rightarrow> (u64 \<times> u64) list" where
  "reply_keys ms = map (\<lambda>m. (msg_Id m, msg_Ack m)) ms"

definition cmd_keys :: "Cmd list \<Rightarrow> (u64 \<times> u64) list" where
  "cmd_keys cs = map (\<lambda>c. (cmd_Id c, cmd_Seq c)) cs"

definition ss_handed :: "'s session_sys \<Rightarrow> Msg list" where
  "ss_handed s = cl_taken (ss_cl s) @ cl_msgs (ss_cl s) @ ss_pend s"

definition ss_inv :: "('s \<Rightarrow> bool) \<Rightarrow> 's session_sys \<Rightarrow> bool" where
  "ss_inv I s \<longleftrightarrow>
     I (ss_st s) \<and> ss_pos s \<le> length (cl_cmds (ss_cl s)) \<and>
     reply_keys (ss_replies s) = cmd_keys (take (ss_pos s) (cl_cmds (ss_cl s))) \<and>
     subseq (ss_handed s) (ss_replies s) \<and> (ss_closed s \<or> ss_handed s = ss_replies s)"

lemma ss_handed_client:
  assumes "cl_taken c @ cl_msgs c = cl_taken (ss_cl s) @ cl_msgs (ss_cl s)"
  shows "ss_handed (s\<lparr>ss_cl := c\<rparr>) = ss_handed s"
proof -
  have "ss_handed (s\<lparr>ss_cl := c\<rparr>) = (cl_taken c @ cl_msgs c) @ ss_pend s" by (simp add: ss_handed_def)
  also have "\<dots> = ss_handed s" by (simp only: assms) (simp add: ss_handed_def)
  finally show ?thesis .
qed

text \<open>
  What the session has done is what the sequential command loop does on the commands it
  took; after an error the handler's state may have gone on.
\<close>

definition ss_seq :: "('v body \<Rightarrow> error + bytes) \<Rightarrow> ('s, 'v) handle_func \<Rightarrow> 's \<Rightarrow> 's session_sys \<Rightarrow> bool" where
  "ss_seq marshal handle st0 s \<longleftrightarrow>
     ss_pos s \<le> length (cl_cmds (ss_cl s)) \<and>
     (\<exists>st. session_loop marshal handle send_append (take (ss_pos s) (cl_cmds (ss_cl s))) st0 [] = Ret (None, st, ss_replies s) \<and>
           (ss_end s \<or> st = ss_st s))"

lemma session_cmd_append:
  assumes "session_cmd marshal handle send_append cmd s [] = Ret (e, s', ms)"
  shows "session_cmd marshal handle send_append cmd s w = Ret (e, s', w @ ms)"
proof -
  obtain r s1 where "handle cmd s = Ret (r, s1)" using assms by (auto simp: session_cmd_def bind_outcome_Ret_iff)
  with assms show ?thesis
    by (cases "reply_body r") (auto simp: session_cmd_def send_append_def split: sum.splits)
qed

lemma session_loop_snoc:
  assumes "session_loop marshal handle send_append cmds st [] = Ret (None, st1, w)"
    and "session_cmd marshal handle send_append cmd st1 [] = Ret (None, st2, ms)"
  shows "session_loop marshal handle send_append (cmds @ [cmd]) st [] = Ret (None, st2, w @ ms)"
proof -
  have "session_loop marshal handle send_append (cmds @ [cmd]) st v = Ret (None, st2, w @ ms)"
    if "session_loop marshal handle send_append cmds st v = Ret (None, st1, w)" for v
    using that
  proof (induction cmds arbitrary: st v)
    case Nil
    with session_cmd_append [OF assms(2)] show ?case by simp
  next
    case (Cons c cmds)
    then show ?case by (fastforce simp: bind_outcome_Ret_iff split: option.splits prod.splits)
  qed
  with assms(1) show ?thesis by blast
qed

lemma ss_seq_step:
  assumes "ss_step pb marshal handle s t" and seq: "ss_seq marshal handle st0 s"
  shows "ss_seq marshal handle st0 t"
  using assms(1)
proof cases
  case (ss_client c)
  obtain more where "cl_cmds c = cl_cmds (ss_cl s) @ more" using cl_step_cmds [OF ss_client(2)] by (auto simp: prefix_def)
  with seq show ?thesis by (simp add: ss_client(1) ss_seq_def)
next
  case (ss_take st ms)
  with seq session_loop_snoc [OF _ ss_take(5)] show ?thesis by (auto simp: ss_seq_def take_Suc_conv_app_nth)
qed (use seq in \<open>auto simp: ss_seq_def\<close>)

context sync_handler
begin

text \<open>A command gets one reply, or, when that cannot be marshalled, an error ends the loop.\<close>

lemma session_cmd_one:
  assumes "inv s" and "session_cmd marshal handle send_append cmd s [] = Ret (e, s', ms)"
  shows "inv s' \<and> (e = None \<longrightarrow> (\<exists>m. ms = [m] \<and> msg_Id m = cmd_Id cmd \<and> msg_Ack m = cmd_Seq cmd))"
proof -
  obtain kind ret err s1 where h: "handle cmd s = Ret ((kind, ret, err), s1)" "inv s1" "ret \<noteq> None \<or> err \<noteq> None"
    using answers [OF assms(1)] by blast
  then obtain b where "reply_body (kind, ret, err) = Some b" by (cases err) (auto simp: reply_body_def)
  with h assms(2) show ?thesis by (auto simp: session_cmd_def NewMsg_def send_append_def split: sum.splits)
qed

lemma ss_step_inv:
  assumes "ss_step pb marshal handle s t" and si: "ss_inv inv s"
  shows "ss_inv inv t"
  using assms(1)
proof cases
  case (ss_client c)
  obtain more where "cl_cmds c = cl_cmds (ss_cl s) @ more" using cl_step_cmds [OF ss_client(2)] by (auto simp: prefix_def)
  with ss_handed_client [OF ss_client(3)] si show ?thesis by (simp add: ss_inv_def ss_client(1))
next
  case (ss_take st ms)
  have "inv (ss_st s)" using si by (simp add: ss_inv_def)
  from session_cmd_one [OF this ss_take(5)] obtain m where m: "inv st" "ms = [m]"
    "msg_Id m = cmd_Id (cl_cmds (ss_cl s) ! ss_pos s)" "msg_Ack m = cmd_Seq (cl_cmds (ss_cl s) ! ss_pos s)" by blast
  have "ss_handed t = ss_handed s @ [m]" using ss_take m(2) by (simp add: ss_handed_def)
  with ss_take m si show ?thesis
    by (auto simp: ss_inv_def reply_keys_def cmd_keys_def take_Suc_conv_app_nth intro: list_emb_append_mono)
next
  case (ss_take_err err st ms)
  have "inv (ss_st s)" using si by (simp add: ss_inv_def)
  from session_cmd_one [OF this ss_take_err(5)] ss_take_err si show ?thesis by (auto simp: ss_inv_def ss_handed_def)
next
  case (ss_send_closed msg ms)
  have "subseq (ss_handed t) (ss_handed s)"
    using ss_send_closed by (auto simp: ss_handed_def subseq_append' intro: list_emb_Cons)
  with ss_send_closed si show ?thesis by (auto simp: ss_inv_def intro: subseq_order.order_trans)
qed (use si in \<open>auto simp: ss_inv_def ss_handed_def\<close>)

text \<open>What the session handed to the client, and that the client's part is a run of the client.\<close>

lemma session_answers:
  assumes "reach (\<lambda>s. s = ss_start st) (ss_step pb marshal handle) s" and "inv st"
  shows "ss_inv inv s \<and> reach cl_init (cl_step pb) (ss_cl s)"
  using assms(1)
proof (induction rule: reach.induct)
  case (reach_init s)
  then show ?case using assms(2)
    by (auto simp: ss_start_def ss_inv_def ss_handed_def reply_keys_def cmd_keys_def cl_start_def cl_init_def
        intro: reach.reach_init)
next
  case (reach_step s t)
  then show ?case using ss_step_inv [OF reach_step(2)] ss_client_run [OF reach_step(2)]
    by (metis reach.reach_step)
qed

end

section \<open>Lemmas\<close>

lemma client_wrote:
  assumes "reach cl_init (cl_step pb) c"
  obtains n msgs where "cl_out c \<in> shuffles (replicate n (pong_msg pb)) msgs" "n \<le> pings pb c"
    "prefix msgs (cl_taken c)" "prefix (cl_cmds c) (filter (\<lambda>x. \<not> is_ping pb x) (cl_decoded c))"
proof -
  have inv: "cl_cmds_ok pb c" "out_ok pb c" using cls.inv_reach [OF assms] by (auto simp: cl_inv_def)
  from inv(1) have "prefix (cl_cmds c) (filter (\<lambda>x. \<not> is_ping pb x) (cl_decoded c))"
    by (auto simp: cl_cmds_ok_def Let_def split: if_splits)
  with inv(2) that show ?thesis unfolding out_ok_def by fastforce
qed

lemma client_written:
  assumes "reach cl_init (cl_step pb) c" and "m \<in> set (cl_out c)"
  shows "m = pong_msg pb \<or> m \<in> set (cl_taken c)"
proof -
  from assms(1) obtain n msgs where out: "cl_out c \<in> shuffles (replicate n (pong_msg pb)) msgs"
    and "prefix msgs (cl_taken c)" by (rule client_wrote)
  then show ?thesis using set_shuffles [OF out] assms(2) set_mono_prefix [of msgs "cl_taken c"] by (auto split: if_splits)
qed

lemma subseq_map_eq:
  assumes "subseq xs ys" and "map f ys = map g zs"
  shows "\<exists>ws. subseq ws zs \<and> map f xs = map g ws"
proof -
  from assms(1) obtain N where "xs = nths ys N" by (auto simp: subseq_conv_nths)
  with assms(2) have "map f xs = map g (nths zs N)" by (simp add: nths_map [symmetric])
  then show ?thesis by (meson subseq_conv_nths)
qed

lemma prefix_map_eq:
  assumes "prefix xs ys" and "map f ys = map g zs"
  shows "\<exists>ws. prefix ws zs \<and> map f xs = map g ws"
proof -
  from assms(1) obtain r where "ys = xs @ r" by (auto simp: prefix_def)
  with assms(2) obtain us vs where "zs = us @ vs" "map f xs = map g us" by (auto simp: append_eq_map_conv)
  then show ?thesis by (auto simp: prefix_def)
qed

section \<open>Properties\<close>

text \<open>
  C12. A peripheral extension as a whole: under every interleaving of the client's reader
  and writer, the session goroutine and the replacement of the channels, what the client
  writes to the connection is an interleaving of at most one pong per ping it read with
  the replies to commands it read, in the order of the commands and each with its
  command's id and sequence number; as long as the channels are not closed, to the first
  commands without a gap. Nothing is assumed of \<open>marshal\<close>: a reply that cannot be
  marshalled ends the session's loop.
\<close>

theorem peripheral_end_to_end:
  assumes "reach (\<lambda>s. s = ss_start st) (ss_step pb marshal (per_HandleCmd pb we U I)) s"
  shows "\<exists>n msgs cs. cl_out (ss_cl s) \<in> shuffles (replicate n (pong_msg pb)) msgs \<and>
           n \<le> pings pb (ss_cl s) \<and>
           map (\<lambda>m. (msg_Id m, msg_Ack m)) msgs = map (\<lambda>c. (cmd_Id c, cmd_Seq c)) cs \<and>
           subseq cs (filter (\<lambda>c. \<not> is_ping pb c) (cl_decoded (ss_cl s))) \<and>
           (ss_closed s \<or> prefix cs (filter (\<lambda>c. \<not> is_ping pb c) (cl_decoded (ss_cl s))))"
proof -
  let ?read = "filter (\<lambda>c. \<not> is_ping pb c) (cl_decoded (ss_cl s))"
  have si: "ss_inv (\<lambda>_. True) s" and cl: "reach cl_init (cl_step pb) (ss_cl s)"
    using perh.session_answers [OF assms TrueI] by auto
  from cl obtain n msgs where out: "cl_out (ss_cl s) \<in> shuffles (replicate n (pong_msg pb)) msgs" "n \<le> pings pb (ss_cl s)"
    and pre: "prefix msgs (cl_taken (ss_cl s))" and fwd: "prefix (cl_cmds (ss_cl s)) ?read" by (rule client_wrote)
  have handed: "prefix msgs (ss_handed s)" using pre by (simp add: ss_handed_def)
  have keys: "map (\<lambda>m. (msg_Id m, msg_Ack m)) (ss_replies s) =
      map (\<lambda>c. (cmd_Id c, cmd_Seq c)) (take (ss_pos s) (cl_cmds (ss_cl s)))"
    using si by (simp add: ss_inv_def reply_keys_def cmd_keys_def)
  have first: "prefix (take (ss_pos s) (cl_cmds (ss_cl s))) ?read"
    using fwd take_is_prefix prefix_order.order_trans by blast
  show ?thesis
  proof (cases "ss_closed s")
    case True
    have "subseq msgs (ss_replies s)"
      using si prefix_imp_subseq [OF handed] by (auto simp: ss_inv_def intro: subseq_order.order_trans)
    from subseq_map_eq [OF this keys] obtain cs where "subseq cs (take (ss_pos s) (cl_cmds (ss_cl s)))"
      "map (\<lambda>m. (msg_Id m, msg_Ack m)) msgs = map (\<lambda>c. (cmd_Id c, cmd_Seq c)) cs" by blast
    moreover from this(1) have "subseq cs ?read" using prefix_imp_subseq [OF first] subseq_order.order_trans by blast
    ultimately show ?thesis using out True by blast
  next
    case False
    with si handed have "prefix msgs (ss_replies s)" by (simp add: ss_inv_def)
    from prefix_map_eq [OF this keys] obtain cs where "prefix cs (take (ss_pos s) (cl_cmds (ss_cl s)))"
      "map (\<lambda>m. (msg_Id m, msg_Ack m)) msgs = map (\<lambda>c. (cmd_Id c, cmd_Seq c)) cs" by blast
    moreover from this(1) have "prefix cs ?read" using first prefix_order.order_trans by blast
    ultimately show ?thesis using out prefix_imp_subseq by blast
  qed
qed

text \<open>A run: one command is read, handled, and its reply written.\<close>

type_synonym example_state = "(nat per_handler \<times> nat) session_sys"

abbreviation ss_example_step :: "example_state \<Rightarrow> example_state \<Rightarrow> bool" where
  "ss_example_step \<equiv> ss_step pb_example (\<lambda>b. Inr [0]) (per_HandleCmd pb_example we_example unmarshal_example impl_example)"

abbreviation ss_example_reach :: "example_state \<Rightarrow> bool" where
  "ss_example_reach \<equiv> reach (\<lambda>s. s = ss_start (NewPeripheralHandler, 0)) ss_example_step"

lemma ss_example_client:
  assumes "ss_example_reach (b\<lparr>ss_cl := c\<rparr>)" and "cl_step pb_example c c'"
    and "cl_taken c' @ cl_msgs c' = cl_taken c @ cl_msgs c" and "\<not> msg_closed c'"
  shows "ss_example_reach (b\<lparr>ss_cl := c'\<rparr>)"
  using reach_step [OF assms(1) ss_client [of pb_example "b\<lparr>ss_cl := c\<rparr>" c']] assms(2-4) by simp

lemma ss_example_read:
  "ss_example_reach ((ss_start (NewPeripheralHandler, 0))\<lparr>ss_cl := cl_start\<lparr>cl_decoded := [exec_cmd], cl_cmds := [exec_cmd]\<rparr>\<rparr>)"
proof -
  let ?s = "\<lambda>c. (ss_start (NewPeripheralHandler, 0) :: example_state)\<lparr>ss_cl := c\<rparr>"
  let ?c1 = "cl_start\<lparr>cl_in := [exec_cmd]\<rparr>" and ?c2 = "cl_start\<lparr>cl_decoded := [exec_cmd], cr := CForward exec_cmd\<rparr>"
  have "ss_example_reach (?s cl_start)" by (rule reach_init) (simp add: ss_start_def)
  then have "ss_example_reach (?s ?c1)"
    by (rule ss_example_client) (use cl_peer_cmd [of cl_start] in \<open>simp_all add: cl_start_def\<close>)
  then have "ss_example_reach (?s ?c2)"
    by (rule ss_example_client)
      (use cr_cmd [of ?c1 exec_cmd "[]" pb_example] in \<open>simp_all add: cl_start_def exec_cmd_def pb_example_def\<close>)
  then show ?thesis
    by (rule ss_example_client) (use cr_forward [of ?c2 exec_cmd] in \<open>simp_all add: cl_start_def\<close>)
qed

lemma ss_example_run:
  "\<exists>s m. ss_example_reach s \<and> cl_out (ss_cl s) = [m] \<and> cl_decoded (ss_cl s) = [exec_cmd] \<and> \<not> ss_closed s"
proof -
  let ?c = "cl_start\<lparr>cl_decoded := [exec_cmd], cl_cmds := [exec_cmd]\<rparr>"
  let ?h = "per_HandleCmd pb_example we_example unmarshal_example impl_example"
  let ?s = "(ss_start (NewPeripheralHandler, 0) :: example_state)\<lparr>ss_cl := ?c\<rparr>"
  obtain st m where one: "session_cmd (\<lambda>b. Inr [0]) ?h send_append exec_cmd (NewPeripheralHandler, 0) [] = Ret (None, st, [] @ [m])"
    using perh.session_cmd_replies [where marshal = "\<lambda>b. Inr [0]" and w = "[]" and cmd = exec_cmd, OF TrueI] by blast
  let ?t = "?s\<lparr>ss_st := st, ss_pos := 1, ss_pend := [m], ss_replies := [m]\<rparr>"
  let ?u = "\<lambda>c. ?t\<lparr>ss_pend := [], ss_cl := c\<rparr>" and ?c' = "?c\<lparr>cl_msgs := [m]\<rparr>"
  let ?fin = "?c\<lparr>cl_taken := [m], cl_out := [m]\<rparr>"
  have "ss_example_step ?s ?t"
    using ss_take [of ?s "\<lambda>b. Inr [0]" ?h st "[m]" pb_example] one by (simp add: ss_start_def)
  then have "ss_example_reach ?t" by (rule reach_step [OF ss_example_read])
  moreover have "ss_example_step ?t (?u ?c')"
    using ss_send [of ?t m "[]"] by (simp add: ss_start_def cl_start_def)
  ultimately have u: "ss_example_reach (?u ?c')" by (rule reach_step)
  have "cl_step pb_example ?c' ?fin" using cw_msg [of ?c' m "[]"] by (simp add: cl_start_def)
  from ss_example_client [OF u this] have "ss_example_reach (?u ?fin)" by (simp add: cl_start_def)
  then show ?thesis by (intro exI [of _ "?u ?fin"] exI [of _ m]) (simp add: ss_start_def)
qed

theorem peripheral_end_to_end_witness:
  "\<exists>s m. ss_example_reach s \<and> cl_out (ss_cl s) = [m] \<and> cl_decoded (ss_cl s) = [exec_cmd] \<and>
         msg_Id m = cmd_Id exec_cmd \<and> msg_Ack m = cmd_Seq exec_cmd"
proof -
  obtain s m where s: "ss_example_reach s" "cl_out (ss_cl s) = [m]" "cl_decoded (ss_cl s) = [exec_cmd]" "\<not> ss_closed s"
    using ss_example_run by blast
  have "\<not> is_ping pb_example exec_cmd" by (simp add: is_ping_def exec_cmd_def pb_example_def)
  with peripheral_end_to_end [OF s(1)] s have "msg_Id m = cmd_Id exec_cmd \<and> msg_Ack m = cmd_Seq exec_cmd"
    by (auto simp: pings_def)
  with s show ?thesis by blast
qed

end
