(* ===== verification/Wire.thy ===== *)
theory Wire
  imports Codec
begin

text \<open>
  One direction of a connection at the level of bytes: the goroutine that encodes
  (\<open>enc.Encode\<close> in \<open>src/server/extension.go\<close> and \<open>src/client.go\<close>), the network,
  and the goroutine that decodes at the other end. Writes may fail after any number of
  bytes, bytes arrive in any portions, and the connection may end at any time. It
  implements the channel of whole messages that the theory \<open>Hub\<close> uses.
\<close>

section \<open>Byte streams\<close>

text \<open>
  A network connection as an \<open>io.Writer\<close>: for each \<open>Write\<close> the list says whether it
  fails, after how many bytes and with which error.
\<close>

definition net_write ::
  "bytes \<times> (nat \<times> error) option list \<Rightarrow> bytes \<Rightarrow> (bytes \<times> (nat \<times> error) option list) \<times> error option" where
  "net_write c b =
     (case c of
        (w, Some (k, err) # ds) \<Rightarrow> ((w @ take k b, ds), Some err)
      | (w, ds) \<Rightarrow> ((w @ b, tl ds), None))"

text \<open>
  \<open>wi_sent\<close>: the messages given to \<open>Encode\<close>; \<open>wi_bytes\<close>: the bytes written;
  \<open>wi_got\<close>: how many have arrived; \<open>wi_buf\<close>: those of them not yet decoded;
  \<open>wi_recv\<close>: the messages decoded; the pools of buffers of both processes; whether the
  encoding goroutine has stopped, and the error with which the decoding one has.
\<close>

record 'v wire =
  wi_sent :: "'v list"
  wi_bytes :: bytes
  wi_got :: nat
  wi_buf :: bytes
  wi_recv :: "'v list"
  wi_wpool :: pool
  wi_rpool :: pool
  wi_stop :: bool
  wi_end :: "error option"

definition wire_start :: "'v wire" where
  "wire_start = \<lparr>wi_sent = [], wi_bytes = [], wi_got = 0, wi_buf = [], wi_recv = [], wi_wpool = [], wi_rpool = [],
     wi_stop = False, wi_end = None\<rparr>"

text \<open>
  The messages are those whose own marshalling round trips (\<open>wire_ok\<close>), or fail to
  marshal. Both goroutines return at the first error. \<open>Decode\<close> waits for bytes: it
  succeeds when enough have arrived, and fails when the connection ended after those that
  have, with whatever error the connection reports.
\<close>

inductive wire_step :: "'v gogo \<Rightarrow> 'v \<Rightarrow> 'v wire \<Rightarrow> 'v wire \<Rightarrow> bool" for g fresh where
  wi_encode: "\<not> wi_stop s \<Longrightarrow> wire_ok g fresh m \<Longrightarrow>
     Encode g net_write pick (wi_wpool s) (wi_bytes s, ds) m = Ret (e, p, (w, ds')) \<Longrightarrow>
     wire_step g fresh s (s\<lparr>wi_sent := wi_sent s @ [m], wi_bytes := w, wi_wpool := p, wi_stop := e \<noteq> None\<rparr>)"
| wi_encode_bad: "\<not> wi_stop s \<Longrightarrow> encode_data g m = Inl err \<Longrightarrow>
     Encode g net_write pick (wi_wpool s) (wi_bytes s, ds) m = Ret (e, p, (w, ds')) \<Longrightarrow>
     wire_step g fresh s (s\<lparr>wi_bytes := w, wi_wpool := p, wi_stop := e \<noteq> None\<rparr>)"
| wi_return: "wire_step g fresh s (s\<lparr>wi_stop := True\<rparr>)"
| wi_arrive: "wi_end s = None \<Longrightarrow> wi_got s + n \<le> length (wi_bytes s) \<Longrightarrow>
     wire_step g fresh s (s\<lparr>wi_got := wi_got s + n, wi_buf := wi_buf s @ take n (drop (wi_got s) (wi_bytes s))\<rparr>)"
| wi_decode: "wi_end s = None \<Longrightarrow>
     Decode g pick (wi_rpool s) \<lparr>rd_data = wi_buf s, rd_err = err\<rparr> fresh = Ret (None, p, r, v) \<Longrightarrow>
     wire_step g fresh s (s\<lparr>wi_recv := wi_recv s @ [v], wi_buf := rd_data r, wi_rpool := p\<rparr>)"
| wi_decode_err: "wi_end s = None \<Longrightarrow>
     Decode g pick (wi_rpool s) \<lparr>rd_data = wi_buf s, rd_err = err\<rparr> fresh = Ret (Some e, p, r, v) \<Longrightarrow>
     wire_step g fresh s (s\<lparr>wi_buf := rd_data r, wi_rpool := p, wi_end := Some e\<rparr>)"

section \<open>The channel it implements\<close>

record 'v fifo =
  ff_sent :: "'v list"
  ff_recv :: "'v list"

inductive fifo_step :: "'v fifo \<Rightarrow> 'v fifo \<Rightarrow> bool" where
  ff_send: "fifo_step f (f\<lparr>ff_sent := ff_sent f @ [m]\<rparr>)"
| ff_take: "length (ff_recv f) < length (ff_sent f) \<Longrightarrow>
     fifo_step f (f\<lparr>ff_recv := ff_recv f @ [ff_sent f ! length (ff_recv f)]\<rparr>)"

definition wire_abs :: "'v wire \<Rightarrow> 'v fifo" where
  "wire_abs s = \<lparr>ff_sent = wi_sent s, ff_recv = wi_recv s\<rparr>"

section \<open>Encoding and decoding on the connection\<close>

lemma net_write_prefix:
  "net_write (w, ds) b = ((w', ds'), e) \<Longrightarrow> \<exists>x. w' = w @ x \<and> prefix x b \<and> (e = None \<longrightarrow> x = b)"
  by (auto simp: net_write_def take_is_prefix split: list.splits option.splits)

lemma Encode_net:
  assumes "wire_ok g fresh m" and enc: "Encode g net_write pick p (w, ds) m = Ret (e, p', (w', ds'))"
  shows "\<exists>x. w' = w @ x \<and> prefix x (pb_frame g m) \<and> (e = None \<longrightarrow> x = pb_frame g m)"
proof -
  obtain data where data: "encode_data g m = Inr data" using assms(1) by (auto simp: wire_ok_def split: sum.splits)
  let ?size = "uvarint (of_nat (length data))"
  obtain w1 ds1 e1 where one: "net_write (w, ds) ?size = ((w1, ds1), e1)" by (metis surj_pair)
  obtain w2 ds2 e2 where two: "net_write (w1, ds1) data = ((w2, ds2), e2)" by (metis surj_pair)
  from net_write_prefix [OF one] obtain x where x: "w1 = w @ x" "prefix x ?size" "e1 = None \<longrightarrow> x = ?size" by blast
  from net_write_prefix [OF two] obtain y where y: "w2 = w1 @ y" "prefix y data" "e2 = None \<longrightarrow> y = data" by blast
  from enc Encode_eq [of g net_write pick p "(w, ds)" m] show ?thesis
    using one two x y by (auto simp: data pb_frame_def frame_def split: option.splits)
qed

lemma frame_nonempty: "0 < length (frame data)"
proof -
  have "uvarint n \<noteq> []" for n by (subst uvarint.simps) simp
  then show ?thesis by (simp add: frame_def)
qed

text \<open>
  On the first bytes of a list of frames \<open>Decode\<close> succeeds when the first frame is
  there and yields its message; otherwise it fails.
\<close>

lemma Decode_frames:
  assumes "list_all (wire_ok g fresh) ms" and "prefix buf (concat (map (pb_frame g) ms))"
    and "is_Message g fresh"
  shows "(\<exists>m ms' rest p'. ms = m # ms' \<and> buf = pb_frame g m @ rest \<and>
            Decode g pick p \<lparr>rd_data = buf, rd_err = err\<rparr> fresh = Ret (None, p', \<lparr>rd_data = rest, rd_err = err\<rparr>, m)) \<or>
         (\<exists>e p'. Decode g pick p \<lparr>rd_data = buf, rd_err = err\<rparr> fresh = Ret (Some e, p', \<lparr>rd_data = [], rd_err = err\<rparr>, fresh)) \<and>
         (ms = [] \<or> length buf < length (pb_frame g (hd ms)))"
proof (cases ms)
  case Nil
  with assms show ?thesis by (simp add: Decode_def ReadUvarint_def ReadByte_def numeral_eq_Suc)
next
  case (Cons m ms')
  with assms(1) obtain data where data: "encode_data g m = Inr data" "pb_frame g m = frame data"
    "Buffer_Unmarshal g data fresh = (m, None)" "int (length data) \<le> maxAlloc"
    by (auto simp: wire_ok_def pb_frame_def split: sum.splits)
  let ?r = "\<lparr>rd_data = [], rd_err = err\<rparr>"
  show ?thesis
  proof (cases "strict_prefix buf (frame data)")
    case True
    with Decode_cut [OF assms(3) data(4) True, of pick p ?r] prefix_length_less [OF True] show ?thesis
      by (intro disjI2) (auto simp: Cons data(2))
  next
    case False
    with assms(2) obtain rest where "buf = frame data @ rest"
      by (auto simp: Cons data(2) prefix_append strict_prefix_def)
    with Decode_frame [OF assms(3) data(4), where pick = pick and p = p and r = ?r and rest = rest] show ?thesis by (simp add: Cons data(2,3))
  qed
qed

section \<open>Invariant\<close>

abbreviation frames :: "'v gogo \<Rightarrow> 'v list \<Rightarrow> bytes" where
  "frames g ms \<equiv> concat (map (pb_frame g) ms)"

definition wire_bytes :: "'v gogo \<Rightarrow> 'v \<Rightarrow> 'v wire \<Rightarrow> bool" where
  "wire_bytes g fresh s \<longleftrightarrow>
     list_all (wire_ok g fresh) (wi_sent s) \<and> prefix (wi_bytes s) (frames g (wi_sent s)) \<and>
     (wi_stop s \<or> wi_bytes s = frames g (wi_sent s)) \<and> wi_got s \<le> length (wi_bytes s)"

text \<open>The decoder has ended only when no further message had arrived whole.\<close>

definition wire_drained :: "'v gogo \<Rightarrow> 'v wire \<Rightarrow> bool" where
  "wire_drained g s \<longleftrightarrow>
     wi_recv s = wi_sent s \<or> wi_got s < length (frames g (take (Suc (length (wi_recv s))) (wi_sent s)))"

definition wire_inv :: "'v gogo \<Rightarrow> 'v \<Rightarrow> 'v wire \<Rightarrow> bool" where
  "wire_inv g fresh s \<longleftrightarrow>
     wire_bytes g fresh s \<and> prefix (wi_recv s) (wi_sent s) \<and>
     (if wi_end s = None then take (wi_got s) (wi_bytes s) = frames g (wi_recv s) @ wi_buf s
      else is_Message g fresh \<longrightarrow> wire_drained g s)"

lemma wire_encoded:
  assumes inv: "wire_inv g fresh s" and "\<not> wi_stop s" and ok: "wire_ok g fresh m"
    and x: "prefix x (pb_frame g m)" "e = None \<longrightarrow> x = pb_frame g m"
  shows "wire_inv g fresh (s\<lparr>wi_sent := wi_sent s @ [m], wi_bytes := wi_bytes s @ x, wi_wpool := p, wi_stop := e \<noteq> None\<rparr>)"
    (is "wire_inv g fresh ?t")
proof -
  have b: "wi_bytes s = frames g (wi_sent s)" "wi_got s \<le> length (wi_bytes s)" and pre: "prefix (wi_recv s) (wi_sent s)"
    using inv assms(2) by (auto simp: wire_inv_def wire_bytes_def)
  have "0 < length (pb_frame g m)"
    using ok frame_nonempty by (auto simp: wire_ok_def pb_frame_def split: sum.splits)
  then have "wi_got s < length (frames g (wi_sent s @ [m]))" using b by (cases "pb_frame g m") auto
  moreover have "length (wi_recv s) = length (wi_sent s) \<or> length (wi_recv s) < length (wi_sent s)"
    using prefix_length_le [OF pre] by linarith
  ultimately have "wire_drained g s \<Longrightarrow> wire_drained g ?t"
    using b by (auto simp: wire_drained_def)
  moreover have "wire_bytes g fresh ?t" using inv b ok x by (auto simp: wire_inv_def wire_bytes_def)
  moreover have "prefix (wi_recv s) (wi_sent s @ [m])" using pre by simp
  ultimately show ?thesis using inv b(2) by (auto simp: wire_inv_def)
qed

lemma wire_decoding:
  assumes inv: "wire_inv g fresh s" and "wi_end s = None"
  obtains ms where "wi_sent s = wi_recv s @ ms" "list_all (wire_ok g fresh) ms" "prefix (wi_buf s) (frames g ms)"
    "wi_got s = length (frames g (wi_recv s)) + length (wi_buf s)"
proof -
  obtain ms where ms: "wi_sent s = wi_recv s @ ms" using inv by (auto simp: wire_inv_def prefix_def)
  have got: "take (wi_got s) (wi_bytes s) = frames g (wi_recv s) @ wi_buf s" "wi_got s \<le> length (wi_bytes s)"
    using assms by (auto simp: wire_inv_def wire_bytes_def)
  have "prefix (take (wi_got s) (wi_bytes s)) (frames g (wi_sent s))"
    using inv take_is_prefix prefix_order.order_trans unfolding wire_inv_def wire_bytes_def by blast
  then have "prefix (wi_buf s) (frames g ms)" by (simp add: got(1) ms)
  moreover have "wi_got s = length (frames g (wi_recv s)) + length (wi_buf s)"
    using arg_cong [OF got(1), of length] got(2) by simp
  moreover have "list_all (wire_ok g fresh) ms" using inv by (simp add: wire_inv_def wire_bytes_def ms)
  ultimately show ?thesis using that ms by blast
qed

lemma wire_decoded:
  assumes inv: "wire_inv g fresh s" and "wi_end s = None"
    and dec: "Decode g pick p \<lparr>rd_data = wi_buf s, rd_err = err\<rparr> fresh = Ret (None, p', r, v)"
  obtains ms where "wi_sent s = wi_recv s @ v # ms" "wi_buf s = pb_frame g v @ rd_data r"
proof -
  have "is_Message g fresh" using dec by (auto simp: Decode_def split: if_splits)
  moreover obtain ms where ms: "wi_sent s = wi_recv s @ ms" "list_all (wire_ok g fresh) ms" "prefix (wi_buf s) (frames g ms)"
    using wire_decoding [OF assms(1,2)] by blast
  ultimately show ?thesis using Decode_frames [OF ms(2,3), of pick p err] dec ms(1) that by auto
qed

lemma wire_step_inv:
  assumes "wire_step g fresh s t" and inv: "wire_inv g fresh s"
  shows "wire_inv g fresh t"
  using assms(1)
proof cases
  case (wi_encode m pick ds e p w ds')
  from Encode_net [OF wi_encode(3,4)] obtain x where "w = wi_bytes s @ x" "prefix x (pb_frame g m)" "e = None \<longrightarrow> x = pb_frame g m"
    by blast
  with wire_encoded [OF inv wi_encode(2,3)] show ?thesis by (simp add: wi_encode(1))
next
  case (wi_encode_bad m err pick ds e p w ds')
  then have "w = wi_bytes s" "e \<noteq> None" by (auto simp: Encode_def)
  with inv show ?thesis by (auto simp: wi_encode_bad(1) wire_inv_def wire_bytes_def wire_drained_def)
next
  case (wi_arrive n)
  then show ?thesis using inv by (auto simp: wire_inv_def wire_bytes_def take_add)
next
  case (wi_decode pick err p r v)
  from wire_decoded [OF inv wi_decode(2,3)] obtain ms where
    "wi_sent s = wi_recv s @ v # ms" "wi_buf s = pb_frame g v @ rd_data r" by blast
  with inv wi_decode show ?thesis by (auto simp: wire_inv_def wire_bytes_def)
next
  case (wi_decode_err pick err e p r v)
  obtain ms where ms: "wi_sent s = wi_recv s @ ms" "list_all (wire_ok g fresh) ms" "prefix (wi_buf s) (frames g ms)"
    "wi_got s = length (frames g (wi_recv s)) + length (wi_buf s)"
    using wire_decoding [OF inv wi_decode_err(2)] by blast
  have "wire_drained g s" if "is_Message g fresh"
    using Decode_frames [OF ms(2,3) that, of pick "wi_rpool s" err] wi_decode_err(3) ms(1,4)
    by (cases ms) (auto simp: wire_drained_def)
  with inv wi_decode_err show ?thesis by (auto simp: wire_inv_def wire_bytes_def wire_drained_def)
qed (use inv in \<open>auto simp: wire_inv_def wire_bytes_def wire_drained_def\<close>)

lemma wire_start_inv: "wire_inv g fresh wire_start"
  by (simp add: wire_inv_def wire_bytes_def wire_start_def)

interpretation wires: refinement_system "\<lambda>s. s = wire_start" "wire_step g fresh" "wire_inv g fresh"
  "\<lambda>f. f = \<lparr>ff_sent = [], ff_recv = []\<rparr>" fifo_step wire_abs for g fresh
proof
  fix s t :: "'a wire"
  assume st: "wire_step g fresh s t" and inv: "wire_inv g fresh s"
  then show "wire_inv g fresh t" by (rule wire_step_inv)
  from st show "wire_abs t = wire_abs s \<or> fifo_step (wire_abs s) (wire_abs t)"
  proof cases
    case (wi_encode m pick ds e p w ds')
    with ff_send [of "wire_abs s" m] show ?thesis by (simp add: wire_abs_def)
  next
    case (wi_decode pick err p r v)
    from wire_decoded [OF inv wi_decode(2,3)] obtain ms where "wi_sent s = wi_recv s @ v # ms" by blast
    with wi_decode ff_take [of "wire_abs s"] show ?thesis by (simp add: wire_abs_def)
  qed (simp_all add: wire_abs_def)
qed (simp_all add: wire_start_inv, simp add: wire_abs_def wire_start_def)

section \<open>Properties\<close>

text \<open>
  C6. A connection is a channel of whole messages: with a codec whose messages round trip,
  under every interleaving of the encoding and the decoding goroutine, every portioning of
  the bytes, writes that fail after any number of bytes and a connection that ends at any
  time with any error, the messages decoded are the first of the messages given to
  \<open>Encode\<close>, in order (a run of a first-in first-out channel); and the decoder ends only
  when it has received all of them or the next one has not arrived whole.
\<close>

theorem wire_refines_fifo:
  assumes "reach (\<lambda>s. s = wire_start) (wire_step g fresh) s" and "is_Message g fresh"
  shows "reach (\<lambda>f. f = \<lparr>ff_sent = [], ff_recv = []\<rparr>) fifo_step (wire_abs s) \<and>
     prefix (wi_recv s) (wi_sent s) \<and>
     (wi_end s = None \<or> wi_recv s = wi_sent s \<or>
      wi_got s < length (concat (map (pb_frame g) (take (Suc (length (wi_recv s))) (wi_sent s)))))"
  using wires.reach_abs [OF assms(1)] wires.inv_reach [OF assms(1)] assms(2)
  by (auto simp: wire_inv_def wire_drained_def split: if_splits)

text \<open>A run: one message arrives whole, the next one is cut by a failing write.\<close>

definition wire_example :: "bytes wire" where
  "wire_example =
     \<lparr>wi_sent = [[1, 2], [7, 8, 9]], wi_bytes = [2, 1, 2, 3, 7], wi_got = 5, wi_buf = [], wi_recv = [[1, 2]],
      wi_wpool = [3 # replicate 31 0, 2 # replicate 31 0], wi_rpool = [7 # 2 # replicate 30 0],
      wi_stop = True, wi_end = Some (Wrap ''failed to read message body'' ErrUnexpectedEOF)\<rparr>"

lemma wire_example_run: "reach (\<lambda>s. s = wire_start) (wire_step gogo_bytes []) wire_example"
proof -
  let ?wp = "[2 # replicate 31 0] :: pool" and ?rp = "[1 # 2 # replicate 30 0] :: pool"
  let ?s1 = "wire_start\<lparr>wi_sent := [[1, 2]], wi_bytes := [2, 1, 2], wi_wpool := ?wp\<rparr> :: bytes wire"
  let ?s2 = "?s1\<lparr>wi_got := 3, wi_buf := [2, 1, 2]\<rparr>" and ?s3 = "?s1\<lparr>wi_got := 3, wi_recv := [[1, 2]], wi_rpool := ?rp\<rparr>"
  let ?s4 = "?s3\<lparr>wi_sent := [[1, 2], [7, 8, 9]], wi_bytes := [2, 1, 2, 3, 7], wi_wpool := (3 # replicate 31 0) # ?wp, wi_stop := True\<rparr>"
  let ?s5 = "?s4\<lparr>wi_got := 5, wi_buf := [3, 7]\<rparr>" and ?ds = "[None, Some (1, ExtErr ''broken pipe'')]"
  let ?e = "Wrap ''failed to write message body'' (ExtErr ''broken pipe'')"
  have "Encode gogo_bytes net_write None [] ([], []) [1, 2] = Ret (None, ?wp, ([2, 1, 2], []))" by code_simp
  then have st1: "wire_step gogo_bytes [] wire_start ?s1"
    using wi_encode [of wire_start gogo_bytes "[]" "[1, 2]" None "[]" None ?wp "[2, 1, 2]" "[]"] gogo_bytes_wire_ok [of "[1, 2]"]
    by (simp add: wire_start_def)
  have st2: "wire_step gogo_bytes [] ?s1 ?s2" using wi_arrive [of ?s1 3] by (simp add: wire_start_def)
  have "Decode gogo_bytes None [] \<lparr>rd_data = [2, 1, 2], rd_err = EOF\<rparr> [] =
      Ret (None, ?rp, \<lparr>rd_data = [], rd_err = EOF\<rparr>, [1, 2])" by code_simp
  then have st3: "wire_step gogo_bytes [] ?s2 ?s3"
    using wi_decode [of ?s2 gogo_bytes None EOF "[]" ?rp "\<lparr>rd_data = [], rd_err = EOF\<rparr>" "[1, 2]"] by (simp add: wire_start_def)
  have "Encode gogo_bytes net_write None ?wp ([2, 1, 2], ?ds) [7, 8, 9] =
      Ret (Some ?e, (3 # replicate 31 0) # ?wp, ([2, 1, 2, 3, 7], []))" by code_simp
  then have st4: "wire_step gogo_bytes [] ?s3 ?s4"
    using wi_encode [of ?s3 gogo_bytes "[]" "[7, 8, 9]" None ?ds "Some ?e" "(3 # replicate 31 0) # ?wp" "[2, 1, 2, 3, 7]" "[]"]
      gogo_bytes_wire_ok [of "[7, 8, 9]"] by (simp add: wire_start_def)
  have st5: "wire_step gogo_bytes [] ?s4 ?s5" using wi_arrive [of ?s4 2] by (simp add: wire_start_def)
  have "Decode gogo_bytes (Some 0) ?rp \<lparr>rd_data = [3, 7], rd_err = EOF\<rparr> [] =
      Ret (Some (Wrap ''failed to read message body'' ErrUnexpectedEOF), [7 # 2 # replicate 30 0], \<lparr>rd_data = [], rd_err = EOF\<rparr>, [])"
    by code_simp
  then have st6: "wire_step gogo_bytes [] ?s5 wire_example"
    using wi_decode_err [of ?s5 gogo_bytes "Some 0" EOF "[]" "Wrap ''failed to read message body'' ErrUnexpectedEOF"
        "[7 # 2 # replicate 30 0]" "\<lparr>rd_data = [], rd_err = EOF\<rparr>" "[]"]
    by (simp add: wire_start_def wire_example_def)
  let ?reach = "reach (\<lambda>s. s = wire_start) (wire_step gogo_bytes [])"
  have "?reach wire_start" by (rule reach_init) simp
  from this st1 have "?reach ?s1" by (rule reach_step)
  from this st2 have "?reach ?s2" by (rule reach_step)
  from this st3 have "?reach ?s3" by (rule reach_step)
  from this st4 have "?reach ?s4" by (rule reach_step)
  from this st5 have "?reach ?s5" by (rule reach_step)
  from this st6 show "?reach wire_example" by (rule reach_step)
qed

theorem wire_refines_fifo_witness:
  "reach (\<lambda>f. f = \<lparr>ff_sent = [], ff_recv = []\<rparr>) fifo_step (wire_abs wire_example) \<and>
   wi_sent wire_example = [[1, 2], [7, 8, 9]] \<and> wi_recv wire_example = [[1, 2]] \<and> wi_end wire_example \<noteq> None \<and>
   wi_got wire_example < length (concat (map (pb_frame gogo_bytes) [[1, 2], [7, 8, 9]]))"
proof -
  have "is_Message gogo_bytes []" by (simp add: gogo_bytes_def)
  from wire_refines_fifo [OF wire_example_run this] show ?thesis by (simp add: wire_example_def)
qed

end
