(* ===== verification/Hub.thy ===== *)
theory Hub
  imports Extension Session
begin

text \<open>
  The hub and an extension together: the goroutines of \<open>HandleStream\<close>
  (\<open>src/server/extension.go\<close>) with any number of callers of \<open>sendCmd\<close>, a connection,
  and at its other end a process of an extension with its client (\<open>src/client.go\<close>). The
  connection carries whole messages in order and may break at any time in either direction;
  what was not delivered is then lost. This is what the codec makes of a byte stream that may
  be cut anywhere (\<open>Wire\<close>). The process is any that meets the contract \<open>hub_process\<close>;
  here it is the session loop of the controller (\<open>src/controller.go\<close>) with a handler that
  answers each command itself, and in \<open>Runtime_Hub\<close> the runtime extension.
\<close>

section \<open>The composed system\<close>

text \<open>
  \<open>hb_down\<close> and \<open>hb_up\<close> count the commands and the messages delivered to the other end.
\<close>

record 'x hub_sys =
  hb_ext :: ext_stream
  hb_proc :: 'x
  hb_down :: nat
  hb_up :: nat

definition arrived :: "cl_stream \<Rightarrow> Cmd list" where
  "arrived c = cl_decoded c @ cl_in c"

text \<open>
  Steps of the hub and of its parent context; steps of the extension's process (including
  a broken connection at its end) that no command arrives in; a command that arrives, which
  is the next one the hub wrote, and a message delivered; a broken connection at the hub's
  end. \<open>cl\<close> is the client of a state of the process.
\<close>

inductive hub_step ::
  "arhatgopb \<Rightarrow> ('x \<Rightarrow> 'x \<Rightarrow> bool) \<Rightarrow> ('x \<Rightarrow> cl_stream) \<Rightarrow> 'x hub_sys \<Rightarrow> 'x hub_sys \<Rightarrow> bool"
  for pb proc cl where
  hb_own: "own_step pb (hb_ext s) e \<Longrightarrow> hub_step pb proc cl s (s\<lparr>hb_ext := e\<rparr>)"
| hb_parent: "hub_step pb proc cl s (s\<lparr>hb_ext := (hb_ext s)\<lparr>parent_done := True\<rparr>\<rparr>)"
| hb_run: "proc (hb_proc s) x \<Longrightarrow> arrived (cl x) = arrived (cl (hb_proc s)) \<Longrightarrow>
     hub_step pb proc cl s (s\<lparr>hb_proc := x\<rparr>)"
| hb_cmd: "hb_down s < length (ext_out (hb_ext s)) \<Longrightarrow> proc (hb_proc s) x \<Longrightarrow>
     cl x = (cl (hb_proc s))\<lparr>cl_in := cl_in (cl (hb_proc s)) @ [ext_out (hb_ext s) ! hb_down s]\<rparr> \<Longrightarrow>
     hub_step pb proc cl s (s\<lparr>hb_proc := x, hb_down := Suc (hb_down s)\<rparr>)"
| hb_msg: "hb_up s < length (cl_out (cl (hb_proc s))) \<Longrightarrow> stream_end (hb_ext s) = None \<Longrightarrow>
     hub_step pb proc cl s
       (s\<lparr>hb_ext := (hb_ext s)\<lparr>ext_in := ext_in (hb_ext s) @ [cl_out (cl (hb_proc s)) ! hb_up s]\<rparr>,
          hb_up := Suc (hb_up s)\<rparr>)"
| hb_break: "stream_end (hb_ext s) = None \<Longrightarrow>
     hub_step pb proc cl s (s\<lparr>hb_ext := (hb_ext s)\<lparr>stream_end := Some err\<rparr>\<rparr>)"

definition hub_start :: "'x \<Rightarrow> 'x hub_sys" where
  "hub_start x = \<lparr>hb_ext = ext_start, hb_proc = x, hb_down = 0, hb_up = 0\<rparr>"

section \<open>Projections\<close>

lemma hub_ext_run:
  "hub_step pb proc cl s t \<Longrightarrow> ext_step pb (hb_ext s) (hb_ext t) \<or> hb_ext t = hb_ext s"
  by (erule hub_step.cases) (auto intro: ext_step.intros)

lemma hub_proc_run: "hub_step pb proc cl s t \<Longrightarrow> proc (hb_proc s) (hb_proc t) \<or> hb_proc t = hb_proc s"
  by (erule hub_step.cases) auto

lemma hub_reach_proc:
  assumes "reach (\<lambda>s. s = hub_start x) (hub_step pb proc cl) s"
  shows "reach (\<lambda>y. y = x) proc (hb_proc s)"
  using assms
proof (induction rule: reach.induct)
  case (reach_init s)
  then show ?case by (simp add: hub_start_def reach.reach_init)
next
  case (reach_step s t)
  then show ?case using hub_proc_run [OF reach_step(2)] by (auto intro: reach.reach_step)
qed

text \<open>What the hub holds of the messages that arrived, and of the commands it was given.\<close>

definition call_msg :: "call_pc \<Rightarrow> Msg option" where
  "call_msg pc =
     (case pc of CDefer _ _ (Inr r) \<Rightarrow> r | CDelete _ _ (Inr r) \<Rightarrow> r | CRet _ (Inr r) \<Rightarrow> r | _ \<Rightarrow> None)"

definition call_cmd :: "call_pc \<Rightarrow> Cmd option" where
  "call_cmd pc =
     (case pc of CIdle \<Rightarrow> None | COffer c _ \<Rightarrow> Some c | CSend c _ \<Rightarrow> Some c | CWait c _ \<Rightarrow> Some c
      | CDefer c _ _ \<Rightarrow> Some c | CDelete c _ _ \<Rightarrow> Some c | CRet c _ \<Rightarrow> Some c)"

definition rd_msgs :: "rd_pc \<Rightarrow> Msg set" where
  "rd_msgs pc = (case pc of RGot m \<Rightarrow> {m} | RSend _ m \<Rightarrow> {m} | RSelect _ m \<Rightarrow> {m} | _ \<Rightarrow> {})"

definition slot_msgs :: "(msgWaitKey \<times> msgWaitValue) list \<Rightarrow> Msg set" where
  "slot_msgs vs = (\<Union>v \<in> set vs. set (ch_buf (mw_msgCh (snd v))))"

definition heard :: "ext_stream \<Rightarrow> Msg set" where
  "heard e = set (ext_in e) \<union> rd_msgs (rd e) \<union> set (oob e) \<union> slot_msgs (slots e) \<union> {m. \<exists>t. call_msg (calls e t) = Some m}"

definition told :: "ext_stream \<Rightarrow> Cmd set" where
  "told e = set (ext_out e) \<union> set (ch_buf (cmdWriteCh e))"

definition told_ok :: "arhatgopb \<Rightarrow> ext_stream \<Rightarrow> bool" where
  "told_ok pb e \<longleftrightarrow> (\<forall>c \<in> told e. is_ping pb c \<or> (\<exists>t. call_cmd (calls e t) = Some c))"

lemma call_simps [simp]:
  "call_msg CIdle = None" "call_msg (COffer c i) = None" "call_msg (CSend c w) = None" "call_msg (CWait c i) = None"
  "call_msg (CRet c (Inl err)) = None" "call_msg (CRet c (Inr r)) = r"
  "call_cmd CIdle = None" "call_cmd (COffer c i) = Some c" "call_cmd (CSend c w) = Some c" "call_cmd (CWait c i) = Some c"
  "call_cmd (CDefer c i res) = Some c" "call_cmd (CDelete c i res) = Some c" "call_cmd (CRet c res) = Some c"
  by (simp_all add: call_msg_def call_cmd_def)

lemma call_msg_res [simp]: "call_msg (CDefer c i res) = call_msg (CRet c res)" "call_msg (CDelete c i res) = call_msg (CRet c res)"
  by (simp_all add: call_msg_def)

lemma rd_msgs_simps [simp]:
  "rd_msgs RDecode = {}" "rd_msgs (RGot m) = {m}" "rd_msgs (RSend i m) = {m}" "rd_msgs (RSelect i m) = {m}" "rd_msgs RExit = {}"
  by (simp_all add: rd_msgs_def)

lemma slot_msgs_simps [simp]:
  "slot_msgs [] = {}" "slot_msgs (vs @ vs') = slot_msgs vs \<union> slot_msgs vs'"
  "slot_msgs (v # vs) = set (ch_buf (mw_msgCh (snd v))) \<union> slot_msgs vs"
  by (simp_all add: slot_msgs_def)

lemma slot_msgs_nth: "i < length vs \<Longrightarrow> set (ch_buf (mw_msgCh (snd (vs ! i)))) \<subseteq> slot_msgs vs"
  by (auto simp: slot_msgs_def intro: bexI [OF _ nth_mem])

lemma slot_msgs_upd:
  "slot_msgs (slots (upd_slot i f e)) \<subseteq> slot_msgs (slots e) \<union> set (ch_buf (mw_msgCh (f (snd (slots e ! i)))))"
  using set_update_subset_insert [of "slots e" i] by (fastforce simp: upd_slot_def slot_msgs_def)

lemma slot_msgs_close: "slot_msgs (slots (close_slot v e)) \<subseteq> slot_msgs (slots e)"
proof (cases v)
  case (Some i)
  show ?thesis
  proof (cases "i < length (slots e)")
    case True
    with slot_msgs_upd [of i slot_close e] slot_msgs_nth [OF True] show ?thesis by (auto simp: Some close_slot_def)
  qed (simp add: Some close_slot_def upd_slot_def list_update_beyond)
qed (simp add: close_slot_def)

lemma close_slot_wire [simp]:
  "oob (close_slot v e) = oob e" "ext_out (close_slot v e) = ext_out e"
  "cmdWriteCh (close_slot v e) = cmdWriteCh e"
  by (simp_all add: close_slot_def upd_slot_def split: option.splits)

lemma upd_slot_wire [simp]:
  "oob (upd_slot i f e) = oob e" "ext_out (upd_slot i f e) = ext_out e"
  "cmdWriteCh (upd_slot i f e) = cmdWriteCh e"
  by (simp_all add: upd_slot_def)

lemma wg_return_wire [simp]:
  "oob (wg_return err e) = oob e" "ext_out (wg_return err e) = ext_out e" "cmdWriteCh (wg_return err e) = cmdWriteCh e"
  by (simp_all add: wg_return_def)

text \<open>No step of the hub makes up a message.\<close>

lemma heard_call:
  assumes "call_step e e'" and "ext_inv e"
  shows "heard e' \<subseteq> heard e"
  using assms(1)
proof cases
  case (c_wait_msg t cmd i msg ch)
  have i: "i < length (slots e)" using ext_invD(3) [OF assms(2) c_wait_msg(2)] by simp
  have "msg \<in> slot_msgs (slots e)" "set (ch_buf ch) \<subseteq> slot_msgs (slots e)"
    using c_wait_msg(3) slot_msgs_nth [OF i] by (auto simp: chan_recv_def split: list.splits)
  with slot_msgs_upd [of i "\<lambda>v. v\<lparr>mw_msgCh := ch\<rparr>" e] show ?thesis
    by (auto simp: c_wait_msg(1) heard_def split: if_splits)
next
  case (c_close t cmd i r)
  with slot_msgs_close [of "Some i" e] show ?thesis by (auto simp: heard_def split: if_splits) (metis call_msg_res(1))
next
  case (c_delete t cmd i r)
  then show ?thesis by (auto simp: heard_def split: if_splits) (metis call_msg_res(2))
qed (auto simp: heard_def newMsgWaitValue_def make_chan_def split: if_splits option.splits)

lemma heard_reader:
  assumes "reader_step e e'" and "ext_inv e"
  shows "heard e' \<subseteq> heard e"
  using assms(1)
proof cases
  case (r_send i msg ch)
  have i: "i < length (slots e)" using ext_invD(2) [OF assms(2)] r_send(2) by (simp add: rd_ok_def)
  have "set (ch_buf ch) \<subseteq> insert msg (slot_msgs (slots e))"
    using r_send(4) slot_msgs_nth [OF i] by (auto simp: chan_send_def split: if_splits)
  with r_send(2) slot_msgs_upd [of i "\<lambda>v. v\<lparr>mw_msgCh := ch\<rparr>" e] show ?thesis
    by (auto simp: r_send(1) heard_def)
qed (auto simp: heard_def)

lemma heard_timer: "timer_step e e' \<Longrightarrow> heard e' \<subseteq> heard e"
  by (erule timer_step.cases) (auto simp: heard_def dest: slot_msgs_close [THEN subsetD])

lemma heard_own:
  assumes "own_step pb e e'" and "ext_inv e"
  shows "heard e' \<subseteq> heard e"
  using assms(1)
proof cases
  case own_writer
  then show ?thesis by (cases rule: writer_step.cases) (auto simp: heard_def)
qed (use assms(2) heard_call heard_reader heard_timer in blast)+

text \<open>Every command on its way is a ping or was given to \<open>sendCmd\<close>.\<close>

lemma call_cmd_step:
  assumes "call_step e e'" and "call_cmd (calls e t) = Some c"
  shows "call_cmd (calls e' t) = Some c"
  using assms by cases (auto split: option.splits)

lemma told_call:
  assumes "call_step e e'"
  shows "told e' \<subseteq> told e \<union> {c. \<exists>t. call_cmd (calls e' t) = Some c}"
  using assms
proof cases
  case (c_send t cmd w ch)
  then have "call_cmd (calls e' t) = Some cmd" by (auto split: option.splits)
  with c_send show ?thesis by (auto simp: told_def chan_send_def split: if_splits)
qed (auto simp: told_def)

lemma told_own:
  assumes "own_step pb e e'" and "told_ok pb e"
  shows "told_ok pb e'"
  using assms(1)
proof cases
  case own_call
  then show ?thesis using assms(2) told_call call_cmd_step unfolding told_ok_def by fastforce
next
  case own_reader
  then have "told e' = told e" "calls e' = calls e" by (cases; simp add: told_def)+
  with assms(2) show ?thesis by (simp add: told_ok_def)
next
  case own_timer
  then have "told e' = told e" "calls e' = calls e" by (cases; simp add: told_def)+
  with assms(2) show ?thesis by (simp add: told_ok_def)
next
  case own_writer
  then have "calls e' = calls e" "\<And>c. c \<in> told e' \<Longrightarrow> c \<in> told e \<or> is_ping pb c"
    by (cases; auto simp: told_def is_ping_def chan_recv_def split: list.splits)+
  with assms(2) show ?thesis by (auto simp: told_ok_def)
qed

lemma own_step_wire:
  assumes "own_step pb e e'"
  shows "prefix (ext_out e) (ext_out e')"
  using assms by cases (auto elim!: call_step.cases reader_step.cases timer_step.cases writer_step.cases)

lemma cl_step_out:
  assumes "cl_step pb c c'"
  shows "prefix (cl_out c) (cl_out c')"
  using assms by cases simp_all

section \<open>The contract of the extension's process\<close>

lemma take_prefix: "n \<le> length xs \<Longrightarrow> prefix xs ys \<Longrightarrow> take n ys = take n xs \<and> n \<le> length ys"
  by (auto simp: prefix_def)

definition hub_inv :: "arhatgopb \<Rightarrow> ('x \<Rightarrow> cl_stream) \<Rightarrow> 'x hub_sys \<Rightarrow> bool" where
  "hub_inv pb cl s \<longleftrightarrow>
     reach ext_init (ext_step pb) (hb_ext s) \<and> told_ok pb (hb_ext s) \<and>
     hb_down s \<le> length (ext_out (hb_ext s)) \<and> arrived (cl (hb_proc s)) = take (hb_down s) (ext_out (hb_ext s)) \<and>
     hb_up s \<le> length (cl_out (cl (hb_proc s))) \<and> heard (hb_ext s) \<subseteq> set (take (hb_up s) (cl_out (cl (hb_proc s))))"

text \<open>
  A process starts with a fresh client, which makes steps of a client or none. Its client's
  part of a run is then a run of the client, and the hub gets what that client wrote.
\<close>

locale hub_process =
  fixes pb :: arhatgopb
    and proc :: "'x \<Rightarrow> 'x \<Rightarrow> bool"
    and cl :: "'x \<Rightarrow> cl_stream"
    and start :: 'x
  assumes fresh_client: "cl start = cl_start"
    and client_run: "proc x y \<Longrightarrow> cl_step pb (cl x) (cl y) \<or> cl y = cl x"
begin

lemma client_reach: "reach (\<lambda>x. x = start) proc x \<Longrightarrow> reach cl_init (cl_step pb) (cl x)"
proof (induction rule: reach.induct)
  case (reach_init x)
  then show ?case by (simp add: fresh_client cl_init_def reach.reach_init)
next
  case (reach_step x y)
  then show ?case using client_run [OF reach_step(2)] by (auto intro: reach.reach_step)
qed

lemma client_out: "proc x y \<Longrightarrow> prefix (cl_out (cl x)) (cl_out (cl y))"
  using client_run cl_step_out by (metis prefix_order.order_refl)

lemma hub_step_inv:
  assumes "hub_step pb proc cl s t" and inv: "hub_inv pb cl s"
  shows "hub_inv pb cl t"
proof -
  have run: "reach ext_init (ext_step pb) (hb_ext t)"
    using hub_ext_run [OF assms(1)] inv by (auto simp: hub_inv_def intro: reach_step)
  have e: "ext_inv (hb_ext s)" using inv exts.inv_reach unfolding hub_inv_def by blast
  from assms(1) show ?thesis
  proof cases
    case (hb_own e')
    note w = take_prefix [OF _ own_step_wire [OF hb_own(2)], of "hb_down s"]
    with run inv heard_own [OF hb_own(2) e] told_own [OF hb_own(2)] show ?thesis by (auto simp: hb_own(1) hub_inv_def)
  next
    case (hb_run x)
    note w = take_prefix [OF _ client_out [OF hb_run(2)], of "hb_up s"]
    with run inv hb_run(3) show ?thesis by (auto simp: hb_run(1) hub_inv_def)
  next
    case (hb_cmd x)
    with run inv show ?thesis by (auto simp: hub_inv_def arrived_def take_Suc_conv_app_nth)
  next
    case hb_msg
    with run inv show ?thesis by (auto simp: hub_inv_def heard_def told_ok_def told_def take_Suc_conv_app_nth)
  qed (use run inv in \<open>auto simp: hub_inv_def heard_def told_ok_def told_def\<close>)
qed

lemma hub_start_inv: "hub_inv pb cl (hub_start start)"
proof -
  have "heard ext_start = {}" "told ext_start = {}"
    by (simp_all add: heard_def told_def ext_start_def make_chan_def)
  then show ?thesis
    using reach_start by (simp add: hub_inv_def hub_start_def arrived_def fresh_client cl_start_def told_ok_def)
qed

end

sublocale hub_process \<subseteq> hub: invariant_system "\<lambda>s. s = hub_start start" "hub_step pb proc cl" "hub_inv pb cl"
  by unfold_locales (simp add: hub_start_inv, rule hub_step_inv)

context hub_process
begin

text \<open>The commands the client forwarded, in the order in which the hub wrote them.\<close>

lemma hub_took:
  assumes "reach (\<lambda>s. s = hub_start start) (hub_step pb proc cl) s"
  shows "prefix (take n (cl_cmds (cl (hb_proc s)))) (filter (\<lambda>c. \<not> is_ping pb c) (ext_out (hb_ext s)))"
proof -
  have "prefix (cl_cmds (cl (hb_proc s))) (filter (\<lambda>c. \<not> is_ping pb c) (cl_decoded (cl (hb_proc s))))"
    using client_wrote [OF client_reach [OF hub_reach_proc [OF assms]]] by metis
  moreover have "prefix (cl_decoded (cl (hb_proc s))) (ext_out (hb_ext s))"
    using hub.inv_reach [OF assms] unfolding hub_inv_def arrived_def
    by (metis prefixI take_is_prefix prefix_order.order_trans)
  ultimately show ?thesis by (meson filter_mono_prefix prefix_order.order_trans take_is_prefix)
qed

text \<open>
  The message a call returns was written by the client and has the call's key; a command
  the client forwarded, with a key that no other given command has, is the given one.
\<close>

lemma hub_returned:
  assumes "reach (\<lambda>s. s = hub_start start) (hub_step pb proc cl) s"
    and call: "calls (hb_ext s) t = CRet cmd (Inr (Some msg))"
  shows "msg \<in> set (cl_out (cl (hb_proc s))) \<and> msg_key msg = cmd_key cmd"
proof -
  have hi: "hub_inv pb cl s" by (rule hub.inv_reach [OF assms(1)])
  have "call_msg (calls (hb_ext s) t) = Some msg" using call by simp
  then have "msg \<in> heard (hb_ext s)" unfolding heard_def by blast
  then have "msg \<in> set (cl_out (cl (hb_proc s)))" using hi unfolding hub_inv_def by (meson in_set_takeD subsetD)
  moreover have "msg_key msg = cmd_key cmd"
    using ext_invD(3) [OF exts.inv_reach [of pb] call] hi by (simp add: hub_inv_def)
  ultimately show ?thesis by blast
qed

lemma hub_given:
  assumes run: "reach (\<lambda>s. s = hub_start start) (hub_step pb proc cl) s"
    and fresh: "\<And>t' c. call_cmd (calls (hb_ext s) t') = Some c \<Longrightarrow> cmd_key c = cmd_key cmd \<Longrightarrow> c = cmd"
    and c: "c \<in> set (cl_cmds (cl (hb_proc s)))" "cmd_key c = cmd_key cmd"
  shows "c = cmd"
proof -
  let ?sent = "filter (\<lambda>c. \<not> is_ping pb c) (ext_out (hb_ext s))"
  have "prefix (cl_cmds (cl (hb_proc s))) ?sent"
    using hub_took [OF run, of "length (cl_cmds (cl (hb_proc s)))"] by simp
  with c(1) have "c \<in> set ?sent" using set_mono_prefix by blast
  with hub.inv_reach [OF run] have "\<exists>t'. call_cmd (calls (hb_ext s) t') = Some c"
    by (auto simp: hub_inv_def told_ok_def told_def)
  with fresh c(2) show ?thesis by blast
qed

end

text \<open>The session loop with any handler is such a process.\<close>

interpretation hss: hub_process pb "ss_step pb marshal handle" ss_cl "ss_start st" for pb marshal handle st
  by unfold_locales (simp add: ss_start_def, rule ss_client_run)

lemma session_seq_reach:
  assumes "reach (\<lambda>s. s = ss_start st) (ss_step pb marshal handle) s"
  shows "ss_seq marshal handle st s"
  using assms
proof (induction rule: reach.induct)
  case (reach_init s)
  then show ?case by (simp add: ss_seq_def ss_start_def cl_start_def)
next
  case (reach_step s t)
  then show ?case by (blast intro: ss_seq_step)
qed

section \<open>Calls\<close>

context sync_handler
begin

text \<open>A message the client wrote is a pong, or the session's reply to a command it took.\<close>

lemma session_wrote:
  assumes run: "reach (\<lambda>s. s = ss_start st) (ss_step pb marshal handle) s" and "inv st"
    and m: "m \<in> set (cl_out (ss_cl s))"
  shows "m = pong_msg pb \<or> (\<exists>j < ss_pos s. ss_replies s ! j = m \<and> msg_key m = cmd_key (cl_cmds (ss_cl s) ! j))"
proof -
  have si: "ss_inv inv s" and cl: "reach cl_init (cl_step pb) (ss_cl s)"
    using session_answers [OF run assms(2)] by auto
  have "m = pong_msg pb \<or> m \<in> set (ss_handed s)" using client_written [OF cl m] by (auto simp: ss_handed_def)
  moreover have "set (ss_handed s) \<subseteq> set (ss_replies s)"
    using si by (auto simp: ss_inv_def dest: list_emb_set)
  moreover have "ss_pos s \<le> length (cl_cmds (ss_cl s))"
    and keys: "reply_keys (ss_replies s) = cmd_keys (take (ss_pos s) (cl_cmds (ss_cl s)))"
    using si by (auto simp: ss_inv_def)
  moreover from arg_cong [OF keys, of length] this(1) have "length (ss_replies s) = ss_pos s"
    by (simp add: reply_keys_def cmd_keys_def)
  moreover have "msg_key (ss_replies s ! j) = cmd_key (cl_cmds (ss_cl s) ! j)" if "j < ss_pos s" for j
    using arg_cong [OF keys, of "\<lambda>l. l ! j"] that calculation
    by (simp add: reply_keys_def cmd_keys_def msg_key_def cmd_key_def)
  ultimately show ?thesis by (metis in_set_conv_nth subsetD)
qed

lemma remote_call:
  assumes run: "reach (\<lambda>s. s = hub_start (ss_start st)) (hub_step pb (ss_step pb marshal handle) ss_cl) s" and "inv st"
    and call: "calls (hb_ext s) t = CRet cmd (Inr (Some msg))" and "cmd_key cmd \<noteq> (0, 0)"
    and fresh: "\<And>t' c. call_cmd (calls (hb_ext s) t') = Some c \<Longrightarrow> cmd_key c = cmd_key cmd \<Longrightarrow> c = cmd"
  shows "\<exists>cs st' replies j. prefix cs (filter (\<lambda>c. \<not> is_ping pb c) (ext_out (hb_ext s))) \<and>
     session_loop marshal handle send_append cs st [] = Ret (None, st', replies) \<and>
     j < length cs \<and> cs ! j = cmd \<and> replies ! j = msg"
proof -
  let ?ss = "hb_proc s"
  have sr: "reach (\<lambda>s. s = ss_start st) (ss_step pb marshal handle) ?ss" by (rule hub_reach_proc [OF run])
  have msg: "msg \<in> set (cl_out (ss_cl ?ss))" "msg_key msg = cmd_key cmd" using hss.hub_returned [OF run call] by auto
  have "msg_key (pong_msg pb) = (0, 0)" by (simp add: msg_key_def pong_msg_def)
  with msg obtain j where j: "j < ss_pos ?ss" "ss_replies ?ss ! j = msg" "cmd_key (cl_cmds (ss_cl ?ss) ! j) = cmd_key cmd"
    using session_wrote [OF sr assms(2), of msg] assms(4) by metis
  obtain st' where seq: "session_loop marshal handle send_append (take (ss_pos ?ss) (cl_cmds (ss_cl ?ss))) st [] =
      Ret (None, st', ss_replies ?ss)" and pos: "ss_pos ?ss \<le> length (cl_cmds (ss_cl ?ss))"
    using session_seq_reach [OF sr] unfolding ss_seq_def by blast
  have "cl_cmds (ss_cl ?ss) ! j \<in> set (cl_cmds (ss_cl ?ss))" using j(1) pos by simp
  from hss.hub_given [OF run _ this j(3)] fresh have "cl_cmds (ss_cl ?ss) ! j = cmd" by blast
  with hss.hub_took [OF run, of "ss_pos ?ss"] seq j(1,2) pos show ?thesis
    by (intro exI [of _ "take (ss_pos ?ss) (cl_cmds (ss_cl ?ss))"] exI [of _ st'] exI [of _ "ss_replies ?ss"] exI [of _ j]) simp
qed

end

section \<open>The round trip of one command\<close>

lemma call_own: "call_step\<^sup>*\<^sup>* e e' \<Longrightarrow> (own_step pb)\<^sup>*\<^sup>* e e'"
  by (erule rtranclp_mono [THEN predicate2D, rotated]) (auto intro: own_call)

lemma reader_own: "reader_step\<^sup>*\<^sup>* e e' \<Longrightarrow> (own_step pb)\<^sup>*\<^sup>* e e'"
  by (erule rtranclp_mono [THEN predicate2D, rotated]) (auto intro: own_reader)

abbreviation hub_at :: "ext_stream \<Rightarrow> 'x \<Rightarrow> nat \<Rightarrow> nat \<Rightarrow> 'x hub_sys" where
  "hub_at e x d u \<equiv> \<lparr>hb_ext = e, hb_proc = x, hb_down = d, hb_up = u\<rparr>"

text \<open>Steps of the process that no command arrives in.\<close>

abbreviation quiet :: "('x \<Rightarrow> 'x \<Rightarrow> bool) \<Rightarrow> ('x \<Rightarrow> cl_stream) \<Rightarrow> 'x \<Rightarrow> 'x \<Rightarrow> bool" where
  "quiet proc cl x y \<equiv> proc x y \<and> arrived (cl y) = arrived (cl x)"

lemma hub_reach_own:
  assumes "reach I (hub_step pb proc cl) (hub_at e x d u)" and "(own_step pb)\<^sup>*\<^sup>* e e'"
  shows "reach I (hub_step pb proc cl) (hub_at e' x d u)"
  using assms(2)
proof (induction rule: rtranclp_induct)
  case (step e1 e2)
  have "hub_step pb proc cl (hub_at e1 x d u) (hub_at e2 x d u)"
    using hb_own [of pb "hub_at e1 x d u" e2 proc cl] step.hyps(2) by simp
  then show ?case by (rule reach_step [OF step.IH])
qed (rule assms(1))

lemma hub_reach_quiet:
  assumes "reach I (hub_step pb proc cl) (hub_at e x d u)" and "(quiet proc cl)\<^sup>*\<^sup>* x x'"
  shows "reach I (hub_step pb proc cl) (hub_at e x' d u)"
  using assms(2)
proof (induction rule: rtranclp_induct)
  case (step x1 x2)
  have "hub_step pb proc cl (hub_at e x1 d u) (hub_at e x2 d u)"
    using hb_run [of proc "hub_at e x1 d u" x2 cl pb] step.hyps(2) by simp
  then show ?case by (rule reach_step [OF step.IH])
qed (rule assms(1))

text \<open>The hub has written the command and waits; it has got its answer.\<close>

abbreviation hub_sent :: "Cmd \<Rightarrow> ext_stream" where
  "hub_sent cmd \<equiv> one_slot cmd (slot_open []) [] (CWait cmd 0) RDecode [] [cmd]"

abbreviation hub_got :: "Cmd \<Rightarrow> Msg \<Rightarrow> ext_stream" where
  "hub_got cmd m \<equiv> ext_at Map.empty [(cmd_key cmd, slot_shut)] {cmd_key cmd} [] (CRet cmd (Inr (Some m))) CIdle RDecode TLoop [] [cmd]"

lemma hub_sends: "(own_step pb)\<^sup>*\<^sup>* ext_start (hub_sent cmd)"
proof -
  let ?q = "one_slot cmd (slot_open []) [cmd] (CWait cmd 0) RDecode [] []"
  have "writer_step pb ?q (hub_sent cmd)"
    using w_cmd [of ?q cmd "\<lparr>ch_cap = Suc 0, ch_buf = [], ch_closed = False\<rparr>" pb] by (simp add: ext_run_simps)
  then show ?thesis using call_own [OF call_waiting [of cmd]] by (meson own_writer rtranclp.rtrancl_into_rtrancl)
qed

lemma hub_gets:
  assumes "msg_key m = cmd_key cmd"
  shows "(own_step pb)\<^sup>*\<^sup>* (one_slot cmd (slot_open []) [] (CWait cmd 0) RDecode [m] [cmd]) (hub_got cmd m)"
proof -
  have "call_step\<^sup>*\<^sup>* (one_slot cmd (slot_open [m]) [] (CWait cmd 0) RDecode [] [cmd]) (hub_got cmd m)"
    by (rule converse_rtranclp_into_rtranclp [OF call_taken call_answered])
  with reader_own [OF reader_deliver [OF assms]] show ?thesis by (meson call_own rtranclp_trans)
qed

lemma hub_round_trip:
  assumes "cl x0 = cl_start" and "proc x0 x1" and "cl x1 = cl_start\<lparr>cl_in := [cmd]\<rparr>"
    and "(quiet proc cl)\<^sup>*\<^sup>* x1 x2" and "cl_out (cl x2) = [m]" and "msg_key m = cmd_key cmd"
  shows "reach (\<lambda>s. s = hub_start x0) (hub_step pb proc cl) (hub_at (hub_got cmd m) x2 1 1)"
proof -
  have "reach (\<lambda>s. s = hub_start x0) (hub_step pb proc cl) (hub_at ext_start x0 0 0)"
    by (rule reach_init) (simp add: hub_start_def)
  note sent = hub_reach_own [OF this hub_sends]
  have "hub_step pb proc cl (hub_at (hub_sent cmd) x0 0 0) (hub_at (hub_sent cmd) x1 1 0)"
    using hb_cmd [of "hub_at (hub_sent cmd) x0 0 0" proc x1 cl pb] assms(1-3) by (simp add: cl_start_def)
  note handled = hub_reach_quiet [OF reach_step [OF sent this] assms(4)]
  have "hub_step pb proc cl (hub_at (hub_sent cmd) x2 1 0)
      (hub_at (one_slot cmd (slot_open []) [] (CWait cmd 0) RDecode [m] [cmd]) x2 1 1)"
    using hb_msg [of "hub_at (hub_sent cmd) x2 1 0" cl pb proc] assms(5) by simp
  from hub_reach_own [OF reach_step [OF handled this] hub_gets [OF assms(6)]] show ?thesis .
qed

lemma hub_got_only: "call_cmd (calls (hub_got cmd m) t) = Some c \<Longrightarrow> c = cmd"
  by (auto simp: ext_at_def ext_start_def split: if_splits)

text \<open>What the client does with the one command, up to forwarding it.\<close>

lemma client_reads:
  assumes "\<not> is_ping pb cmd"
  shows "cl_step pb (cl_start\<lparr>cl_in := [cmd]\<rparr>) (cl_start\<lparr>cl_decoded := [cmd], cr := CForward cmd\<rparr>)"
    and "cl_step pb (cl_start\<lparr>cl_decoded := [cmd], cr := CForward cmd\<rparr>) (cl_start\<lparr>cl_decoded := [cmd], cl_cmds := [cmd]\<rparr>)"
  using cr_cmd [of "cl_start\<lparr>cl_in := [cmd]\<rparr>" cmd "[]" pb] assms
    cr_forward [of "cl_start\<lparr>cl_decoded := [cmd], cr := CForward cmd\<rparr>" cmd pb]
  by (simp_all add: cl_start_def is_ping_def)

lemma client_writes:
  "cl_step pb (cl_start\<lparr>cl_decoded := [cmd], cl_cmds := [cmd], cl_msgs := [m]\<rparr>)
     (cl_start\<lparr>cl_decoded := [cmd], cl_cmds := [cmd], cl_taken := [m], cl_out := [m]\<rparr>)"
  using cw_msg [of "cl_start\<lparr>cl_decoded := [cmd], cl_cmds := [cmd], cl_msgs := [m]\<rparr>" m "[]" pb] by (simp add: cl_start_def)

section \<open>Properties\<close>

text \<open>
  C3. A remote call is a local call: in every run of the hub's stream, a connection that may
  break, and a peripheral extension (client, session loop and handler), under every
  interleaving of their goroutines and with any number of callers of \<open>sendCmd\<close>, timeouts,
  pings, replaced channels and replies that do not marshal (which end the loop): when \<open>sendCmd\<close> returns a message for a command, this is the
  reply that the extension's command loop gives to this very command when it runs alone, one
  command after another, on the first of the commands that the hub wrote, in the order in
  which it wrote them. The command is assumed to be the only one given to \<open>sendCmd\<close> with its
  id and sequence number, which are not both 0 (those of a pong).
\<close>

theorem remote_call_is_local:
  assumes "reach (\<lambda>s. s = hub_start (ss_start st)) (hub_step pb (ss_step pb marshal (per_HandleCmd pb we U I)) ss_cl) s"
    and "calls (hb_ext s) t = CRet cmd (Inr (Some msg))" and "cmd_key cmd \<noteq> (0, 0)"
    and "\<And>t' c. call_cmd (calls (hb_ext s) t') = Some c \<Longrightarrow> cmd_key c = cmd_key cmd \<Longrightarrow> c = cmd"
  shows "\<exists>cs st' replies j. prefix cs (filter (\<lambda>c. \<not> is_ping pb c) (ext_out (hb_ext s))) \<and>
     session_loop marshal (per_HandleCmd pb we U I) send_append cs st [] = Ret (None, st', replies) \<and>
     j < length cs \<and> cs ! j = cmd \<and> replies ! j = msg"
  by (rule perh.remote_call [OF assms(1) TrueI assms(2-4)])

text \<open>A run: one command goes to the extension and its reply comes back.\<close>

type_synonym hub_example = "(nat per_handler \<times> nat) session_sys hub_sys"

abbreviation hub_example_handle :: "(nat per_handler \<times> nat, unit) handle_func" where
  "hub_example_handle \<equiv> per_HandleCmd pb_example we_example unmarshal_example impl_example"

abbreviation hub_example_proc ::
  "(nat per_handler \<times> nat) session_sys \<Rightarrow> (nat per_handler \<times> nat) session_sys \<Rightarrow> bool" where
  "hub_example_proc \<equiv> ss_step pb_example (\<lambda>b. Inr [0]) hub_example_handle"

abbreviation hub_example_reach :: "hub_example \<Rightarrow> bool" where
  "hub_example_reach \<equiv> reach (\<lambda>s. s = hub_start (ss_start (NewPeripheralHandler, 0))) (hub_step pb_example hub_example_proc ss_cl)"

abbreviation hub_ss :: "cl_stream \<Rightarrow> (nat per_handler \<times> nat) session_sys" where
  "hub_ss c \<equiv> (ss_start (NewPeripheralHandler, 0))\<lparr>ss_cl := c\<rparr>"

lemma hub_example_client:
  assumes "cl_step pb_example c c'" and "cl_taken c' @ cl_msgs c' = cl_taken c @ cl_msgs c" and "\<not> msg_closed c'"
  shows "hub_example_proc (ss\<lparr>ss_cl := c\<rparr>) (ss\<lparr>ss_cl := c'\<rparr>)"
  using ss_client [of pb_example "ss\<lparr>ss_cl := c\<rparr>" c' "\<lambda>b. Inr [0]" hub_example_handle] assms by simp

lemma hub_example_replied:
  "\<exists>m ss. (quiet hub_example_proc ss_cl)\<^sup>*\<^sup>* (hub_ss (cl_start\<lparr>cl_in := [exec_cmd]\<rparr>)) ss \<and> cl_out (ss_cl ss) = [m] \<and>
     msg_key m = cmd_key exec_cmd"
proof -
  let ?c = "cl_start\<lparr>cl_decoded := [exec_cmd], cl_cmds := [exec_cmd]\<rparr>"
  have "\<not> is_ping pb_example exec_cmd" by (simp add: is_ping_def exec_cmd_def pb_example_def)
  note reads = client_reads [OF this]
  obtain st m where one: "session_cmd (\<lambda>b. Inr [0]) hub_example_handle send_append exec_cmd (NewPeripheralHandler, 0) [] =
      Ret (None, st, [] @ [m])" and m: "msg_Id m = cmd_Id exec_cmd" "msg_Ack m = cmd_Seq exec_cmd"
    using perh.session_cmd_replies [where marshal = "\<lambda>b. Inr [0]" and w = "[]" and cmd = exec_cmd, OF TrueI] by blast
  let ?t = "(hub_ss ?c)\<lparr>ss_st := st, ss_pos := 1, ss_pend := [m], ss_replies := [m]\<rparr>"
  let ?u = "\<lambda>c. ?t\<lparr>ss_pend := [], ss_cl := c\<rparr>" and ?fin = "?c\<lparr>cl_taken := [m], cl_out := [m]\<rparr>"
  let ?q = "quiet hub_example_proc ss_cl"
  note defs = ss_start_def cl_start_def arrived_def
  have s1: "?q (hub_ss (cl_start\<lparr>cl_in := [exec_cmd]\<rparr>)) (hub_ss (cl_start\<lparr>cl_decoded := [exec_cmd], cr := CForward exec_cmd\<rparr>))"
    using hub_example_client [OF reads(1), of "ss_start (NewPeripheralHandler, 0)"] by (simp add: defs)
  have s2: "?q (hub_ss (cl_start\<lparr>cl_decoded := [exec_cmd], cr := CForward exec_cmd\<rparr>)) (hub_ss ?c)"
    using hub_example_client [OF reads(2), of "ss_start (NewPeripheralHandler, 0)"] by (simp add: defs)
  have s3: "?q (hub_ss ?c) ?t"
    using ss_take [of "hub_ss ?c" "\<lambda>b. Inr [0]" hub_example_handle st "[m]" pb_example] one by (simp add: ss_start_def)
  have s4: "?q ?t (?u (?c\<lparr>cl_msgs := [m]\<rparr>))" using ss_send [of ?t m "[]" pb_example "\<lambda>b. Inr [0]" hub_example_handle] by (simp add: defs)
  have s5: "?q (?u (?c\<lparr>cl_msgs := [m]\<rparr>)) (?u ?fin)"
    using hub_example_client [OF client_writes [where pb = pb_example and cmd = exec_cmd and m = m], of "?t\<lparr>ss_pend := []\<rparr>"] by (simp add: defs)
  note more = converse_rtranclp_into_rtranclp [of ?q]
  have "?q\<^sup>*\<^sup>* (hub_ss (cl_start\<lparr>cl_in := [exec_cmd]\<rparr>)) (?u ?fin)"
    by (rule more [OF s1 more [OF s2 more [OF s3 more [OF s4 more [OF s5 rtranclp.rtrancl_refl]]]]])
  with m show ?thesis by (intro exI [of _ m] exI [of _ "?u ?fin"]) (simp add: ss_start_def msg_key_def cmd_key_def)
qed

theorem remote_call_is_local_witness:
  "\<exists>(s :: hub_example) m st' replies. hub_example_reach s \<and> calls (hb_ext s) 0 = CRet exec_cmd (Inr (Some m)) \<and>
     session_loop (\<lambda>b. Inr [0]) hub_example_handle send_append [exec_cmd] (NewPeripheralHandler, 0) [] =
       Ret (None, st', replies) \<and> replies ! 0 = m"
proof -
  obtain m ss where m: "(quiet hub_example_proc ss_cl)\<^sup>*\<^sup>* (hub_ss (cl_start\<lparr>cl_in := [exec_cmd]\<rparr>)) ss" "cl_out (ss_cl ss) = [m]"
    "msg_key m = cmd_key exec_cmd" using hub_example_replied by blast
  have "hub_example_proc (ss_start (NewPeripheralHandler, 0)) (hub_ss (cl_start\<lparr>cl_in := [exec_cmd]\<rparr>))"
    using hub_example_client [of cl_start "cl_start\<lparr>cl_in := [exec_cmd]\<rparr>" "ss_start (NewPeripheralHandler, 0)"] cl_peer_cmd [of cl_start pb_example exec_cmd]
    by (simp add: ss_start_def cl_start_def)
  from hub_round_trip [OF _ this _ m] have s: "hub_example_reach (hub_at (hub_got exec_cmd m) ss 1 1)" by (simp add: ss_start_def)
  have call: "calls (hb_ext (hub_at (hub_got exec_cmd m) ss 1 1)) 0 = CRet exec_cmd (Inr (Some m))" by simp
  have key: "cmd_key exec_cmd \<noteq> (0, 0)" by (simp add: cmd_key_def exec_cmd_def)
  from remote_call_is_local [OF s call key] hub_got_only
  obtain cs st' replies j where cs: "prefix cs (filter (\<lambda>c. \<not> is_ping pb_example c) [exec_cmd])"
    and loop: "session_loop (\<lambda>b. Inr [0]) hub_example_handle send_append cs (NewPeripheralHandler, 0) [] = Ret (None, st', replies)"
    and j: "j < length cs" "replies ! j = m" by fastforce
  have "filter (\<lambda>c. \<not> is_ping pb_example c) [exec_cmd] = [exec_cmd]"
    by (simp add: is_ping_def exec_cmd_def pb_example_def)
  with cs j have "cs = [exec_cmd]" "j = 0" by (auto simp: prefix_Cons)
  with s call loop j show ?thesis by blast
qed

end
