(* ===== verification/Runtime_Session.thy ===== *)
theory Runtime_Session
  imports Runtime Session
begin

text \<open>
  The runtime handler (\<open>src/extruntime/handler.go\<close>) under the session loop of the
  controller: commands are taken one at a time, but each accepted runtime packet is
  handled in a goroutine of its own, so that replies come in any order, between each other
  and between the messages of running streams.
\<close>

section \<open>The system\<close>

text \<open>
  The select of \<open>sendMsg\<close> in the controller, as a function of the case it takes: the
  message goes to \<open>msgCh\<close>, or is dropped without an error because \<open>cb.closed\<close> is
  closed, or is given up with an error because the context ended.
\<close>

datatype send_choice = Through | AtClosed | AtDone

definition sendMsg :: "(Msg list \<times> send_choice) send_func" where
  "sendMsg msg w =
     (case w of (ms, c) \<Rightarrow>
        case c of
          Through \<Rightarrow> (None, ms @ [msg], c)
        | AtClosed \<Rightarrow> (None, ms, c)
        | AtDone \<Rightarrow> (Some ErrCanceled, ms, c))"

text \<open>
  The handler's own fields; the engine and the map of functions are the parameter \<open>R\<close>
  and the function \<open>rt_do\<close>.
\<close>

record 'q rt_Handler =
  rh_BaseHandler :: "(Msg list \<times> send_choice) BaseHandler"
  rh_maxPayloadSize :: int
  rh_streams :: "'q StreamManager"

definition rt_NewHandler :: "int \<Rightarrow> 'q rt_Handler" where
  "rt_NewHandler maxSingleMessagePayloadSize =
     \<lparr>rh_BaseHandler = NewBaseHandler, rh_maxPayloadSize = maxSingleMessagePayloadSize, rh_streams = NewStreamManager\<rparr>"

text \<open>A goroutine is about to call its function, has the result, or has returned.\<close>

datatype rt_pc = GDo | GReply "error + Packet option" | GEnd "error + Packet option"

type_synonym rt_proc = "Cmd \<times> Packet \<times> rt_pc"

definition rt_handle ::
  "arhatgopb \<Rightarrow> ('o, 'r) aranyagopb \<Rightarrow> 'q SeqQueue \<Rightarrow> ('q rt_Handler \<times> rt_proc list, 'v) handle_func" where
  "rt_handle pb A Q cmd st =
     (case rt_HandleCmd pb A Q cmd (rh_streams (fst st)) of
        (r, m, started) \<Rightarrow>
          Ret (r, (fst st)\<lparr>rh_streams := m\<rparr>,
               snd st @ (case started of None \<Rightarrow> [] | Some pkt \<Rightarrow> [(cmd, pkt, GDo)])))"

text \<open>
  \<open>rs_out\<close> are the messages that went to \<open>msgCh\<close>; \<open>rs_lost\<close> the ids and sequence
  numbers of commands for which an answer was due and none went there; \<open>rs_closed\<close> and
  \<open>rs_done\<close>: the bundle is closed, the context has ended.
\<close>

record ('q, 'e) rt_sys =
  rs_h :: "'q rt_Handler"
  rs_procs :: "rt_proc list"
  rs_engine :: 'e
  rs_handled :: "Cmd list"
  rs_out :: "Msg list"
  rs_lost :: "(u64 \<times> u64) list"
  rs_closed :: bool
  rs_done :: bool
  rs_end :: bool

definition choice_ok :: "send_choice \<Rightarrow> ('q, 'e) rt_sys \<Rightarrow> bool" where
  "choice_ok c s \<longleftrightarrow> (c = AtClosed \<longrightarrow> rs_closed s) \<and> (c = AtDone \<longrightarrow> rs_done s)"

text \<open>
  Commands the peer waits for: all but input and close of a stream's data, and but the
  stream operations, which answer with the messages of the stream.
\<close>

definition awaits_answer :: "arhatgopb \<Rightarrow> ('o, 'r) aranyagopb \<Rightarrow> ('o, 'r, 'e) RuntimeEngine \<Rightarrow> Cmd \<Rightarrow> bool" where
  "awaits_answer pb A R cmd \<longleftrightarrow>
     cmd_Kind cmd \<noteq> CMD_DATA_INPUT pb \<and> cmd_Kind cmd \<noteq> CMD_DATA_CLOSE pb \<and>
     (cmd_Kind cmd = CMD_RUNTIME_ARANYA_PROTO pb \<longrightarrow>
        (case pb_UnmarshalPacket A (cmd_Payload cmd) of
           Inl _ \<Rightarrow> True
         | Inr pkt \<Rightarrow> pkt_Kind pkt \<in> set (rt_kinds A) \<longrightarrow> unary_funcMap A R (pkt_Kind pkt) \<noteq> None))"

text \<open>The kinds of message the stream operations send (their systems are in \<open>Upload\<close> and \<open>Port_Forward\<close>).\<close>

definition stream_msg :: "arhatgopb \<Rightarrow> Msg \<Rightarrow> bool" where
  "stream_msg pb msg \<longleftrightarrow> msg_Kind msg \<in> {MSG_DATA_OUTPUT pb, MSG_RUNTIME_DATA_STDERR pb, MSG_ERROR pb}"

text \<open>
  \<open>rs_do\<close> is a call that answers with a packet; \<open>rs_stream\<close> the return of a stream
  operation, with an error or nothing; \<open>rs_output\<close> whatever running stream operations
  do to the sessions and the engine, and what they send; \<open>rs_close\<close> the bundle's
  \<open>Close\<close>.
\<close>

inductive rs_step ::
  "arhatgopb \<Rightarrow> ('o, 'r) aranyagopb \<Rightarrow> 'q SeqQueue \<Rightarrow> ('o, 'r, 'e) RuntimeEngine \<Rightarrow> ('v body \<Rightarrow> error + bytes)
     \<Rightarrow> ('q, 'e) rt_sys \<Rightarrow> ('q, 'e) rt_sys \<Rightarrow> bool"
  for pb A Q R marshal where
  rs_cmd: "\<not> rs_end s \<Longrightarrow> choice_ok c s \<Longrightarrow>
     session_cmd marshal (rt_handle pb A Q) sendMsg cmd (rs_h s, rs_procs s) (rs_out s, c) = Ret (err, (h, ps), (out, c')) \<Longrightarrow>
     rs_step pb A Q R marshal s
       (s\<lparr>rs_h := h, rs_procs := ps, rs_out := out, rs_handled := rs_handled s @ [cmd], rs_end := err \<noteq> None,
          rs_lost := rs_lost s @ (if awaits_answer pb A R cmd \<and> out = rs_out s \<and> ps = rs_procs s then [(cmd_Id cmd, cmd_Seq cmd)] else [])\<rparr>)"
| rs_do: "i < length (rs_procs s) \<Longrightarrow> rs_procs s ! i = (cmd, pkt, GDo) \<Longrightarrow>
     unary_funcMap A R (pkt_Kind pkt) = Some f \<Longrightarrow> f (pkt_Payload pkt) (rs_engine s) = (r, e) \<Longrightarrow>
     rs_step pb A Q R marshal s (s\<lparr>rs_procs := (rs_procs s)[i := (cmd, pkt, GReply r)], rs_engine := e\<rparr>)"
| rs_stream: "i < length (rs_procs s) \<Longrightarrow> rs_procs s ! i = (cmd, pkt, GDo) \<Longrightarrow>
     unary_funcMap A R (pkt_Kind pkt) = None \<Longrightarrow> isl r \<or> r = Inr None \<Longrightarrow>
     rs_step pb A Q R marshal s (s\<lparr>rs_procs := (rs_procs s)[i := (cmd, pkt, GReply r)]\<rparr>)"
| rs_reply: "i < length (rs_procs s) \<Longrightarrow> rs_procs s ! i = (cmd, pkt, GReply r) \<Longrightarrow> choice_ok c s \<Longrightarrow>
     rt_reply pb A (rh_BaseHandler (rs_h s)) (cmd_Id cmd) (cmd_Seq cmd) r (rs_out s, c) = (out, c') \<Longrightarrow>
     rs_step pb A Q R marshal s (s\<lparr>rs_procs := (rs_procs s)[i := (cmd, pkt, GEnd r)], rs_out := out,
       rs_lost := rs_lost s @ (if r \<noteq> Inr None \<and> out = rs_out s then [(cmd_Id cmd, cmd_Seq cmd)] else [])\<rparr>)"
| rs_output: "\<forall>msg \<in> set ms. stream_msg pb msg \<Longrightarrow>
     rs_step pb A Q R marshal s
       (s\<lparr>rs_h := (rs_h s)\<lparr>rh_streams := m\<rparr>, rs_engine := e, rs_out := rs_out s @ ms\<rparr>)"
| rs_close: "rs_step pb A Q R marshal s (s\<lparr>rs_closed := True\<rparr>)"
| rs_cancel: "rs_step pb A Q R marshal s (s\<lparr>rs_done := True\<rparr>)"

text \<open>The controller has set the send function before it takes the first command.\<close>

definition rs_start :: "int \<Rightarrow> 'e \<Rightarrow> ('q, 'e) rt_sys" where
  "rs_start maxPayloadSize e =
     \<lparr>rs_h = (rt_NewHandler maxPayloadSize)\<lparr>rh_BaseHandler := SetMsgSendFunc (Some sendMsg) NewBaseHandler\<rparr>,
      rs_procs = [], rs_engine = e, rs_handled = [], rs_out = [], rs_lost = [], rs_closed = False, rs_done = False,
      rs_end = False\<rparr>"

definition rs_init :: "('q, 'e) rt_sys \<Rightarrow> bool" where
  "rs_init s \<longleftrightarrow> (\<exists>sz e. s = rs_start sz e)"

section \<open>Invariant\<close>

definition answers :: "arhatgopb \<Rightarrow> ('q, 'e) rt_sys \<Rightarrow> Msg list" where
  "answers pb s = filter (\<lambda>msg. \<not> stream_msg pb msg) (rs_out s)"

fun is_running :: "('o, 'r) aranyagopb \<Rightarrow> ('o, 'r, 'e) RuntimeEngine \<Rightarrow> rt_proc \<Rightarrow> bool" where
  "is_running A R (cmd, pkt, pc) \<longleftrightarrow> unary_funcMap A R (pkt_Kind pkt) \<noteq> None \<and> (case pc of GEnd r \<Rightarrow> False | _ \<Rightarrow> True)"

fun is_failed :: "('o, 'r) aranyagopb \<Rightarrow> ('o, 'r, 'e) RuntimeEngine \<Rightarrow> rt_proc \<Rightarrow> bool" where
  "is_failed A R (cmd, pkt, pc) \<longleftrightarrow> unary_funcMap A R (pkt_Kind pkt) = None \<and> (case pc of GEnd r \<Rightarrow> isl r | _ \<Rightarrow> False)"

definition proc_keys :: "(rt_proc \<Rightarrow> bool) \<Rightarrow> rt_proc list \<Rightarrow> (u64 \<times> u64) multiset" where
  "proc_keys P ps = mset (cmd_keys (map fst (filter P ps)))"

definition session_base :: "(Msg list \<times> send_choice) BaseHandler" where
  "session_base = SetMsgSendFunc (Some sendMsg) NewBaseHandler"

text \<open>Why an answer may be lost: the bundle or the context is gone, or something does not marshal.\<close>

definition may_lose :: "('o, 'r) aranyagopb \<Rightarrow> ('v body \<Rightarrow> error + bytes) \<Rightarrow> ('q, 'e) rt_sys \<Rightarrow> bool" where
  "may_lose A marshal s \<longleftrightarrow>
     rs_closed s \<or> rs_done s \<or> (\<exists>b. isl (marshal b)) \<or> (\<exists>q. isl (pb_MarshalPacket A q))"

fun proc_ok :: "('o, 'r) aranyagopb \<Rightarrow> ('o, 'r, 'e) RuntimeEngine \<Rightarrow> rt_proc \<Rightarrow> bool" where
  "proc_ok A R (cmd, pkt, GReply r) \<longleftrightarrow>
     (if unary_funcMap A R (pkt_Kind pkt) = None then isl r \<or> r = Inr None else r \<noteq> Inr None)"
| "proc_ok A R _ \<longleftrightarrow> True"

text \<open>The commands that got their answer or lost it.\<close>

definition settled :: "arhatgopb \<Rightarrow> ('q, 'e) rt_sys \<Rightarrow> (u64 \<times> u64) multiset" where
  "settled pb s = mset (reply_keys (answers pb s)) + mset (rs_lost s)"

definition rs_inv ::
  "arhatgopb \<Rightarrow> ('o, 'r) aranyagopb \<Rightarrow> ('o, 'r, 'e) RuntimeEngine \<Rightarrow> ('v body \<Rightarrow> error + bytes) \<Rightarrow> ('q, 'e) rt_sys \<Rightarrow> bool" where
  "rs_inv pb A R marshal s \<longleftrightarrow>
     rh_BaseHandler (rs_h s) = session_base \<and> (\<forall>p \<in> set (rs_procs s). proc_ok A R p) \<and>
     (rs_lost s \<noteq> [] \<longrightarrow> may_lose A marshal s) \<and>
     (distinct (0 # msg_kinds pb) \<longrightarrow>
        settled pb s + proc_keys (is_running A R) (rs_procs s) =
        mset (cmd_keys (filter (awaits_answer pb A R) (rs_handled s))) + proc_keys (is_failed A R) (rs_procs s))"

lemma keys_simps [simp]:
  "reply_keys [] = []" "reply_keys (msg # ms) = (msg_Id msg, msg_Ack msg) # reply_keys ms"
  "reply_keys (ms @ ms') = reply_keys ms @ reply_keys ms'"
  "cmd_keys [] = []" "cmd_keys (cmd # cs) = (cmd_Id cmd, cmd_Seq cmd) # cmd_keys cs"
  "cmd_keys (cs @ cs') = cmd_keys cs @ cmd_keys cs'"
  by (simp_all add: reply_keys_def cmd_keys_def)

lemma proc_keys_simps [simp]:
  "proc_keys P [] = {#}"
  "proc_keys P (p # ps) = (if P p then {#(cmd_Id (fst p), cmd_Seq (fst p))#} else {#}) + proc_keys P ps"
  "proc_keys P (ps @ ps') = proc_keys P ps + proc_keys P ps'"
  by (simp_all add: proc_keys_def)

lemma proc_keys_update:
  assumes "i < length ps" and "ps ! i = (cmd, pkt, pc)"
  shows "proc_keys P (ps[i := (cmd, pkt, pc')]) + (if P (cmd, pkt, pc) then {#(cmd_Id cmd, cmd_Seq cmd)#} else {#}) =
         proc_keys P ps + (if P (cmd, pkt, pc') then {#(cmd_Id cmd, cmd_Seq cmd)#} else {#})"
proof -
  have "ps = take i ps @ (cmd, pkt, pc) # drop (Suc i) ps" using id_take_nth_drop [OF assms(1)] assms(2) by simp
  then have "proc_keys P ps = proc_keys P (take i ps @ (cmd, pkt, pc) # drop (Suc i) ps)" by (rule arg_cong)
  then show ?thesis by (simp add: upd_conv_take_nth_drop [OF assms(1)] ac_simps)
qed

lemma SendMsg_session [simp]: "SendMsg session_base msg w = sendMsg msg w"
  by (simp add: session_base_def SetMsgSendFunc_def SendMsg_def)

lemma sendMsg_simps [simp]:
  "sendMsg msg (ms, Through) = (None, ms @ [msg], Through)" "sendMsg msg (ms, AtClosed) = (None, ms, AtClosed)"
  "sendMsg msg (ms, AtDone) = (Some ErrCanceled, ms, AtDone)"
  by (simp_all add: sendMsg_def)

lemma sendMsg_cases:
  "sendMsg msg (ms, c) = (e, ms', c') \<Longrightarrow> c' = c \<and> (c = Through \<and> ms' = ms @ [msg] \<and> e = None \<or> c \<noteq> Through \<and> ms' = ms)"
  by (cases c) auto

lemma rt_reply_msg:
  assumes "rt_reply pb A session_base sid sq r (w, c) = (w', c')"
  shows "w' = w \<and> (r = Inr None \<or> c \<noteq> Through \<or> (\<exists>q. isl (pb_MarshalPacket A q))) \<or>
    r \<noteq> Inr None \<and> (\<exists>p. w' = w @ [\<lparr>msg_Kind = MSG_RUNTIME_ARANYA_PROTO pb, msg_Id = sid, msg_Ack = sq, msg_Payload = p\<rparr>])"
proof (cases r)
  case (Inl err)
  with assms show ?thesis by (cases c) (auto simp: rt_reply_def)
next
  case (Inr po)
  show ?thesis
  proof (cases po)
    case (Some q)
    with Inr assms show ?thesis by (cases "pb_MarshalPacket A q"; cases c) (auto simp: rt_reply_def isl_def)
  qed (use Inr assms in \<open>simp add: rt_reply_def\<close>)
qed

lemma stream_msg_kinds:
  assumes "distinct (0 # msg_kinds pb)"
  shows "msg_Kind msg = 0 \<or> msg_Kind msg = MSG_RUNTIME_ARANYA_PROTO pb \<Longrightarrow> \<not> stream_msg pb msg"
  using assms by (auto simp: stream_msg_def msg_kinds_def)

text \<open>
  What one command does to the goroutines and the messages: a refused command is answered at
  once; of the others, those that await an answer start a goroutine that gives it.
\<close>

lemma rt_handle_cmd:
  assumes "session_cmd marshal (rt_handle pb A Q) sendMsg cmd (h, ps) w = Ret (err, (h', ps'), w')"
  shows "rh_BaseHandler h' = rh_BaseHandler h"
    and "ps' = ps \<or> (\<exists>pkt. pb_UnmarshalPacket A (cmd_Payload cmd) = Inr pkt \<and> ps' = ps @ [(cmd, pkt, GDo)])"
  using assms
  by (auto simp: session_cmd_def rt_handle_def rt_HandleCmd_def Let_def bind_outcome_Ret_iff
      split: if_splits sum.splits option.splits prod.splits)

lemma rt_handle_answer:
  fixes marshal :: "'v body \<Rightarrow> error + bytes" and R :: "('o, 'r, 'e) RuntimeEngine"
  assumes "session_cmd marshal (rt_handle pb A Q) sendMsg cmd (h, ps) (out, c) = Ret (err, (h', ps'), (out', c'))"
  defines "lost \<equiv> awaits_answer pb A R cmd \<and> out' = out \<and> ps' = ps"
  shows "\<exists>new ms. ps' = ps @ new \<and> out' = out @ ms \<and> proc_keys (is_failed A R) new = {#} \<and>
     (\<forall>msg \<in> set ms. msg_Kind msg = 0) \<and>
     mset (reply_keys ms) + (if lost then {#(cmd_Id cmd, cmd_Seq cmd)#} else {#}) + proc_keys (is_running A R) new =
       (if awaits_answer pb A R cmd then {#(cmd_Id cmd, cmd_Seq cmd)#} else {#}) \<and>
     (lost \<longrightarrow> c \<noteq> Through \<or> (\<exists>b. isl (marshal b)))"
proof -
  obtain r :: "'v reply" and m started where h: "rt_HandleCmd pb A Q cmd (rh_streams h) = (r, m, started)"
    by (rule prod_cases3)
  consider (refused) e where "r = (0, None, Some e)" "started = None" "awaits_answer pb A R cmd"
    | (data) "r = (0, None, None)" "started = None" "\<not> awaits_answer pb A R cmd"
    | (accepted) pkt where "r = (0, None, None)" "started = Some pkt"
        "awaits_answer pb A R cmd \<longleftrightarrow> unary_funcMap A R (pkt_Kind pkt) \<noteq> None"
    using h by (auto simp: rt_HandleCmd_def awaits_answer_def Let_def split: if_splits sum.splits)
  then show ?thesis
  proof cases
    case refused
    then have ps: "ps' = ps" using assms(1) h by (auto simp: session_cmd_def rt_handle_def reply_body_def split: sum.splits prod.splits)
    show ?thesis
    proof (cases "marshal (body.ErrorMsg (err_string e))")
      case (Inl err1)
      then have "out' = out" using assms(1) h refused by (simp add: session_cmd_def rt_handle_def reply_body_def NewMsg_def)
      moreover have "\<exists>b. isl (marshal b)" using Inl by (metis sum.disc(1))
      ultimately show ?thesis using ps refused(3) by (simp add: lost_def)
    next
      case (Inr d)
      then have "out' = (if c = Through then out @ [\<lparr>msg_Kind = 0, msg_Id = cmd_Id cmd, msg_Ack = cmd_Seq cmd, msg_Payload = Some d\<rparr>] else out)"
        using assms(1) h refused by (cases c) (auto simp: session_cmd_def rt_handle_def reply_body_def NewMsg_def)
      with ps refused(3) show ?thesis by (cases "c = Through") (auto simp: lost_def)
    qed
  qed (use assms(1) h in \<open>auto simp: lost_def session_cmd_def rt_handle_def reply_body_def\<close>)
qed

lemma rs_update_inv:
  assumes inv: "rs_inv pb A R marshal s" and i: "i < length (rs_procs s)" "rs_procs s ! i = (cmd, pkt, pc)"
    and p: "proc_ok A R (cmd, pkt, pc')" and same: "rh_BaseHandler (rs_h t) = rh_BaseHandler (rs_h s)"
      "rs_procs t = (rs_procs s)[i := (cmd, pkt, pc')]" "rs_handled t = rs_handled s"
    and lost: "rs_lost t \<noteq> [] \<Longrightarrow> may_lose A marshal t"
    and keys: "distinct (0 # msg_kinds pb) \<Longrightarrow> settled pb t +
        (if is_running A R (cmd, pkt, pc') then {#(cmd_Id cmd, cmd_Seq cmd)#} else {#}) +
        (if is_failed A R (cmd, pkt, pc) then {#(cmd_Id cmd, cmd_Seq cmd)#} else {#}) =
      settled pb s +
        (if is_running A R (cmd, pkt, pc) then {#(cmd_Id cmd, cmd_Seq cmd)#} else {#}) +
        (if is_failed A R (cmd, pkt, pc') then {#(cmd_Id cmd, cmd_Seq cmd)#} else {#})"
  shows "rs_inv pb A R marshal t"
proof -
  note upd = proc_keys_update [OF i, of _ pc']
  have "settled pb t + proc_keys (is_running A R) (rs_procs t) =
      mset (cmd_keys (filter (awaits_answer pb A R) (rs_handled t))) + proc_keys (is_failed A R) (rs_procs t)"
    if ok: "distinct (0 # msg_kinds pb)"
  proof (rule multiset_eqI)
    fix k
    have "count (settled pb s + proc_keys (is_running A R) (rs_procs s)) k =
        count (mset (cmd_keys (filter (awaits_answer pb A R) (rs_handled s))) + proc_keys (is_failed A R) (rs_procs s)) k"
      using inv ok by (simp add: rs_inv_def)
    then show "count (settled pb t + proc_keys (is_running A R) (rs_procs t)) k =
        count (mset (cmd_keys (filter (awaits_answer pb A R) (rs_handled t))) + proc_keys (is_failed A R) (rs_procs t)) k"
      using arg_cong [OF keys [OF ok], of "\<lambda>M. count M k"] arg_cong [OF upd [of "is_running A R"], of "\<lambda>M. count M k"]
        arg_cong [OF upd [of "is_failed A R"], of "\<lambda>M. count M k"]
      unfolding same count_union by linarith
  qed
  moreover have "\<forall>p \<in> set (rs_procs t). proc_ok A R p"
    using inv p set_update_subset_insert [of "rs_procs s" i "(cmd, pkt, pc')"] unfolding same rs_inv_def by blast
  ultimately show ?thesis using inv same(1) lost by (simp add: rs_inv_def)
qed

text \<open>A message that was not sent although the select was open for it did not marshal.\<close>

lemma may_loseI:
  "choice_ok c s \<Longrightarrow> c \<noteq> Through \<or> (\<exists>b. isl (marshal b)) \<or> (\<exists>q. isl (pb_MarshalPacket A q)) \<Longrightarrow> may_lose A marshal s"
  by (cases c) (auto simp: choice_ok_def may_lose_def)

lemma may_lose_cong:
  "rs_closed t = rs_closed s \<Longrightarrow> rs_done t = rs_done s \<Longrightarrow> may_lose A marshal t = may_lose A marshal s"
  by (simp add: may_lose_def)

lemma rs_cmd_inv:
  assumes inv: "rs_inv pb A R marshal s" and c: "choice_ok c s"
    and cmd: "session_cmd marshal (rt_handle pb A Q) sendMsg cmd (rs_h s, rs_procs s) (rs_out s, c) = Ret (err, (h, ps), (out, c'))"
  shows "rs_inv pb A R marshal
    (s\<lparr>rs_h := h, rs_procs := ps, rs_out := out, rs_handled := rs_handled s @ [cmd], rs_end := e,
       rs_lost := rs_lost s @ (if awaits_answer pb A R cmd \<and> out = rs_out s \<and> ps = rs_procs s then [(cmd_Id cmd, cmd_Seq cmd)] else [])\<rparr>)"
    (is "rs_inv pb A R marshal ?t")
proof -
  let ?lost = "awaits_answer pb A R cmd \<and> out = rs_out s \<and> ps = rs_procs s"
  obtain new ms where new: "ps = rs_procs s @ new" "out = rs_out s @ ms" "proc_keys (is_failed A R) new = {#}"
      "\<forall>msg \<in> set ms. msg_Kind msg = 0"
    and keys: "mset (reply_keys ms) + (if ?lost then {#(cmd_Id cmd, cmd_Seq cmd)#} else {#}) + proc_keys (is_running A R) new =
        (if awaits_answer pb A R cmd then {#(cmd_Id cmd, cmd_Seq cmd)#} else {#})"
    and lost: "?lost \<Longrightarrow> c \<noteq> Through \<or> (\<exists>b. isl (marshal b))"
    using rt_handle_answer [OF cmd, of R] by blast
  have "settled pb ?t + proc_keys (is_running A R) ps =
      mset (cmd_keys (filter (awaits_answer pb A R) (rs_handled s @ [cmd]))) + proc_keys (is_failed A R) ps"
    if ok: "distinct (0 # msg_kinds pb)"
  proof -
    have "\<forall>msg \<in> set ms. \<not> stream_msg pb msg" using new(4) stream_msg_kinds [OF ok] by blast
    then have "answers pb ?t = answers pb s @ ms" using new(2) by (simp add: answers_def)
    then have "settled pb ?t + proc_keys (is_running A R) ps =
        (settled pb s + proc_keys (is_running A R) (rs_procs s)) +
        (mset (reply_keys ms) + (if ?lost then {#(cmd_Id cmd, cmd_Seq cmd)#} else {#}) + proc_keys (is_running A R) new)"
      using new(1) by (simp add: settled_def ac_simps)
    with inv ok new keys show ?thesis by (simp add: rs_inv_def)
  qed
  moreover have "may_lose A marshal ?t" if "rs_lost ?t \<noteq> []"
    using that inv lost may_loseI [OF c, of marshal A] by (auto simp: rs_inv_def may_lose_def split: if_splits)
  ultimately show ?thesis using inv rt_handle_cmd [OF cmd] by (auto simp: rs_inv_def)
qed

lemma rs_reply_inv:
  assumes inv: "rs_inv pb A R marshal s" and i: "i < length (rs_procs s)" "rs_procs s ! i = (cmd, pkt, GReply r)"
    and c: "choice_ok c s" and out: "rt_reply pb A (rh_BaseHandler (rs_h s)) (cmd_Id cmd) (cmd_Seq cmd) r (rs_out s, c) = (out, c')"
  shows "rs_inv pb A R marshal (s\<lparr>rs_procs := (rs_procs s)[i := (cmd, pkt, GEnd r)], rs_out := out,
       rs_lost := rs_lost s @ (if r \<noteq> Inr None \<and> out = rs_out s then [(cmd_Id cmd, cmd_Seq cmd)] else [])\<rparr>)"
    (is "rs_inv pb A R marshal ?t")
proof (rule rs_update_inv [OF inv i, of "GEnd r"])
  have pc: "proc_ok A R (cmd, pkt, GReply r)" and base: "rh_BaseHandler (rs_h s) = session_base"
    using inv nth_mem [OF i(1)] i(2) by (auto simp: rs_inv_def)
  note msg = rt_reply_msg [OF out [unfolded base]]
  show "may_lose A marshal ?t" if "rs_lost ?t \<noteq> []"
    using that inv msg may_loseI [OF c, of marshal A] by (auto simp: rs_inv_def may_lose_def split: if_splits)
  assume ok: "distinct (0 # msg_kinds pb)"
  have "settled pb ?t = settled pb s + (if r = Inr None then {#} else {#(cmd_Id cmd, cmd_Seq cmd)#})"
    using msg stream_msg_kinds [OF ok] by (auto simp: settled_def answers_def)
  with pc show "settled pb ?t +
      (if is_running A R (cmd, pkt, GEnd r) then {#(cmd_Id cmd, cmd_Seq cmd)#} else {#}) +
      (if is_failed A R (cmd, pkt, GReply r) then {#(cmd_Id cmd, cmd_Seq cmd)#} else {#}) =
    settled pb s +
      (if is_running A R (cmd, pkt, GReply r) then {#(cmd_Id cmd, cmd_Seq cmd)#} else {#}) +
      (if is_failed A R (cmd, pkt, GEnd r) then {#(cmd_Id cmd, cmd_Seq cmd)#} else {#})"
    by (auto simp: isl_def split: if_splits)
qed simp_all

lemma rs_step_inv:
  assumes "rs_step pb A Q R marshal s t" and inv: "rs_inv pb A R marshal s"
  shows "rs_inv pb A R marshal t"
  using assms(1)
proof cases
  case (rs_cmd c cmd err h ps out c')
  then show ?thesis using rs_cmd_inv [OF inv rs_cmd(3,4)] by simp
next
  case (rs_do i cmd pkt f r e)
  show ?thesis
    by (rule rs_update_inv [OF inv rs_do(2,3), of "GReply r"])
      (use inv rs_do unary_packet [OF rs_do(4,5)] in \<open>auto simp: answers_def settled_def rs_inv_def may_lose_def\<close>)
next
  case (rs_stream i cmd pkt r)
  show ?thesis
    by (rule rs_update_inv [OF inv rs_stream(2,3), of "GReply r"])
      (use inv rs_stream in \<open>auto simp: answers_def settled_def rs_inv_def may_lose_def\<close>)
next
  case (rs_reply i cmd pkt r c out c')
  then show ?thesis using rs_reply_inv [OF inv rs_reply(2-5)] by simp
next
  case (rs_output ms m e)
  then have "settled pb t = settled pb s" by (simp add: settled_def answers_def filter_empty_conv)
  with rs_output inv show ?thesis by (simp add: rs_inv_def may_lose_def)
qed (use inv in \<open>auto simp: rs_inv_def settled_def answers_def may_lose_def\<close>)

lemma rs_init_inv: "rs_init s \<Longrightarrow> rs_inv pb A R marshal s"
  by (auto simp: rs_init_def rs_start_def rs_inv_def answers_def settled_def session_base_def)

interpretation rts: invariant_system rs_init "rs_step pb A Q R marshal" "rs_inv pb A R marshal" for pb A Q R marshal
  by unfold_locales (rule rs_init_inv, assumption, rule rs_step_inv)

section \<open>Properties\<close>


text \<open>Two pod requests and an unknown command; the second request is answered first.\<close>

definition rt_cmd :: "int32 \<Rightarrow> u64 \<Rightarrow> Cmd" where
  "rt_cmd kind sq = \<lparr>cmd_Kind = kind, cmd_Id = 7, cmd_Seq = sq, cmd_Payload = None\<rparr>"

definition rt_pkt :: Packet where
  "rt_pkt = \<lparr>pkt_Kind = 10, pkt_Payload = None\<rparr>"

definition rt_res :: "error + Packet option" where
  "rt_res = Inr (Some \<lparr>pkt_Kind = 14, pkt_Payload = Some [4]\<rparr>)"

definition rt_ans :: "int32 \<Rightarrow> u64 \<Rightarrow> Msg" where
  "rt_ans kind sq = \<lparr>msg_Kind = kind, msg_Id = 7, msg_Ack = sq, msg_Payload = Some [1]\<rparr>"

definition rs_at :: "rt_proc list \<Rightarrow> nat \<Rightarrow> Cmd list \<Rightarrow> Msg list \<Rightarrow> (nat, nat) rt_sys" where
  "rs_at ps e cs out =
     \<lparr>rs_h = (rt_NewHandler 4096)\<lparr>rh_BaseHandler := session_base\<rparr>, rs_procs = ps, rs_engine = e, rs_handled = cs,
      rs_out = out, rs_lost = [], rs_closed = False, rs_done = False, rs_end = False\<rparr>"

abbreviation rs_example_step :: "(nat, nat) rt_sys \<Rightarrow> (nat, nat) rt_sys \<Rightarrow> bool" where
  "rs_example_step \<equiv> rs_step pb_example aranya_example seqq_example engine_example (\<lambda>_ :: unit body. Inr [1])"

abbreviation rs_example_reach :: "(nat, nat) rt_sys \<Rightarrow> bool" where
  "rs_example_reach \<equiv> reach rs_init rs_example_step"

lemma rs_example_request:
  "rs_example_step (rs_at ps e cs out) (rs_at (ps @ [(rt_cmd 4 sq, rt_pkt, GDo)]) e (cs @ [rt_cmd 4 sq]) out)"
  using rs_cmd [of "rs_at ps e cs out" Through "\<lambda>_ :: unit body. Inr [1]" pb_example aranya_example seqq_example "rt_cmd 4 sq"]
  by (simp add: choice_ok_def rs_at_def rt_cmd_def rt_pkt_def session_cmd_def rt_handle_def rt_HandleCmd_def pb_example_def aranya_example_def
      rt_kinds_def reply_body_def Let_def)

lemma rs_example_unknown:
  "rs_example_step (rs_at ps e cs out) (rs_at ps e (cs @ [rt_cmd 9 sq]) (out @ [rt_ans 0 sq]))"
  using rs_cmd [of "rs_at ps e cs out" Through "\<lambda>_ :: unit body. Inr [1]" pb_example aranya_example seqq_example "rt_cmd 9 sq"]
  by (simp add: choice_ok_def rs_at_def rt_cmd_def rt_ans_def session_cmd_def rt_handle_def rt_HandleCmd_def pb_example_def
      reply_body_def NewMsg_def)

lemma rs_example_answer:
  assumes "i < length ps" and "ps ! i = (rt_cmd 4 sq, rt_pkt, GDo)"
  shows "rs_example_step (rs_at ps e cs out) (rs_at (ps[i := (rt_cmd 4 sq, rt_pkt, GReply rt_res)]) (Suc e) cs out)"
    and "rs_example_step (rs_at (ps[i := (rt_cmd 4 sq, rt_pkt, GReply rt_res)]) (Suc e) cs out)
      (rs_at (ps[i := (rt_cmd 4 sq, rt_pkt, GEnd rt_res)]) (Suc e) cs (out @ [rt_ans 7 sq]))"
  using rs_do [of i "rs_at ps e cs out" "rt_cmd 4 sq" rt_pkt aranya_example engine_example
      "handlePodList aranya_example engine_example" rt_res "Suc e" pb_example seqq_example "\<lambda>_ :: unit body. Inr [1]"]
    rs_reply [of i "rs_at (ps[i := (rt_cmd 4 sq, rt_pkt, GReply rt_res)]) (Suc e) cs out" "rt_cmd 4 sq" rt_pkt rt_res
      Through pb_example aranya_example "out @ [rt_ans 7 sq]" Through seqq_example engine_example "\<lambda>_ :: unit body. Inr [1]"] assms
  by (simp_all add: choice_ok_def rs_at_def rt_pkt_def rt_res_def unary_funcMap_def handlePodList_def unary_op_def aranya_example_def
      engine_example_def rt_reply_def rt_ans_def rt_cmd_def pb_example_def)

lemma rs_example_answered:
  assumes "rs_example_reach (rs_at ps e cs out)" and "i < length ps" and "ps ! i = (rt_cmd 4 sq, rt_pkt, GDo)"
  shows "rs_example_reach (rs_at (ps[i := (rt_cmd 4 sq, rt_pkt, GEnd rt_res)]) (Suc e) cs (out @ [rt_ans 7 sq]))"
  using rs_example_answer [OF assms(2,3)] assms(1) by (blast intro: reach_step)


end
