(* ===== verification/Runtime_Hub.thy ===== *)
theory Runtime_Hub
  imports Hub Runtime_Session
begin

text \<open>
  The hub and a runtime extension: client (\<open>src/client.go\<close>), session loop
  (\<open>src/controller.go\<close>) and the runtime handler with its goroutines
  (\<open>src/extruntime/handler.go\<close>) as a process at the other end of a stream of the
  extension manager (\<open>src/server/extension.go\<close>).
\<close>

section \<open>The process of a runtime extension\<close>

text \<open>
  \<open>rs_out\<close> of the session lists the messages for which the select of \<open>sendMsg\<close> takes
  the case \<open>msgCh\<close>, in the order in which it gets through; \<open>rx_sent\<close> of them have
  reached \<open>msgCh\<close>. The system is one connection of an extension whose handler is new.
\<close>

record ('q, 'e) rx_sys =
  rx_cl :: cl_stream
  rx_rs :: "('q, 'e) rt_sys"
  rx_sent :: nat

text \<open>
  Steps of the client other than a message appearing in its \<open>msgCh\<close>; the session takes
  the next of the commands that the client forwarded; the goroutines of the handler go on,
  or the bundle is closed, or the context ends; a message reaches \<open>msgCh\<close>.
\<close>

inductive rx_step ::
  "arhatgopb \<Rightarrow> ('o, 'r) aranyagopb \<Rightarrow> 'q SeqQueue \<Rightarrow> ('o, 'r, 'e) RuntimeEngine \<Rightarrow> ('v body \<Rightarrow> error + bytes)
     \<Rightarrow> ('q, 'e) rx_sys \<Rightarrow> ('q, 'e) rx_sys \<Rightarrow> bool"
  for pb A Q R marshal where
  rx_client: "cl_step pb (rx_cl s) c \<Longrightarrow> cl_taken c @ cl_msgs c = cl_taken (rx_cl s) @ cl_msgs (rx_cl s) \<Longrightarrow>
     (msg_closed c \<Longrightarrow> msg_closed (rx_cl s) \<or> rs_closed (rx_rs s)) \<Longrightarrow> rx_step pb A Q R marshal s (s\<lparr>rx_cl := c\<rparr>)"
| rx_take: "rs_step pb A Q R marshal (rx_rs s) t \<Longrightarrow> length (rs_handled (rx_rs s)) < length (cl_cmds (rx_cl s)) \<Longrightarrow>
     rs_handled t = rs_handled (rx_rs s) @ [cl_cmds (rx_cl s) ! length (rs_handled (rx_rs s))] \<Longrightarrow>
     rx_step pb A Q R marshal s (s\<lparr>rx_rs := t\<rparr>)"
| rx_run: "rs_step pb A Q R marshal (rx_rs s) t \<Longrightarrow> rs_handled t = rs_handled (rx_rs s) \<Longrightarrow>
     rx_step pb A Q R marshal s (s\<lparr>rx_rs := t\<rparr>)"
| rx_send: "rx_sent s < length (rs_out (rx_rs s)) \<Longrightarrow> \<not> msg_closed (rx_cl s) \<Longrightarrow>
     rx_step pb A Q R marshal s
       (s\<lparr>rx_cl := (rx_cl s)\<lparr>cl_msgs := cl_msgs (rx_cl s) @ [rs_out (rx_rs s) ! rx_sent s]\<rparr>, rx_sent := Suc (rx_sent s)\<rparr>)"

definition rx_start :: "int \<Rightarrow> 'e \<Rightarrow> ('q, 'e) rx_sys" where
  "rx_start maxPayloadSize e = \<lparr>rx_cl = cl_start, rx_rs = rs_start maxPayloadSize e, rx_sent = 0\<rparr>"

lemma rx_client_run:
  assumes "rx_step pb A Q R marshal s t"
  shows "cl_step pb (rx_cl s) (rx_cl t) \<or> rx_cl t = rx_cl s"
  using assms by cases (auto intro: cl_msg_send)

interpretation hrx: hub_process pb "rx_step pb A Q R marshal" rx_cl "rx_start n e" for pb A Q R marshal n e
  by unfold_locales (simp add: rx_start_def, rule rx_client_run)

section \<open>Where messages come from\<close>

text \<open>
  What a call for a packet may yield: the result of the engine in some state, or what a
  stream operation returns. The answers to a command: that of the session loop, at once, or
  that of the goroutine started for the packet it carries.
\<close>

definition rt_result :: "('o, 'r) aranyagopb \<Rightarrow> ('o, 'r, 'e) RuntimeEngine \<Rightarrow> Packet \<Rightarrow> error + Packet option \<Rightarrow> bool" where
  "rt_result A R pkt r \<longleftrightarrow>
     (case unary_funcMap A R (pkt_Kind pkt) of
        Some f \<Rightarrow> (\<exists>e e'. f (pkt_Payload pkt) e = (r, e'))
      | None \<Rightarrow> isl r \<or> r = Inr None)"

definition rt_answer ::
  "arhatgopb \<Rightarrow> ('o, 'r) aranyagopb \<Rightarrow> 'q SeqQueue \<Rightarrow> ('o, 'r, 'e) RuntimeEngine \<Rightarrow> ('v body \<Rightarrow> error + bytes)
     \<Rightarrow> Cmd \<Rightarrow> Msg \<Rightarrow> bool" where
  "rt_answer pb A Q R marshal cmd msg \<longleftrightarrow>
     (\<exists>st st'. session_cmd marshal (rt_handle pb A Q) sendMsg cmd st ([], Through) = Ret (None, st', [msg], Through)) \<or>
     (\<exists>pkt r. pb_UnmarshalPacket A (cmd_Payload cmd) = Inr pkt \<and> rt_result A R pkt r \<and>
        rt_reply pb A session_base (cmd_Id cmd) (cmd_Seq cmd) r ([], Through) = ([msg], Through))"

lemma session_cmd_split:
  assumes "session_cmd marshal handle sendMsg cmd st (w, c) = Ret (err, st', w', c')"
  shows "w' = w \<or> (\<exists>m. w' = w @ [m] \<and> msg_key m = cmd_key cmd \<and>
     session_cmd marshal handle sendMsg cmd st ([], Through) = Ret (None, st', [m], Through))"
proof -
  obtain r s1 where "handle cmd st = Ret (r, s1)" using assms by (auto simp: session_cmd_def bind_outcome_Ret_iff)
  with assms show ?thesis
    by (cases c; cases "reply_body r") (auto simp: session_cmd_def NewMsg_def msg_key_def cmd_key_def split: sum.splits)
qed

lemma rt_reply_split:
  assumes "rt_reply pb A session_base sid sq r (w, c) = (w', c')"
  shows "w' = w \<or> (\<exists>m. w' = w @ [m] \<and> msg_key m = (sid, sq) \<and> rt_reply pb A session_base sid sq r ([], Through) = ([m], Through))"
  using assms by (cases c) (auto simp: rt_reply_def msg_key_def split: sum.splits option.splits)

lemma rt_answer_key:
  assumes "rt_answer pb A Q R marshal cmd msg"
  shows "msg_key msg = cmd_key cmd"
  using assms unfolding rt_answer_def
proof (elim disjE exE conjE)
  fix st st'
  assume "session_cmd marshal (rt_handle pb A Q) sendMsg cmd st ([], Through) = Ret (None, st', [msg], Through)"
  from session_cmd_split [OF this] show ?thesis by auto
next
  fix pkt r
  assume "rt_reply pb A session_base (cmd_Id cmd) (cmd_Seq cmd) r ([], Through) = ([msg], Through)"
  from rt_reply_split [OF this] show ?thesis by (auto simp: cmd_key_def)
qed

fun rx_proc_ok :: "('o, 'r) aranyagopb \<Rightarrow> ('o, 'r, 'e) RuntimeEngine \<Rightarrow> Cmd set \<Rightarrow> rt_proc \<Rightarrow> bool" where
  "rx_proc_ok A R cs (cmd, pkt, pc) \<longleftrightarrow>
     cmd \<in> cs \<and> pb_UnmarshalPacket A (cmd_Payload cmd) = Inr pkt \<and>
     (case pc of GDo \<Rightarrow> True | GReply r \<Rightarrow> rt_result A R pkt r | GEnd r \<Rightarrow> rt_result A R pkt r)"

definition rx_origin ::
  "arhatgopb \<Rightarrow> ('o, 'r) aranyagopb \<Rightarrow> 'q SeqQueue \<Rightarrow> ('o, 'r, 'e) RuntimeEngine \<Rightarrow> ('v body \<Rightarrow> error + bytes)
     \<Rightarrow> ('q, 'e) rt_sys \<Rightarrow> bool" where
  "rx_origin pb A Q R marshal s \<longleftrightarrow>
     rh_BaseHandler (rs_h s) = session_base \<and> (\<forall>p \<in> set (rs_procs s). rx_proc_ok A R (set (rs_handled s)) p) \<and>
     (\<forall>msg \<in> set (rs_out s). stream_msg pb msg \<or> (\<exists>cmd \<in> set (rs_handled s). rt_answer pb A Q R marshal cmd msg))"

lemma rx_proc_ok_mono: "rx_proc_ok A R cs p \<Longrightarrow> cs \<subseteq> cs' \<Longrightarrow> rx_proc_ok A R cs' p"
  by (cases p) auto

lemma rx_origin_update:
  assumes "rx_origin pb A Q R marshal s" and "i < length (rs_procs s)" and "rs_procs s ! i = (cmd, pkt, pc)"
    and "rs_procs t = (rs_procs s)[i := (cmd, pkt, GReply r)]" and "rt_result A R pkt r"
    and "rs_h t = rs_h s" "rs_handled t = rs_handled s" "rs_out t = rs_out s"
  shows "rx_origin pb A Q R marshal t"
proof -
  have "rx_proc_ok A R (set (rs_handled s)) (cmd, pkt, pc)"
    using assms(1,3) nth_mem [OF assms(2)] by (metis rx_origin_def)
  with assms set_update_subset_insert [of "rs_procs s" i] show ?thesis by (fastforce simp: rx_origin_def)
qed

lemma rx_origin_step:
  assumes "rs_step pb A Q R marshal s t" and inv: "rx_origin pb A Q R marshal s"
  shows "rx_origin pb A Q R marshal t"
  using assms(1)
proof cases
  case (rs_cmd c cmd err h ps out c')
  have procs: "rx_proc_ok A R (set (rs_handled t)) p" if "p \<in> set ps" for p
    using that rt_handle_cmd(2) [OF rs_cmd(4)] inv by (auto simp: rs_cmd(1) rx_origin_def intro: rx_proc_ok_mono)
  have "out = rs_out s \<or> (\<exists>m. out = rs_out s @ [m] \<and> rt_answer pb A Q R marshal cmd m)"
    using session_cmd_split [OF rs_cmd(4)] unfolding rt_answer_def by blast
  with procs inv rt_handle_cmd(1) [OF rs_cmd(4)] show ?thesis by (auto simp: rs_cmd(1) rx_origin_def)
next
  case (rs_do i cmd pkt f r e)
  then have "rt_result A R pkt r" by (auto simp: rt_result_def)
  with rs_do show ?thesis by (intro rx_origin_update [OF inv rs_do(2,3)]) auto
next
  case (rs_stream i cmd pkt r)
  then have "rt_result A R pkt r" by (auto simp: rt_result_def)
  with rs_stream show ?thesis by (intro rx_origin_update [OF inv rs_stream(2,3)]) auto
next
  case (rs_reply i cmd pkt r c out c')
  have p: "rx_proc_ok A R (set (rs_handled s)) (cmd, pkt, GReply r)" and base: "rh_BaseHandler (rs_h s) = session_base"
    using inv rs_reply(3) nth_mem [OF rs_reply(2)] by (metis rx_origin_def)+
  have "out = rs_out s \<or> (\<exists>m. out = rs_out s @ [m] \<and> rt_answer pb A Q R marshal cmd m)"
    using rt_reply_split [OF rs_reply(5) [unfolded base]] p by (auto simp: rt_answer_def)
  moreover have "cmd \<in> set (rs_handled s)" using p by simp
  moreover have "rx_proc_ok A R (set (rs_handled s)) q" if "q \<in> set (rs_procs t)" for q
    using that p inv set_update_subset_insert [of "rs_procs s" i "(cmd, pkt, GEnd r)"] by (auto simp: rs_reply(1) rx_origin_def)
  ultimately show ?thesis using inv by (auto simp: rs_reply(1) rx_origin_def)
next
  case (rs_output ms m e)
  with inv show ?thesis by (auto simp: rx_origin_def)
qed (use inv in \<open>auto simp: rx_origin_def\<close>)

section \<open>Invariant\<close>

definition rx_inv ::
  "arhatgopb \<Rightarrow> ('o, 'r) aranyagopb \<Rightarrow> 'q SeqQueue \<Rightarrow> ('o, 'r, 'e) RuntimeEngine \<Rightarrow> ('v body \<Rightarrow> error + bytes)
     \<Rightarrow> ('q, 'e) rx_sys \<Rightarrow> bool" where
  "rx_inv pb A Q R marshal s \<longleftrightarrow>
     rx_origin pb A Q R marshal (rx_rs s) \<and> prefix (rs_handled (rx_rs s)) (cl_cmds (rx_cl s)) \<and>
     set (cl_taken (rx_cl s) @ cl_msgs (rx_cl s)) \<subseteq> set (rs_out (rx_rs s))"

lemma rs_step_out:
  assumes "rs_step pb A Q R marshal s t" and "rx_origin pb A Q R marshal s"
  shows "prefix (rs_out s) (rs_out t)"
  using assms(1)
proof cases
  case (rs_cmd c cmd err h ps out c')
  then show ?thesis using session_cmd_split [OF rs_cmd(4)] by auto
next
  case (rs_reply i cmd pkt r c out c')
  then show ?thesis using assms(2) rt_reply_split [of pb A "cmd_Id cmd" "cmd_Seq cmd" r "rs_out s" c out c']
    by (auto simp: rx_origin_def)
qed auto

lemma rx_step_inv:
  assumes "rx_step pb A Q R marshal s t" and inv: "rx_inv pb A Q R marshal s"
  shows "rx_inv pb A Q R marshal t"
proof -
  have o: "rx_origin pb A Q R marshal (rx_rs s)" and pre: "prefix (rs_handled (rx_rs s)) (cl_cmds (rx_cl s))"
    and out: "set (cl_taken (rx_cl s) @ cl_msgs (rx_cl s)) \<subseteq> set (rs_out (rx_rs s))" using inv by (auto simp: rx_inv_def)
  from assms(1) show ?thesis
  proof cases
    case (rx_client c)
    have "prefix (rs_handled (rx_rs s)) (cl_cmds c)"
      using pre cl_step_cmds [OF rx_client(2)] by (rule prefix_order.order_trans)
    with o out rx_client(3) show ?thesis by (simp add: rx_client(1) rx_inv_def)
  next
    case (rx_take t')
    have "prefix (rs_handled t') (cl_cmds (rx_cl s))" unfolding rx_take(4) by (rule append_one_prefix [OF pre rx_take(3)])
    with rx_origin_step [OF rx_take(2) o] set_mono_prefix [OF rs_step_out [OF rx_take(2) o]] out show ?thesis
      by (auto simp: rx_take(1) rx_inv_def)
  next
    case (rx_run t')
    with rx_origin_step [OF rx_run(2) o] set_mono_prefix [OF rs_step_out [OF rx_run(2) o]] out pre show ?thesis
      by (auto simp: rx_inv_def)
  qed (use inv in \<open>auto simp: rx_inv_def\<close>)
qed

lemma rx_start_inv: "rx_inv pb A Q R marshal (rx_start n e)"
  by (simp add: rx_inv_def rx_origin_def rx_start_def rs_start_def session_base_def cl_start_def)

interpretation rxs: invariant_system "\<lambda>s. s = rx_start n e" "rx_step pb A Q R marshal" "rx_inv pb A Q R marshal"
  for pb A Q R marshal n e
  by unfold_locales (simp add: rx_start_inv, rule rx_step_inv)

section \<open>Properties\<close>

text \<open>
  C4. A remote runtime call is answered from its own request: in every run of the hub's
  stream, a connection that may break, and a runtime extension on this connection (client,
  session loop, a new runtime handler with its goroutines, streams that send in between, a
  bundle and a context that may end), when \<open>sendCmd\<close>
  returns a message for a command, this is an answer to this very command: the error with
  which the handler refused it, or the reply to the packet it carries, made from the result
  of the engine's function for that packet; or else a message of a stream operation with the
  command's id and sequence number. The command is assumed to be the only one given to
  \<open>sendCmd\<close> with its id and sequence number, which are not both 0 (those of a pong).
\<close>

theorem remote_runtime_call:
  assumes run: "reach (\<lambda>s. s = hub_start (rx_start n e)) (hub_step pb (rx_step pb A Q R marshal) rx_cl) s"
    and call: "calls (hb_ext s) t = CRet cmd (Inr (Some msg))" and "cmd_key cmd \<noteq> (0, 0)"
    and fresh: "\<And>t' c. call_cmd (calls (hb_ext s) t') = Some c \<Longrightarrow> cmd_key c = cmd_key cmd \<Longrightarrow> c = cmd"
  shows "rt_answer pb A Q R marshal cmd msg \<or> stream_msg pb msg \<and> msg_Id msg = cmd_Id cmd \<and> msg_Ack msg = cmd_Seq cmd"
proof -
  let ?x = "hb_proc s"
  have rx: "rx_inv pb A Q R marshal ?x" by (rule rxs.inv_reach [OF hub_reach_proc [OF run]])
  have msg: "msg \<in> set (cl_out (rx_cl ?x))" "msg_key msg = cmd_key cmd" using hrx.hub_returned [OF run call] by auto
  have "msg_key (pong_msg pb) = (0, 0)" by (simp add: msg_key_def pong_msg_def)
  with msg assms(3) have "msg \<in> set (cl_taken (rx_cl ?x))"
    using client_written [OF hrx.client_reach [OF hub_reach_proc [OF run]]] by fastforce
  with rx have "msg \<in> set (rs_out (rx_rs ?x))" by (auto simp: rx_inv_def)
  with rx consider "stream_msg pb msg" | c where "c \<in> set (rs_handled (rx_rs ?x))" "rt_answer pb A Q R marshal c msg"
    by (auto simp: rx_inv_def rx_origin_def)
  then show ?thesis
  proof cases
    case 1
    with msg(2) show ?thesis by (simp add: msg_key_def cmd_key_def)
  next
    case (2 c)
    then have "c \<in> set (cl_cmds (rx_cl ?x))" using rx set_mono_prefix by (auto simp: rx_inv_def)
    moreover have "cmd_key c = cmd_key cmd" using rt_answer_key [OF 2(2)] msg(2) by simp
    ultimately have "c = cmd" using hrx.hub_given [OF run] fresh by blast
    with 2(2) show ?thesis by blast
  qed
qed

text \<open>A run: one pod request goes to the extension and the pods come back.\<close>

type_synonym rx_example = "(nat, nat) rx_sys"

abbreviation rx_example_step :: "rx_example \<Rightarrow> rx_example \<Rightarrow> bool" where
  "rx_example_step \<equiv> rx_step pb_example aranya_example seqq_example engine_example (\<lambda>_ :: unit body. Inr [1])"

definition rx_at :: "cl_stream \<Rightarrow> (nat, nat) rt_sys \<Rightarrow> nat \<Rightarrow> rx_example" where
  "rx_at c r n = \<lparr>rx_cl = c, rx_rs = r, rx_sent = n\<rparr>"

lemma rx_start_at: "rx_start 4096 0 = rx_at cl_start (rs_at [] 0 [] []) 0"
  by (simp add: rx_start_def rx_at_def rs_start_def rs_at_def session_base_def)

lemma rx_at_cl [simp]: "rx_cl (rx_at c r n) = c"
  by (simp add: rx_at_def)

lemma rx_example_client:
  assumes "cl_step pb_example c c'" and "cl_taken c' @ cl_msgs c' = cl_taken c @ cl_msgs c" and "\<not> msg_closed c'"
  shows "rx_example_step (rx_at c r n) (rx_at c' r n)"
  using rx_client [of pb_example "rx_at c r n" c' aranya_example seqq_example engine_example "\<lambda>_ :: unit body. Inr [1]"] assms by (simp add: rx_at_def)

lemma rx_example_run:
  assumes "rs_example_step r r'" and "rs_handled r' = rs_handled r"
  shows "rx_example_step (rx_at c r n) (rx_at c r' n)"
  using rx_run [of pb_example aranya_example seqq_example engine_example "\<lambda>_ :: unit body. Inr [1]" "rx_at c r n" r'] assms by (simp add: rx_at_def)

lemma rx_example_replied:
  defines "cmd \<equiv> rt_cmd 4 1" and "q \<equiv> quiet rx_example_step rx_cl"
  shows "\<exists>x. q\<^sup>*\<^sup>* (rx_at (cl_start\<lparr>cl_in := [cmd]\<rparr>) (rs_at [] 0 [] []) 0) x \<and> cl_out (rx_cl x) = [rt_ans 7 1]"
proof -
  let ?c = "cl_start\<lparr>cl_decoded := [cmd], cl_cmds := [cmd]\<rparr>" and ?p = "\<lambda>pc. [(cmd, rt_pkt, pc)]"
  have "\<not> is_ping pb_example cmd" by (simp add: is_ping_def cmd_def rt_cmd_def pb_example_def)
  note reads = client_reads [OF this] and writes = client_writes [where pb = pb_example and cmd = cmd and m = "rt_ans 7 1"]
  note defs = q_def cl_start_def arrived_def and answer = rs_example_answer [of 0 "?p GDo" 1, folded cmd_def, simplified]
  have s1: "q (rx_at (cl_start\<lparr>cl_in := [cmd]\<rparr>) (rs_at [] 0 [] []) 0)
      (rx_at (cl_start\<lparr>cl_decoded := [cmd], cr := CForward cmd\<rparr>) (rs_at [] 0 [] []) 0)"
    using rx_example_client [OF reads(1), of "rs_at [] 0 [] []" 0] by (simp add: defs)
  have s2: "q (rx_at (cl_start\<lparr>cl_decoded := [cmd], cr := CForward cmd\<rparr>) (rs_at [] 0 [] []) 0) (rx_at ?c (rs_at [] 0 [] []) 0)"
    using rx_example_client [OF reads(2), of "rs_at [] 0 [] []" 0] by (simp add: defs)
  have s3: "q (rx_at ?c (rs_at [] 0 [] []) 0) (rx_at ?c (rs_at (?p GDo) 0 [cmd] []) 0)"
    using rx_take [of pb_example aranya_example seqq_example engine_example "\<lambda>_ :: unit body. Inr [1]"
        "rx_at ?c (rs_at [] 0 [] []) 0" "rs_at (?p GDo) 0 [cmd] []"] rs_example_request [of "[]" 0 "[]" "[]" 1] by (simp add: q_def rx_at_def rs_at_def cmd_def)
  have s4: "q (rx_at ?c (rs_at (?p GDo) 0 [cmd] []) 0) (rx_at ?c (rs_at (?p (GReply rt_res)) 1 [cmd] []) 0)"
    using rx_example_run [OF answer(1) [of 0 "[cmd]" "[]"], of ?c 0] by (simp add: q_def rs_at_def)
  have s5: "q (rx_at ?c (rs_at (?p (GReply rt_res)) 1 [cmd] []) 0) (rx_at ?c (rs_at (?p (GEnd rt_res)) 1 [cmd] [rt_ans 7 1]) 0)"
    using rx_example_run [OF answer(2) [of 0 "[cmd]" "[]"], of ?c 0] by (simp add: q_def rs_at_def)
  have s6: "q (rx_at ?c (rs_at (?p (GEnd rt_res)) 1 [cmd] [rt_ans 7 1]) 0)
      (rx_at (?c\<lparr>cl_msgs := [rt_ans 7 1]\<rparr>) (rs_at (?p (GEnd rt_res)) 1 [cmd] [rt_ans 7 1]) 1)"
    using rx_send [of "rx_at ?c (rs_at (?p (GEnd rt_res)) 1 [cmd] [rt_ans 7 1]) 0" pb_example aranya_example seqq_example
        engine_example "\<lambda>_ :: unit body. Inr [1]"]
    by (simp add: defs rx_at_def rs_at_def)
  have s7: "q (rx_at (?c\<lparr>cl_msgs := [rt_ans 7 1]\<rparr>) (rs_at (?p (GEnd rt_res)) 1 [cmd] [rt_ans 7 1]) 1)
      (rx_at (?c\<lparr>cl_taken := [rt_ans 7 1], cl_out := [rt_ans 7 1]\<rparr>) (rs_at (?p (GEnd rt_res)) 1 [cmd] [rt_ans 7 1]) 1)"
    using rx_example_client [OF writes, of "rs_at (?p (GEnd rt_res)) 1 [cmd] [rt_ans 7 1]" 1] by (simp add: defs)
  note more = converse_rtranclp_into_rtranclp [of q]
  note run = more [OF s1 more [OF s2 more [OF s3 more [OF s4 more [OF s5 more [OF s6 more [OF s7 rtranclp.rtrancl_refl]]]]]]]
  then show ?thesis by (intro exI conjI) (assumption, simp)
qed

theorem remote_runtime_call_witness:
  "\<exists>s :: rx_example hub_sys. reach (\<lambda>s. s = hub_start (rx_start 4096 0)) (hub_step pb_example rx_example_step rx_cl) s \<and>
     calls (hb_ext s) 0 = CRet (rt_cmd 4 1) (Inr (Some (rt_ans 7 1))) \<and>
     rt_answer pb_example aranya_example seqq_example engine_example (\<lambda>_ :: unit body. Inr [1]) (rt_cmd 4 1) (rt_ans 7 1)"
proof -
  let ?cmd = "rt_cmd 4 1" and ?m = "rt_ans 7 1"
  obtain x where x: "(quiet rx_example_step rx_cl)\<^sup>*\<^sup>* (rx_at (cl_start\<lparr>cl_in := [?cmd]\<rparr>) (rs_at [] 0 [] []) 0) x"
    "cl_out (rx_cl x) = [?m]" using rx_example_replied by blast
  have "rx_example_step (rx_start 4096 0) (rx_at (cl_start\<lparr>cl_in := [?cmd]\<rparr>) (rs_at [] 0 [] []) 0)"
    using rx_example_client [of cl_start "cl_start\<lparr>cl_in := [?cmd]\<rparr>" "rs_at [] 0 [] []" 0]
      cl_peer_cmd [of cl_start pb_example ?cmd] by (simp add: rx_start_at cl_start_def)
  from hub_round_trip [where cl = rx_cl, OF _ this _ x]
  have s: "reach (\<lambda>s. s = hub_start (rx_start 4096 0)) (hub_step pb_example rx_example_step rx_cl) (hub_at (hub_got ?cmd ?m) x 1 1)"
    by (simp add: rx_start_at msg_key_def cmd_key_def rt_ans_def rt_cmd_def)
  have call: "calls (hb_ext (hub_at (hub_got ?cmd ?m) x 1 1)) 0 = CRet ?cmd (Inr (Some ?m))" by simp
  have key: "cmd_key ?cmd \<noteq> (0, 0)" by (simp add: cmd_key_def rt_cmd_def)
  have "\<not> stream_msg pb_example ?m" by (simp add: stream_msg_def rt_ans_def pb_example_def)
  with remote_runtime_call [OF s call key] hub_got_only s call show ?thesis by fastforce
qed

end
