(* ===== verification/Reconnect.thy ===== *)
theory Reconnect
  imports Controller Client
begin

text \<open>
  The controller and the successive connections of a client
  (\<open>ProcessNewStream(RefreshChannels())\<close> in a loop, as in \<open>src/examples\<close>): every pair of
  channels is given to one call of \<open>ProcessNewStream\<close>, which only its goroutines, if they
  start, make use of.
\<close>

section \<open>The system\<close>

text \<open>The call for a bundle has not come to its goroutines, has started them, or has returned before.\<close>

datatype attempt = ANone | AStarted | AFailed error

record recon_sys =
  rc_ctl :: controller
  rc_att :: "nat \<Rightarrow> attempt"

abbreviation cmdCh :: "controller \<Rightarrow> nat \<Rightarrow> Cmd chan" where
  "cmdCh c b \<equiv> cb_cmdCh (bundles c ! b)"

text \<open>Nobody sends to the command channel of bundle \<open>b\<close> or closes it in this step.\<close>

definition client_idle :: "nat \<Rightarrow> controller \<Rightarrow> controller \<Rightarrow> bool" where
  "client_idle b c c' \<longleftrightarrow>
     ch_closed (cmdCh c' b) = ch_closed (cmdCh c b) \<and> suffix (ch_buf (cmdCh c' b)) (ch_buf (cmdCh c b))"

inductive rc_step :: "recon_sys \<Rightarrow> recon_sys \<Rightarrow> bool" where
  rc_started: "b < length (bundles (rc_ctl s)) \<Longrightarrow> rc_att s b = ANone \<Longrightarrow>
     ProcessNewStream_start dial_err write_err = Inr st \<Longrightarrow>
     rc_step s (s\<lparr>rc_att := (rc_att s)(b := AStarted)\<rparr>)"
| rc_failed: "b < length (bundles (rc_ctl s)) \<Longrightarrow> rc_att s b = ANone \<Longrightarrow>
     ProcessNewStream_start dial_err write_err = Inl err \<Longrightarrow>
     rc_step s (s\<lparr>rc_att := (rc_att s)(b := AFailed err)\<rparr>)"
| rc_run: "ctl_step (rc_ctl s) c \<Longrightarrow>
     \<forall>b < length (bundles (rc_ctl s)). rc_att s b \<noteq> AStarted \<longrightarrow> client_idle b (rc_ctl s) c \<Longrightarrow>
     rc_step s (s\<lparr>rc_ctl := c\<rparr>)"

definition rc_init :: "recon_sys \<Rightarrow> bool" where
  "rc_init s \<longleftrightarrow> s = \<lparr>rc_ctl = NewController, rc_att = (\<lambda>_. ANone)\<rparr>"

section \<open>Invariant\<close>

definition idle_chan :: "'a chan \<Rightarrow> bool" where
  "idle_chan ch \<longleftrightarrow> ch_buf ch = [] \<and> \<not> ch_closed ch"

text \<open>The channel of a call that has not started its goroutines is as it was made.\<close>

definition rc_inv :: "recon_sys \<Rightarrow> bool" where
  "rc_inv s \<longleftrightarrow>
     (\<forall>b < length (bundles (rc_ctl s)). rc_att s b \<noteq> AStarted \<longrightarrow> idle_chan (cmdCh (rc_ctl s) b)) \<and>
     (\<forall>b \<ge> length (bundles (rc_ctl s)). rc_att s b = ANone)"

lemma set_bundle_sel [simp]:
  "length (bundles (set_bundle b cb c)) = length (bundles c)" "session (set_bundle b cb c) = session c"
  by (simp_all add: set_bundle_def)

lemma set_bundle_cmdCh:
  "cmdCh (set_bundle b cb c) b' = (if b' = b \<and> b < length (bundles c) then cb_cmdCh cb else cmdCh c b')"
  by (auto simp: set_bundle_def list_update_beyond)

lemma close_bundle_cmdCh_nth [simp]: "cmdCh (close_bundle b c) b' = cmdCh c b'"
proof (cases "bundle_Close (bundles c ! b)")
  case (Ret cb)
  then show ?thesis using bundle_Close_cmdCh [OF Ret] by (simp add: close_bundle_def set_bundle_cmdCh)
qed (simp add: close_bundle_def)

lemma send_case_sel [simp]:
  "length (bundles (send_case b msg c)) = length (bundles c)" "session (send_case b msg c) = session c"
  "cmdCh (send_case b msg c) b' = cmdCh c b'"
  by (auto simp: send_case_def set_bundle_cmdCh split: outcome.splits)

lemma RefreshChannels_cmdCh:
  "length (bundles (RefreshChannels c)) = Suc (length (bundles c))" "session (RefreshChannels c) = session c"
  "b < length (bundles c) \<Longrightarrow> cmdCh (RefreshChannels c) b = cmdCh c b"
  "cmdCh (RefreshChannels c) (length (bundles c)) = make_chan 1"
  by (auto simp: RefreshChannels_def Let_def newChannelBundle_def nth_append split: outcome.splits option.splits)

lemma Controller_Close_sel [simp]:
  "bundles (Controller_Close c) = bundles c" "session (Controller_Close c) = session c"
  by (auto simp: Controller_Close_def split: outcome.splits)

text \<open>Old bundles stay, and new ones come with a fresh command channel.\<close>

lemma ctl_step_bundles:
  assumes "ctl_step c c'"
  shows "length (bundles c) \<le> length (bundles c')"
    and "length (bundles c) \<le> b \<Longrightarrow> b < length (bundles c') \<Longrightarrow> cmdCh c' b = make_chan 1"
  using assms by (cases; auto simp: RefreshChannels_cmdCh less_Suc_eq)+

text \<open>A session that ranges over an idle channel stays there, and nobody else takes commands.\<close>

lemma chRefreshed_sel [simp]:
  "chRefreshed (close_bundle b c) = chRefreshed c" "chRefreshed (set_bundle b cb c) = chRefreshed c"
  "chRefreshed (send_case b msg c) = chRefreshed c"
  by (auto simp: close_bundle_def set_bundle_def send_case_def split: outcome.splits)

lemma chRefreshed_prefix:
  "prefix (ch_buf (chRefreshed c)) (ch_buf (chRefreshed (RefreshChannels c)))"
  "ch_buf (chRefreshed (Controller_Close c)) = ch_buf (chRefreshed c)"
  by (auto simp: RefreshChannels_def Controller_Close_def Let_def chan_send_def chan_close_def
      split: outcome.splits option.splits if_splits)

lemma ctl_step_stuck:
  assumes "ctl_step c c'" and "session c = SRange b" and "idle_chan (cmdCh c b)"
  shows "session c' = SRange b"
    and "prefix (ch_buf (chRefreshed c)) (ch_buf (chRefreshed c'))"
    and "b' < length (bundles c) \<Longrightarrow> prefix (ch_buf (cmdCh c b')) (ch_buf (cmdCh c' b'))"
  using assms
  by (cases; auto simp: RefreshChannels_cmdCh chRefreshed_prefix set_bundle_cmdCh idle_chan_def chan_recv_def recv_ready_def chan_send_def
      chan_close_def split: list.splits if_splits)+

lemma rc_step_inv:
  assumes "rc_step s t" and inv: "rc_inv s"
  shows "rc_inv t"
  using assms(1)
proof cases
  case (rc_run c)
  have "idle_chan (cmdCh c b)" if "b < length (bundles c)" "rc_att s b \<noteq> AStarted" for b
  proof (cases "b < length (bundles (rc_ctl s))")
    case True
    with rc_run(3) inv that(2) show ?thesis by (auto simp: rc_inv_def idle_chan_def client_idle_def)
  next
    case False
    with ctl_step_bundles(2) [OF rc_run(2), of b] that(1) show ?thesis by (simp add: idle_chan_def make_chan_def)
  qed
  with inv ctl_step_bundles(1) [OF rc_run(2)] show ?thesis by (auto simp: rc_run(1) rc_inv_def)
qed (use inv in \<open>auto simp: rc_inv_def\<close>)

interpretation rcs: invariant_system rc_init rc_step rc_inv
  by unfold_locales (simp add: rc_init_def rc_inv_def NewController_def, rule rc_step_inv)

section \<open>Properties\<close>

lemma stuck_run:
  assumes "rc_step\<^sup>*\<^sup>* s t" and "rc_inv s" and "session (rc_ctl s) = SRange b" and "rc_att s b = AFailed err"
    and "b < length (bundles (rc_ctl s))"
  shows "rc_inv t \<and> session (rc_ctl t) = SRange b \<and> rc_att t b = AFailed err \<and>
    length (bundles (rc_ctl s)) \<le> length (bundles (rc_ctl t)) \<and>
    prefix (ch_buf (chRefreshed (rc_ctl s))) (ch_buf (chRefreshed (rc_ctl t))) \<and>
    (\<forall>b' < length (bundles (rc_ctl s)). prefix (ch_buf (cmdCh (rc_ctl s) b')) (ch_buf (cmdCh (rc_ctl t) b')))"
  using assms(1)
proof (induction rule: rtranclp_induct)
  case base
  with assms show ?case by simp
next
  case (step t u)
  have inv: "rc_inv u" using step rc_step_inv by blast
  from step.hyps(2) show ?case
  proof cases
    case (rc_run c)
    have "idle_chan (cmdCh (rc_ctl t) b)" using step.IH assms(5) by (simp add: rc_inv_def)
    note stuck = ctl_step_stuck [OF rc_run(2) _ this]
    with inv step.IH ctl_step_bundles(1) [OF rc_run(2)] show ?thesis
      by (auto simp: rc_run(1) intro: prefix_order.trans)
  qed (use inv step.IH in auto)
qed

text \<open>
  C29. A connection attempt that fails disables the controller: when \<open>ProcessNewStream\<close>
  cannot dial or register, it returns without closing the command channel it was given, and
  a session that has taken that pair of channels stays at it forever, whatever is done
  afterwards (new channels, later connections that succeed, the end of the context,
  \<open>Close\<close>). No command of any connection is taken any more, and a pair that waits in
  \<open>chRefreshed\<close> stays there, so that the next \<open>RefreshChannels\<close> blocks.
\<close>

theorem failed_dial_disables_controller:
  assumes "reach rc_init rc_step s" and "session (rc_ctl s) = SRange b" and "rc_att s b = AFailed err"
    and "rc_step\<^sup>*\<^sup>* s t"
  shows "session (rc_ctl t) = SRange b \<and>
         prefix (ch_buf (chRefreshed (rc_ctl s))) (ch_buf (chRefreshed (rc_ctl t))) \<and>
         (\<forall>b' < length (bundles (rc_ctl s)).
            prefix (ch_buf (cb_cmdCh (bundles (rc_ctl s) ! b'))) (ch_buf (cb_cmdCh (bundles (rc_ctl t) ! b'))))"
proof -
  have inv: "rc_inv s" by (rule rcs.inv_reach [OF assms(1)])
  then have "b < length (bundles (rc_ctl s))"
    using assms(3) unfolding rc_inv_def by (metis attempt.distinct(3) linorder_not_less)
  with stuck_run [OF assms(4) inv assms(2,3)] show ?thesis by blast
qed

text \<open>The first attempt cannot dial, the second connects and delivers a command.\<close>

definition rc_state :: "controller \<Rightarrow> attempt list \<Rightarrow> recon_sys" where
  "rc_state c as = \<lparr>rc_ctl = c, rc_att = (\<lambda>b. if b < length as then as ! b else ANone)\<rparr>"

definition refused :: attempt where
  "refused = AFailed (Wrap ''failed to dial endpoint'' (ExtErr ''connection refused''))"

lemma rc_state_snoc:
  "(rc_state c as)\<lparr>rc_att := (rc_att (rc_state c as))(length as := a)\<rparr> = rc_state c (as @ [a])"
  by (auto simp: rc_state_def nth_append)

lemma rc_state_sel [simp]: "rc_ctl (rc_state c as) = c" "rc_att (rc_state c as) (length as) = ANone"
  by (simp_all add: rc_state_def)

lemma rc_example_ctl:
  assumes "reach rc_init rc_step (rc_state c as)" and "ctl_step c c'"
    and "\<forall>b < length (bundles c). (b < length as \<longrightarrow> as ! b \<noteq> AStarted) \<longrightarrow> client_idle b c c'"
  shows "reach rc_init rc_step (rc_state c' as)"
  using reach_step [OF assms(1)] rc_run [of "rc_state c as" c'] assms(2,3) by (simp add: rc_state_def)

lemma rc_example_attempt:
  assumes "reach rc_init rc_step (rc_state c as)" and "length as < length (bundles c)"
  shows "reach rc_init rc_step (rc_state c (as @ [refused]))" and "reach rc_init rc_step (rc_state c (as @ [AStarted]))"
proof -
  have "rc_step (rc_state c as) ((rc_state c as)\<lparr>rc_att := (rc_att (rc_state c as))(length as := refused)\<rparr>)"
    unfolding refused_def
    by (rule rc_failed [where dial_err = "Some (ExtErr ''connection refused'')" and write_err = None])
      (use assms(2) in \<open>simp_all add: ProcessNewStream_start_def\<close>)
  with assms(1) show "reach rc_init rc_step (rc_state c (as @ [refused]))"
    unfolding rc_state_snoc by (rule reach_step)
  have "rc_step (rc_state c as) ((rc_state c as)\<lparr>rc_att := (rc_att (rc_state c as))(length as := AStarted)\<rparr>)"
    by (rule rc_started [where dial_err = None and write_err = None])
      (use assms(2) in \<open>simp_all add: ProcessNewStream_start_def\<close>)
  with assms(1) show "reach rc_init rc_step (rc_state c (as @ [AStarted]))"
    unfolding rc_state_snoc by (rule reach_step)
qed

lemma rc_example_failed: "reach rc_init rc_step (rc_state (ctl_at [cb_with [] False] (Some 0) [] (SRange 0) (Some 0)) [refused])"
proof -
  let ?c0 = "ctl_at [] None [] SWait None"
  let ?c1 = "ctl_at [cb_with [] False] (Some 0) [0] SWait None"
  let ?c2 = "ctl_at [cb_with [] False] (Some 0) [] (SRange 0) (Some 0)"
  have "reach rc_init rc_step (rc_state ?c0 [])"
    by (rule reach_init) (simp add: rc_init_def rc_state_def NewController_def ctl_run_defs)
  moreover have "ctl_step ?c0 ?c1" using ctl_refresh [of ?c0] by (simp add: ctl_run_defs)
  ultimately have "reach rc_init rc_step (rc_state ?c1 [])" by (rule rc_example_ctl) (simp add: ctl_at_def)
  moreover have "ctl_step ?c1 ?c2" using ctl_session_new [of ?c1 0] by (simp add: ctl_run_defs)
  ultimately have "reach rc_init rc_step (rc_state ?c2 [])"
    by (rule rc_example_ctl) (simp add: ctl_at_def client_idle_def)
  from rc_example_attempt(1) [OF this] show ?thesis by (simp add: ctl_at_def)
qed

abbreviation rc_bundles :: "channelBundle list" where
  "rc_bundles \<equiv> [cb_with [] True, cb_with [run_cmd] False]"

lemma rc_example_second:
  "reach rc_init rc_step (rc_state (ctl_at rc_bundles (Some 1) [1] (SRange 0) (Some 0)) [refused, AStarted])"
proof -
  let ?c2 = "ctl_at [cb_with [] False] (Some 0) [] (SRange 0) (Some 0)"
  let ?c3 = "ctl_at [cb_with [] True, cb_with [] False] (Some 1) [1] (SRange 0) (Some 0)"
  have "ctl_step ?c2 ?c3" using ctl_refresh [of ?c2] by (simp add: ctl_run_defs)
  with rc_example_failed have "reach rc_init rc_step (rc_state ?c3 [refused])"
    by (rule rc_example_ctl) (simp add: ctl_at_def client_idle_def cb_with_def)
  from rc_example_attempt(2) [OF this] have "reach rc_init rc_step (rc_state ?c3 [refused, AStarted])"
    by (simp add: ctl_at_def)
  moreover have "ctl_step ?c3 (ctl_at rc_bundles (Some 1) [1] (SRange 0) (Some 0))"
    using ctl_client_cmd [of ?c3 1 run_cmd] by (simp add: ctl_run_defs)
  ultimately show ?thesis by (rule rc_example_ctl) (auto simp: ctl_at_def client_idle_def cb_with_def less_Suc_eq)
qed

theorem failed_dial_disables_controller_witness:
  "let c = ctl_at rc_bundles (Some 1) [1] (SRange 0) (Some 0); t = rc_state (c\<lparr>ctx_done := True\<rparr>) [refused, AStarted] in
   rc_step\<^sup>*\<^sup>* (rc_state c [refused, AStarted]) t \<and> session (rc_ctl t) = SRange 0 \<and>
   prefix [run_cmd] (ch_buf (cb_cmdCh (bundles (rc_ctl t) ! 1)))"
proof -
  let ?c = "ctl_at rc_bundles (Some 1) [1] (SRange 0) (Some 0)"
  let ?s = "rc_state ?c [refused, AStarted]" and ?t = "rc_state (?c\<lparr>ctx_done := True\<rparr>) [refused, AStarted]"
  have "rc_step ?s ?t"
    using rc_run [of ?s "?c\<lparr>ctx_done := True\<rparr>"] ctl_ctx [of ?c]
    by (simp add: rc_state_def ctl_at_def client_idle_def)
  then have run: "rc_step\<^sup>*\<^sup>* ?s ?t" by blast
  from failed_dial_disables_controller [OF rc_example_second _ _ run, of 0] run show ?thesis
    by (simp add: Let_def rc_state_def ctl_at_def refused_def less_Suc_eq cb_with_def)
qed

end
