(* ===== verification/Spec2Isabelle.thy ===== *)
theory Spec2Isabelle
  imports Codec Seq_Counter Spinlock Msg_Wait Streaming Controller Peripheral Conn Server Serving Extension Ext_Manager Client
    Builtin_Codecs Runtime Upload Port_Forward Session Wire Hub Runtime_Session Runtime_Hub Reconnect
begin

text \<open>
  A model of libext-go, the Go library that connects extensions to a hub over a message
  stream, and the properties that make it correct.

  \<^bold>\<open>The program.\<close> An extension process builds a client (\<open>src/client.go\<close>) and a
  controller (\<open>src/controller.go\<close>). The client dials the hub, registers with a JSON
  message, then exchanges commands and messages in a codec of its choice
  (\<open>src/codec\<close>); the controller takes the commands of each connection from a channel
  bundle and gives them to a handler, either the peripheral handler
  (\<open>src/extperipheral\<close>) or the runtime handler (\<open>src/extruntime\<close>, with the stream
  sessions of \<open>src/extutil\<close>). The hub runs a server (\<open>src/server\<close>): connection
  managers accept connections or demultiplex packets, check the registration, and hand the
  connection to the extension manager of its kind and name, which offers \<open>sendCmd\<close> to
  the hub's own handler and matches responses to commands.

  \<^bold>\<open>Theories and what they model.\<close>
  \<^item> \<open>Prelude\<close>: machine integers, Go errors and their texts, panics as \<open>outcome\<close>,
    channels, reachability; the locales \<open>invariant_system\<close> (an inductive invariant holds
    in every reachable state), \<open>refinement_system\<close> (each step is a step of an abstract
    system or none) and \<open>keyed_registry\<close> (a table that refuses duplicates refines a set).
  \<^item> \<open>Proto\<close>: commands, messages, \<open>NewCmd\<close>, \<open>NewMsg\<close>; enum constants of the
    generated package as a record of parameters.
  \<^item> \<open>Codec\<close>: codec registry, buffer pool, varints, and the length-prefixed protobuf codec
    with every error branch; the locale \<open>stream_codec\<close> gives the round trip of whole
    streams, and \<open>framed_codec\<close>, which extends it, what arrives of a stream cut anywhere.
    \<open>Wire\<close>: both ends of a connection that delivers the bytes in any portions, and the
    channel of whole messages that it implements.
    \<open>Builtin_Codecs\<close>: the JSON and the protobuf codec as the repository registers
    them, over \<open>encoding/json\<close> and the generated code.
  \<^item> \<open>Seq_Counter\<close>: the lock-free \<open>nextSeq\<close> under contention.
  \<^item> \<open>Spinlock\<close>: the locks of \<open>StreamManager.doExclusive\<close> and \<open>msgWaitValue.do\<close>;
    the locale \<open>exclusive_jobs\<close> carries assertions on the data through them, beside code
    that changes the data without the lock.
  \<^item> \<open>Msg_Wait\<close>: the response slot of a command, at the level of atomic operations, and the
    atomic mailbox, with its calls, that it refines.
  \<^item> \<open>Streaming\<close>: handler base and stream sessions, as functions and as a transition system
    of goroutines inside and outside the lock.
  \<^item> \<open>Controller\<close>: the command loop and the controller's goroutines; the locale
    \<open>sync_handler\<close> is the contract of a handler that answers each command itself.
  \<^item> \<open>Peripheral\<close>: the peripheral handler and the accounting of connected peripherals.
  \<^item> \<open>Conn\<close>, \<open>Server\<close>: handshake, connection managers, server configuration, dispatch.
    \<open>Serving\<close>: \<open>ListenAndServe\<close> of the server with the goroutines of its managers,
    concurrent calls of \<open>Close\<close> and \<open>Handle\<close>, and the dispatch whose two lookups are
    locked separately.
  \<^item> \<open>Extension\<close>: the goroutines of \<open>HandleStream\<close> with the callers of \<open>sendCmd\<close>;
    \<open>Ext_Manager\<close>: any number of streams on one extension manager.
  \<^item> \<open>Client\<close>: \<open>NewClient\<close> and \<open>ProcessNewStream\<close> with its two goroutines.
  \<^item> \<open>Runtime\<close>, \<open>Upload\<close>, \<open>Port_Forward\<close>: the runtime handler's operations; the
    output side of its stream operations with the goroutines that number and send the data;
    a port-forward with its delayed closing goroutines.
  \<^item> Compositions: \<open>Session\<close> (client, session loop and any synchronous handler),
    \<open>Hub\<close> (a stream of the extension manager with its callers, a connection that may break,
    and a process at its other end; the locale \<open>hub_process\<close> is what such a process has to
    do with its client, and gives what arrives where; interpreted here for a session with a
    synchronous handler),
    \<open>Runtime_Session\<close> (session loop and the goroutines of the runtime handler),
    \<open>Runtime_Hub\<close> (the hub and a runtime extension, also an interpretation of
    \<open>hub_process\<close>),
    \<open>Reconnect\<close> (controller and the successive connections of a client).
  This theory holds further properties that span the components: a client's registration
  ends in the right handler, and what a keepalive answer or the output of a stream can do
  to a waiting command.

  \<^bold>\<open>How state and concurrency are modelled.\<close> Sequential code is a function on a record
  of its state, with errors in a sum or option type and panics in \<open>outcome\<close>. Code whose
  goroutines share state is an \<open>inductive\<close> step relation with one rule per operation on
  shared state (an atomic instruction, a channel operation, a \<open>sync.Map\<close> call, a select
  case), so that every interleaving of these operations is a run; properties are stated
  for all reachable states. What a mutex or \<open>sync.Map\<close> makes invisible is one step, and so
  are \<open>RefreshChannels\<close> and the closing of a bundle's two channels. Pointers that outlive their table entry (streams, extension
  managers, response slots) are positions in a list.

  \<^bold>\<open>Parameters.\<close> Code outside the repository is an argument: generated protobuf code
  (\<open>arhatgopb\<close>, \<open>gogo\<close>, \<open>aranyagopb\<close>), the sequence queue (\<open>SeqQueue\<close>), pipes
  (\<open>pipe_ops\<close>), network and URL functions (\<open>netenv\<close>), registered codecs
  (\<open>codec_iface\<close>), the extension's own engine or peripherals. The timeout queue and the
  timeout reader are represented by everything they may do: any offered key may fire at any
  time, any chunk of the available bytes may be read. Hypotheses on parameters are named:
  \<open>arhatgopb_distinct\<close>, \<open>wire_ok\<close>, \<open>json_register_ok\<close>, and, for the runtime answers,
  message kinds that are distinct and not 0. Nothing is assumed of \<open>marshal\<close> functions in
  the sessions: a reply that does not marshal is a branch of the model.

  \<^bold>\<open>Bounds.\<close> No definition runs on fuel. \<open>ReadUvarint_loop\<close> counts the ten bytes a
  64-bit varint may have; \<open>uvarint\<close> and \<open>nextSeq_loop\<close> terminate by proof; lists of
  events given to \<open>accept_loop\<close>, \<open>collect_loop\<close> and \<open>pf_drain\<close> stand for what
  arrives, and \<open>None\<close> means the loop still waits. Sequence numbers are 64-bit words and
  wrap; sizes are compared as the code compares them, after the conversion to \<open>int\<close>, on a
  64-bit platform (\<open>maxAlloc\<close>).

  \<^bold>\<open>What the properties show.\<close> A command that the hub sends to a peripheral extension
  gets the reply that the extension's command loop gives when it runs alone, whatever the
  goroutines on both sides and the connection do; one sent to a runtime extension gets the
  answer to its own request, unless the output of a stream has its key. Round trips, whole messages only from a cut
  stream, and a channel of messages out of a connection of bytes, for the codec; client and server agree on the built-in codecs; linearisation by the two spinlocks
  and no lost or leaked stream session; the response slot does not panic and is an atomic
  slot, and responses are matched to their commands under every interleaving; one stream per
  extension name; one reply per peripheral command from the hub's stream and back, and no
  leaked peripheral; every runtime request answered once although goroutines overlap, or
  accounted for as lost with a closed channel or a reply that does not marshal; ordered
  forwarding and clean-up in the client; packets and replies kept apart by address; the latest matching
  registration serves a connection, and a dispatch that overlaps with \<open>Handle\<close> is one
  before or after it; \<open>ListenAndServe\<close> of the server returns the first error after all
  managers returned, and \<open>Close\<close> makes it return unless a packet manager hangs in a write
  to a virtual connection; the output of stream operations and
  port-forwards numbered without gaps with the closing message last. Other properties state
  behaviour that is probably not intended: sizes that make \<open>Decode\<close> panic, a cut inside a
  size prefix that counts as a clean end, a send on a
  closed channel and a double close in the controller, a controller disabled by a failed dial,
  calls orphaned by a timeout, a stream blocked by late responses, a stream that outlives its
  handler, a \<open>Close\<close> that is lost before the listen step, a session closed by a refused
  duplicate, a half-close that a port-forward does not pass on, a read error that is lost,
  a pong and a chunk of stream output that are taken for responses.

  \<^bold>\<open>Not modelled.\<close> Logging; TLS and the dialers; the pool of \<open>proto.Buffer\<close> objects;
  reads of a \<open>packetStream\<close>, which a \<open>bufio.Reader\<close> on the pipe serves; the
  read-write locks themselves (their critical sections are atomic steps); \<open>preRun\<close> of stream
  operations, which every caller passes as nil; the engine behind the runtime handler and the
  implementation of the pipes; examples, documentation files and the empty fuzzing entry.
\<close>

section \<open>Registration end to end\<close>

text \<open>
  C20. A client reaches the handler it is meant for: when a client made by \<open>NewClient\<close>
  opens a connection on one of the server's endpoints and writes its registration message,
  followed by any data, the connection's goroutine accepts it with the client's kind, name
  and codec, and ends in \<open>HandleStream\<close> of the manager that the latest matching
  \<open>Handle\<close> call registered, with the keepalive interval and the message timeout of the
  last endpoint configured for this address: a minute where the configuration says 0, and
  at least a millisecond.
\<close>

theorem registration_served:
  assumes "NewClient N pb codecs kind name c url tls = Inr cl"
    and "\<And>j. Get (CODEC_JSON pb) codecs = Some j \<Longrightarrow> json_register_ok pb j name kind (cd_Type c)"
    and "Get (cd_Type c) codecs = Some c'"
    and "NewServer N' eps = Inr srv" and "m \<in> set (connectionManagers (handle_all regs srv))"
    and "find_manager kind name (handle_all regs srv) = Some mgr"
  shows "\<exists>ep keepalive timeout conn'. last (filter (listens_on N' (addr_key (m_addr m))) eps) = ep \<and> ep \<in> set eps \<and>
    keepalive = (if KeepaliveInterval ep = 0 then Minute else max Millisecond (KeepaliveInterval ep)) \<and>
    timeout = (if MessageTimeout ep = 0 then Minute else max Millisecond (MessageTimeout ep)) \<and>
    serve_conn pb cs codecs
      (\<lambda>addr reg conn. handleNewConn ks HandleStream (handle_all regs srv) addr (fst reg) (fst (snd reg)) (snd (snd reg)) conn)
      (m_addr m) \<lparr>rd_data = cl_regMsg cl @ rest, rd_err = e\<rparr> =
    (case HandleStream mgr name c' keepalive timeout conn' of Some err \<Rightarrow> ConnFailed err | None \<Rightarrow> ConnDone)"
proof -
  obtain conn' where v: "validateConnection pb cs codecs \<lparr>rd_data = cl_regMsg cl @ rest, rd_err = e\<rparr> =
      Ret (Inr (kind, name, c'), conn')" using register_accepted [OF assms(1-3)] by blast
  from own_connections_served [OF assms(4-6), of ks HandleStream c' conn'] obtain ep keepalive timeout where
    "last (filter (listens_on N' (addr_key (m_addr m))) eps) = ep" "ep \<in> set eps"
    "keepalive = (if KeepaliveInterval ep = 0 then Minute else max Millisecond (KeepaliveInterval ep))"
    "timeout = (if MessageTimeout ep = 0 then Minute else max Millisecond (MessageTimeout ep))"
    "handleNewConn ks HandleStream (handle_all regs srv) (m_addr m) kind name c' conn' =
      HandleStream mgr name c' keepalive timeout conn'" by blast
  with v show ?thesis
    by (intro exI [of _ ep] exI [of _ keepalive] exI [of _ timeout] exI [of _ conn']) (simp add: serve_conn_def)
qed

theorem registration_served_witness:
  "\<exists>cl srv. NewClient netenv_example pb_example [1 \<mapsto> codec_example] 5 ''ext'' codec_example ''localhost:1'' (None :: unit option) = Inr cl \<and>
     NewServer netenv_example [ep_example] = Inr srv \<and>
     serve_conn pb_example (\<lambda>_. ''json'') [1 \<mapsto> codec_example]
       (\<lambda>addr reg conn. handleNewConn (\<lambda>_. '''') (\<lambda>mgr name c ka mt conn. Some (Errorf name))
          (handle_all [(5, [], ())] srv) addr (fst reg) (fst (snd reg)) (snd (snd reg)) conn)
       \<lparr>Network = ''tcp'', AddrString = ''localhost:1''\<rparr> \<lparr>rd_data = cl_regMsg cl @ [9], rd_err = EOF\<rparr> =
     ConnFailed (Errorf ''ext'')"
proof -
  let ?a = "\<lparr>Network = ''tcp'', AddrString = ''localhost:1''\<rparr>"
  let ?m = "newStreamConnectionManager ?a (TLS ep_example)"
  obtain srv :: "(unit, unit) Server" where srv: "NewServer netenv_example [ep_example] = Inr srv"
    and mgrs: "connectionManagers srv = [?m]" and none: "ext_mgrs srv = []"
    by (simp add: NewServer_def add_endpoint_eq [OF endpoint_addr_example]) (simp add: empty_server_def)
  obtain cl where cl: "NewClient netenv_example pb_example [1 \<mapsto> codec_example] 5 ''ext'' codec_example
      ''localhost:1'' (None :: unit option) = Inr cl"
    by (simp add: NewClient_def netenv_example_def Get_def pb_example_def NewMsg_def codec_example_def)
  have ok: "json_register_ok pb_example j ''ext'' 5 (cd_Type codec_example)"
    if "Get (CODEC_JSON pb_example) [1 \<mapsto> codec_example] = Some j" for j
    using that by (auto simp: Get_def pb_example_def json_register_ok_def codec_example_def split: option.splits)
  have g: "Get (cd_Type codec_example) [1 \<mapsto> codec_example] = Some codec_example"
    by (simp add: Get_def codec_example_def)
  have m: "?m \<in> set (connectionManagers (handle_all [(5, [], ())] srv))"
    by (simp only: handle_all_conns mgrs) simp
  have f: "find_manager 5 ''ext'' (handle_all [(5, [], ())] srv) = Some 0"
    by (simp add: find_manager_Handle covers_def none)
  have "serve_conn pb_example (\<lambda>_. ''json'') [1 \<mapsto> codec_example]
       (\<lambda>addr reg conn. handleNewConn (\<lambda>_. '''') (\<lambda>mgr name c ka mt conn. Some (Errorf name))
          (handle_all [(5, [], ())] srv) addr (fst reg) (fst (snd reg)) (snd (snd reg)) conn)
       (m_addr ?m) \<lparr>rd_data = cl_regMsg cl @ [9], rd_err = EOF\<rparr> = ConnFailed (Errorf ''ext'')"
    using registration_served [OF cl ok g srv m f, of "\<lambda>_. ''json''" "\<lambda>_. ''''"
        "\<lambda>mgr name c ka mt conn. Some (Errorf name)" "[9]" EOF]
    by (simp only: option.case) blast
  with cl srv show ?thesis by (auto simp: newStreamConnectionManager_def)
qed

text \<open>
  C39. A keepalive answer can be taken for a response: the pong a client sends has id and
  acknowledgement 0, so when a command with id 0 and sequence number 0 waits for its
  response, \<open>sendCmd\<close> may return the pong.
\<close>

theorem pong_taken_for_response:
  assumes "cmd_Id cmd = 0" and "cmd_Seq cmd = 0"
  shows "\<exists>s. reach ext_init (ext_step pb) s \<and> calls s 0 = CRet cmd (Inr (Some (pong_msg pb)))"
proof -
  have "msg_key (pong_msg pb) = cmd_key cmd" using assms by (simp add: msg_key_def cmd_key_def pong_msg_def)
  from run_answered [OF this, of pb] show ?thesis using ext_at_sel(4) by blast
qed

theorem pong_taken_for_response_witness:
  "\<exists>s. reach ext_init (ext_step pb_example) s \<and>
       calls s 0 = CRet \<lparr>cmd_Kind = 7, cmd_Id = 0, cmd_Seq = 0, cmd_Payload = None\<rparr> (Inr (Some (pong_msg pb_example)))"
  by (rule pong_taken_for_response) simp_all

text \<open>
  C40. The output of a stream can be taken for a response: the messages that a stream
  operation sends carry its session id and, as acknowledgement, the number of the chunk,
  so when a command of this session waits for its response, with any sequence number, there
  is an output message (with any data the handler would send at once) which \<open>sendCmd\<close>
  returns, and which does not reach the handler of out-of-band messages.
\<close>

theorem stream_output_taken_for_response:
  assumes "length dat \<le> maxPayloadSize"
  shows "\<exists>u msg s. reach so_init (so_step pb A (cmd_Id cmd) maxPayloadSize) u \<and> msg \<in> set (so_sent u) \<and>
     msg_Kind msg = MSG_DATA_OUTPUT pb \<and> msg_Payload msg = Some dat \<and>
     reach ext_init (ext_step pb) s \<and> calls s 0 = CRet cmd (Inr (Some msg)) \<and> oob s = []"
proof -
  let ?m = "up_msg pb (cmd_Id cmd) False (cmd_Seq cmd) dat"
  obtain u where u: "reach so_init (so_step pb A (cmd_Id cmd) maxPayloadSize) u" "?m \<in> set (so_sent u)"
    using so_outputs [OF assms, of pb A "cmd_Id cmd" "unat (cmd_Seq cmd)"] by auto
  have "msg_key ?m = cmd_key cmd" by (simp add: msg_key_def cmd_key_def up_msg_def nextSeq_eq)
  from run_answered [OF this, of pb] obtain s where "reach ext_init (ext_step pb) s" "calls s 0 = CRet cmd (Inr (Some ?m))" "oob s = []"
    using that [OF _ ext_at_sel(4) ext_at_oob] by blast
  moreover have "msg_Kind ?m = MSG_DATA_OUTPUT pb" "msg_Payload ?m = Some dat" by (simp_all add: up_msg_def up_kind_def)
  ultimately show ?thesis using u by blast
qed

theorem stream_output_taken_for_response_witness:
  "\<exists>u msg s. reach so_init (so_step pb_example aranya_example 7 10) u \<and> msg \<in> set (so_sent u) \<and>
     msg_Kind msg = MSG_DATA_OUTPUT pb_example \<and> msg_Payload msg = Some [1, 2] \<and>
     reach ext_init (ext_step pb_example) s \<and> calls s 0 = CRet (rt_cmd 4 1) (Inr (Some msg)) \<and> oob s = []"
  using stream_output_taken_for_response [of "[1, 2]" 10 pb_example aranya_example "rt_cmd 4 1"] by (simp add: rt_cmd_def)

end
